(* ===== verification/Prelude.thy ===== *)
theory Prelude
  imports Main "HOL-Library.Word"
begin

text \<open>
  Shared vocabulary of the development: the machine integer types, the result
  types of fallible and of panicking code, searches over slot arrays, and the
  ring-index arithmetic used by every circular buffer of the kernel.
\<close>

section \<open>Machine types and results\<close>

type_synonym u8 = "8 word"
type_synonym u16 = "16 word"
type_synonym u32 = "32 word"
type_synonym u64 = "64 word"

text \<open>
  \<open>Result<T, &'static str>\<close> is a sum type whose left summand carries the
  message.  Code that may also panic, or spin for ever, returns an
  \<open>outcome\<close>: \<open>Panic\<close> for a Rust panic (index out of range, explicit
  \<open>panic!\<close>), \<open>Hang\<close> for a loop that is never left.
\<close>

type_synonym 'a result = "string + 'a"

datatype 'a outcome = Return 'a | Panic string | Hang

fun outcome_bind :: "'a outcome \<Rightarrow> ('a \<Rightarrow> 'b outcome) \<Rightarrow> 'b outcome" where
  "outcome_bind (Return x) f = f x"
| "outcome_bind (Panic m) f = Panic m"
| "outcome_bind Hang f = Hang"

named_theorems rights_simps \<open>bitwise reasoning on rights masks\<close>
named_theorems slot_simps \<open>lookups and updates of slot arrays\<close>
named_theorems ring_simps \<open>index arithmetic of circular buffers\<close>

lemma outcome_bind_Return_iff:
  "outcome_bind m f = Return y \<longleftrightarrow> (\<exists>x. m = Return x \<and> f x = Return y)"
  by (cases m) auto

section \<open>Searching a slot array\<close>

text \<open>The index of the first element with a property: \<open>iter().enumerate()\<close> with an early return.\<close>

fun find_index :: "('a \<Rightarrow> bool) \<Rightarrow> 'a list \<Rightarrow> nat option" where
  "find_index P [] = None"
| "find_index P (x # xs) = (if P x then Some 0 else map_option Suc (find_index P xs))"

lemma find_index_SomeD:
  "find_index P xs = Some i \<Longrightarrow> i < length xs \<and> P (xs ! i) \<and> (\<forall>j < i. \<not> P (xs ! j))"
proof (induction xs arbitrary: i)
  case Nil
  then show ?case by simp
next
  case (Cons x xs)
  show ?case
  proof (cases "P x")
    case True
    with Cons.prems show ?thesis by simp
  next
    case False
    with Cons.prems obtain k where k: "find_index P xs = Some k" "i = Suc k" by auto
    from Cons.IH[OF k(1)] k(2) False show ?thesis
      by (auto simp: nth_Cons split: nat.splits)
  qed
qed

lemma find_index_None_iff: "find_index P xs = None \<longleftrightarrow> (\<forall>x \<in> set xs. \<not> P x)"
  by (induction xs) auto

lemma find_index_None_nth: "find_index P xs = None \<Longrightarrow> i < length xs \<Longrightarrow> \<not> P (xs ! i)"
  by (auto simp: find_index_None_iff)

lemma find_index_SomeI:
  assumes "i < length xs" "P (xs ! i)" "\<And>j. j < i \<Longrightarrow> \<not> P (xs ! j)"
  shows "find_index P xs = Some i"
proof (cases "find_index P xs")
  case None
  with assms show ?thesis by (auto simp: find_index_None_iff)
next
  case (Some k)
  with find_index_SomeD[OF Some] assms show ?thesis
    by (metis linorder_neqE_nat)
qed

lemma find_index_cong_nth:
  "length xs = length ys \<Longrightarrow> (\<And>j. j < length xs \<Longrightarrow> P (xs ! j) = Q (ys ! j)) \<Longrightarrow>
   find_index P xs = find_index Q ys"
proof (induction xs ys rule: list_induct2')
  case (4 x xs y ys)
  have "P x = Q y" using 4(3)[of 0] by simp
  moreover have "find_index P xs = find_index Q ys" using 4(1,2) 4(3)[of "Suc _"] by simp
  ultimately show ?case by simp
qed simp_all

lemma find_index_replicate [simp]:
  "find_index P (replicate n x) = (if 0 < n \<and> P x then Some 0 else None)"
  by (induction n) auto

section \<open>Occupied slots\<close>

definition occupied :: "'a option list \<Rightarrow> nat" where
  "occupied xs = length (filter (\<lambda>x. x \<noteq> None) xs)"

lemma occupied_replicate_None [simp, slot_simps]: "occupied (replicate n None) = 0"
  by (simp add: occupied_def filter_replicate)

lemma occupied_Cons [simp]: "occupied (x # xs) = (if x = None then 0 else 1) + occupied xs"
  by (simp add: occupied_def)

lemma occupied_le_length: "occupied xs \<le> length xs"
  by (simp add: occupied_def)

lemma occupied_eq_sum: "occupied xs = (\<Sum>x\<leftarrow>xs. if x = None then 0 else 1)"
  by (induction xs) (auto simp: occupied_def)

lemma occupied_update_Some [slot_simps]:
  "i < length xs \<Longrightarrow> xs ! i = None \<Longrightarrow> occupied (xs[i := Some e]) = Suc (occupied xs)"
proof (induction xs arbitrary: i)
  case (Cons x xs)
  then show ?case by (cases i) (auto simp: occupied_def)
qed simp

lemma occupied_update_None [slot_simps]:
  "i < length xs \<Longrightarrow> xs ! i \<noteq> None \<Longrightarrow> Suc (occupied (xs[i := None])) = occupied xs"
proof (induction xs arbitrary: i)
  case (Cons x xs)
  then show ?case by (cases i) (auto simp: occupied_def)
qed simp

lemma occupied_full_iff: "occupied xs = length xs \<longleftrightarrow> find_index (\<lambda>x. x = None) xs = None"
proof (induction xs)
  case (Cons x xs)
  have "x = None \<Longrightarrow> occupied (x # xs) \<noteq> length (x # xs)"
    by (simp add: occupied_def) (metis length_filter_le not_less_eq_eq order_refl)
  with Cons show ?case by (cases x) (auto simp: occupied_def)
qed (simp add: occupied_def)

lemma occupied_less_if_free: "i < length xs \<Longrightarrow> xs ! i = None \<Longrightarrow> occupied xs < length xs"
  using occupied_update_Some[of i xs undefined] occupied_le_length[of "xs[i := Some undefined]"]
  by simp

section \<open>Circular buffers\<close>

text \<open>
  The \<open>k\<close> elements of a buffer of \<open>n\<close> cells that start at cell \<open>h\<close>, wrapping
  at the end: the abstract queue of a head index and a length.
\<close>

definition ring_list :: "'a list \<Rightarrow> nat \<Rightarrow> nat \<Rightarrow> nat \<Rightarrow> 'a list" where
  "ring_list buf n h k = map (\<lambda>i. buf ! ((h + i) mod n)) [0..<k]"

lemma length_ring_list [simp]: "length (ring_list buf n h k) = k"
  by (simp add: ring_list_def)

lemma ring_list_0 [simp]: "ring_list buf n h 0 = []"
  by (simp add: ring_list_def)

lemma ring_list_nth [simp]: "i < k \<Longrightarrow> ring_list buf n h k ! i = buf ! ((h + i) mod n)"
  by (simp add: ring_list_def)

lemma ring_index_inj:
  fixes h i j n :: nat
  assumes "(h + i) mod n = (h + j) mod n" "i < n" "j < n"
  shows "i = j"
proof -
  have "int i mod int n = int j mod int n"
  proof -
    have "(int h + int i) mod int n = (int h + int j) mod int n"
      using assms(1) by (metis of_nat_add of_nat_mod)
    then have "int n dvd (int h + int i) - (int h + int j)" by (simp only: mod_eq_dvd_iff)
    then have "int n dvd int i - int j" by simp
    then show ?thesis by (simp only: mod_eq_dvd_iff)
  qed
  with assms(2,3) show ?thesis by simp
qed

lemma ring_list_snoc [ring_simps]:
  assumes "length buf = n" "k < n"
  shows "ring_list (buf[(h + k) mod n := x]) n h (Suc k) = ring_list buf n h k @ [x]"
proof (rule nth_equalityI)
  fix i assume "i < length (ring_list (buf[(h + k) mod n := x]) n h (Suc k))"
  then have i: "i < Suc k" by simp
  have n: "(h + k) mod n < length buf" using assms by simp
  show "ring_list (buf[(h + k) mod n := x]) n h (Suc k) ! i = (ring_list buf n h k @ [x]) ! i"
  proof (cases "i = k")
    case True
    with n show ?thesis by (simp add: nth_append)
  next
    case False
    with i have "i < k" by simp
    moreover have "(h + k) mod n \<noteq> (h + i) mod n"
      using ring_index_inj[of h k n i] False assms(2) \<open>i < k\<close> by auto
    ultimately show ?thesis by (simp add: nth_append)
  qed
qed simp

lemma ring_list_Cons [ring_simps]:
  "0 < k \<Longrightarrow> ring_list buf n h k = buf ! (h mod n) # ring_list buf n ((h + 1) mod n) (k - 1)"
  by (rule nth_equalityI) (auto simp: nth_Cons mod_add_left_eq split: nat.splits)

lemma ring_list_mod [simp]: "ring_list buf n (h mod n) k = ring_list buf n h k"
  by (rule nth_equalityI) (auto simp: mod_add_left_eq)

lemma ring_list_update_outside:
  assumes "length buf = n" "k < n"
  shows "ring_list (buf[(h + k) mod n := x]) n h k = ring_list buf n h k"
proof (rule nth_equalityI)
  fix i assume "i < length (ring_list (buf[(h + k) mod n := x]) n h k)"
  then have i: "i < k" by simp
  have "(h + k) mod n \<noteq> (h + i) mod n"
    using ring_index_inj[of h k n i] assms(2) i by auto
  with i show "ring_list (buf[(h + k) mod n := x]) n h k ! i = ring_list buf n h k ! i" by simp
qed simp

lemma ring_list_update [ring_simps]:
  assumes "length buf = n" "k < K" "K \<le> n"
  shows "ring_list (buf[(h + k) mod n := x]) n h K = (ring_list buf n h K)[k := x]"
proof (rule nth_equalityI)
  fix i assume "i < length (ring_list (buf[(h + k) mod n := x]) n h K)"
  then have i: "i < K" by simp
  have n: "(h + k) mod n < length buf" using assms by simp
  show "ring_list (buf[(h + k) mod n := x]) n h K ! i = (ring_list buf n h K)[k := x] ! i"
  proof (cases "i = k")
    case True
    with n i show ?thesis by simp
  next
    case False
    then have "(h + k) mod n \<noteq> (h + i) mod n"
      using ring_index_inj[of h k n i] assms i by auto
    with False i show ?thesis by simp
  qed
qed simp

lemma ring_list_take: "j \<le> k \<Longrightarrow> take j (ring_list buf n h k) = ring_list buf n h j"
  by (rule nth_equalityI) auto

text \<open>Closing the gap at an index by moving the later elements down, one at a time.\<close>

lemma fold_shift_down:
  assumes "i < length xs"
  shows "i \<le> m \<Longrightarrow> m < length xs \<Longrightarrow>
    fold (\<lambda>j ys. ys[j := ys ! Suc j]) [i..<m] xs = take i xs @ take (m - i) (drop (Suc i) xs) @ drop m xs"
proof (induction m)
  case 0
  then show ?case by simp
next
  case (Suc m)
  show ?case
  proof (cases "i = Suc m")
    case True
    with Suc.prems show ?thesis by simp
  next
    case False
    with Suc.prems have m: "i \<le> m" "m < length xs" "Suc m < length xs" by simp_all
    let ?ys = "take i xs @ take (m - i) (drop (Suc i) xs) @ drop m xs"
    have len: "length (take i xs @ take (m - i) (drop (Suc i) xs)) = m" using m assms by simp
    have nth: "?ys ! Suc m = xs ! Suc m"
      using m len nth_append[of "take i xs @ take (m - i) (drop (Suc i) xs)" "drop m xs" "Suc m"] by simp
    have d: "drop m xs = xs ! m # drop (Suc m) xs" using m by (simp add: Cons_nth_drop_Suc)
    have t: "take (Suc m - i) (drop (Suc i) xs) = take (m - i) (drop (Suc i) xs) @ [xs ! Suc m]"
      using m by (simp add: Suc_diff_le take_Suc_conv_app_nth)
    have "fold (\<lambda>j ys. ys[j := ys ! Suc j]) [i..<Suc m] xs = ?ys[m := ?ys ! Suc m]"
      using Suc.IH m by simp
    also have "\<dots> = take i xs @ take (Suc m - i) (drop (Suc i) xs) @ drop (Suc m) xs"
      unfolding nth t using len m by (subst d) (simp add: list_update_append)
    finally show ?thesis .
  qed
qed

section \<open>Words\<close>

lemma unat_u64_bound: "unat (x :: u64) < 2 ^ 64"
  using unsigned_less[of x] by simp

text \<open>Clearing the low twelve bits rounds down to a page.\<close>

lemma unat_page_align: "unat (and y (not 0xFFF) :: u64) = unat y div 4096 * 4096"
proof -
  have m: "(0xFFF :: u64) = mask 12" by (simp add: mask_eq_exp_minus_1)
  have "and y (not 0xFFF) = push_bit 12 (drop_bit 12 y)"
    unfolding m by (auto simp: bit_eq_iff bit_simps not_less)
  moreover have "unat y div 4096 * 4096 < 2 ^ 64"
    using div_mult_mod_eq[of "unat y" 4096] unat_u64_bound[of y] by linarith
  ultimately show ?thesis
    by (simp add: drop_bit_eq_div push_bit_eq_mult unat_word_ariths unat_div)
qed

end
