(* ===== verification/Interfaces.thy ===== *)
theory Interfaces
  imports Prelude
begin

text \<open>
  The contracts that several components of the kernel share: a table of
  slots addressed by small values (handle tables, the descriptor table), a bounded first-in first-out queue (the run queue levels,
  the keyboard buffer) and a source of pages (the zones of the physical memory
  manager).  The lemmas of a contract are proved once here; each
  component interprets the locale on its own operations.
\<close>

section \<open>Slot tables\<close>

fun put_many :: "('t \<Rightarrow> 'e \<Rightarrow> ('t \<times> 'i) option) \<Rightarrow> 't \<Rightarrow> 'e list \<Rightarrow> ('t \<times> 'i list) option" where
  "put_many put t [] = Some (t, [])"
| "put_many put t (e # es) =
     (case put t e of None \<Rightarrow> None
      | Some (t1, i) \<Rightarrow>
          (case put_many put t1 es of None \<Rightarrow> None | Some (t2, is) \<Rightarrow> Some (t2, i # is)))"

locale slot_table =
  fixes look :: "'t \<Rightarrow> 'i \<Rightarrow> 'e option"
    and put :: "'t \<Rightarrow> 'e \<Rightarrow> ('t \<times> 'i) option"
    and del :: "'t \<Rightarrow> 'i \<Rightarrow> 't"
    and inv :: "'t \<Rightarrow> bool"
  assumes put_fresh: "inv t \<Longrightarrow> put t e = Some (t', i) \<Longrightarrow> look t i = None"
    and put_look: "inv t \<Longrightarrow> put t e = Some (t', i) \<Longrightarrow>
          look t' j = (if j = i then Some e else look t j)"
    and put_inv: "inv t \<Longrightarrow> put t e = Some (t', i) \<Longrightarrow> inv t'"
    and del_look: "inv t \<Longrightarrow> look t i \<noteq> None \<Longrightarrow>
          look (del t i) j = (if j = i then None else look t j)"
    and del_inv: "inv t \<Longrightarrow> look t i \<noteq> None \<Longrightarrow> inv (del t i)"
begin

lemma del_put_cancel:
  assumes "inv t" "put t e = Some (t', i)"
  shows "look (del t' i) j = look t j"
  using del_look[of t' i j] put_look[OF assms] put_inv[OF assms] put_fresh[OF assms] by auto

lemma put_many_contract:
  assumes "inv t" "put_many put t es = Some (t', is)"
  shows "inv t' \<and> distinct is \<and> length is = length es \<and>
         (\<forall>k < length es. look t (is ! k) = None \<and> look t' (is ! k) = Some (es ! k)) \<and>
         (\<forall>j. j \<notin> set is \<longrightarrow> look t' j = look t j)"
  using assms
proof (induction es arbitrary: t "is")
  case Nil
  then show ?case by simp
next
  case (Cons e es)
  then obtain t1 i is' where p: "put t e = Some (t1, i)" "put_many put t1 es = Some (t', is')"
    "is = i # is'" by (auto split: option.splits)
  note IH = Cons.IH[OF put_inv[OF Cons.prems(1) p(1)] p(2)]
  note look1 = put_look[OF Cons.prems(1) p(1)]
  have i: "i \<notin> set is'"
  proof
    assume "i \<in> set is'"
    then obtain k where "k < length es" "is' ! k = i" using IH by (auto simp: in_set_conv_nth)
    then have "look t1 i = None" using IH by auto
    then show False using look1[of i] by simp
  qed
  have t1: "look t' i = Some e" using IH i look1[of i] by auto
  have fresh: "look t (is' ! k) = None" if "k < length es" for k
    using IH that look1[of "is' ! k"] by (auto split: if_splits)
  show ?case
    using IH i t1 fresh p(3) look1 put_fresh[OF Cons.prems(1) p(1)]
    by (auto simp: nth_Cons split: nat.splits)
qed

end

section \<open>Bounded queues\<close>

datatype 'a queue_op = Enq 'a | Deq

datatype 'a queue_out = Accepted bool | Taken "'a option"

fun run_queue_ops ::
  "('q \<Rightarrow> 'a \<Rightarrow> 'q \<times> bool) \<Rightarrow> ('q \<Rightarrow> 'q \<times> 'a option) \<Rightarrow> 'q \<Rightarrow> 'a queue_op list \<Rightarrow> 'q \<times> 'a queue_out list"
where
  "run_queue_ops enq deq q [] = (q, [])"
| "run_queue_ops enq deq q (Enq x # ops) =
     (let (q1, b) = enq q x; (q2, outs) = run_queue_ops enq deq q1 ops in (q2, Accepted b # outs))"
| "run_queue_ops enq deq q (Deq # ops) =
     (let (q1, r) = deq q; (q2, outs) = run_queue_ops enq deq q1 ops in (q2, Taken r # outs))"

text \<open>The reference queue: a list of at most \<open>cap\<close> elements.\<close>

definition spec_enq :: "nat \<Rightarrow> 'a list \<Rightarrow> 'a \<Rightarrow> 'a list \<times> bool" where
  "spec_enq cap xs x = (if length xs < cap then (xs @ [x], True) else (xs, False))"

definition spec_deq :: "'a list \<Rightarrow> 'a list \<times> 'a option" where
  "spec_deq xs = (case xs of [] \<Rightarrow> ([], None) | x # ys \<Rightarrow> (ys, Some x))"

locale bounded_fifo =
  fixes enq :: "'q \<Rightarrow> 'a \<Rightarrow> 'q \<times> bool"
    and deq :: "'q \<Rightarrow> 'q \<times> 'a option"
    and items :: "'q \<Rightarrow> 'a list"
    and inv :: "'q \<Rightarrow> bool"
    and cap :: nat
  assumes enq_refines: "inv q \<Longrightarrow> enq q x = (q', b) \<Longrightarrow> inv q' \<and> spec_enq cap (items q) x = (items q', b)"
    and deq_refines: "inv q \<Longrightarrow> deq q = (q', r) \<Longrightarrow> inv q' \<and> spec_deq (items q) = (items q', r)"
begin

lemma run_refines:
  assumes "inv q" "run_queue_ops enq deq q ops = (q', outs)"
  shows "inv q' \<and> run_queue_ops (spec_enq cap) spec_deq (items q) ops = (items q', outs)"
  using assms
proof (induction ops arbitrary: q q' outs)
  case Nil
  then show ?case by simp
next
  case (Cons op ops)
  show ?case
  proof (cases op)
    case (Enq x)
    obtain q1 b where e: "enq q x = (q1, b)" by fastforce
    obtain q2 outs2 where r: "run_queue_ops enq deq q1 ops = (q2, outs2)" by fastforce
    from enq_refines[OF Cons.prems(1) e] Cons.IH[OF _ r] Cons.prems(2) Enq e r
    show ?thesis by auto
  next
    case Deq
    obtain q1 b where e: "deq q = (q1, b)" by fastforce
    obtain q2 outs2 where r: "run_queue_ops enq deq q1 ops = (q2, outs2)" by fastforce
    from deq_refines[OF Cons.prems(1) e] Cons.IH[OF _ r] Cons.prems(2) Deq e r
    show ?thesis by auto
  qed
qed

end

section \<open>Page sources\<close>

text \<open>
  What a client of a page allocator may rely on: a page handed out was
  available, is no longer available afterwards, and the source gives out pages
  until none is left.
\<close>

fun alloc_many :: "('s \<Rightarrow> ('s \<times> 'p) option) \<Rightarrow> 's \<Rightarrow> nat \<Rightarrow> ('s \<times> 'p list) option" where
  "alloc_many alloc s 0 = Some (s, [])"
| "alloc_many alloc s (Suc n) =
     (case alloc s of None \<Rightarrow> None
      | Some (s1, p) \<Rightarrow>
          (case alloc_many alloc s1 n of None \<Rightarrow> None | Some (s2, ps) \<Rightarrow> Some (s2, p # ps)))"

locale page_source =
  fixes alloc :: "'s \<Rightarrow> ('s \<times> 'p) option"
    and avail :: "'s \<Rightarrow> 'p set"
    and inv :: "'s \<Rightarrow> bool"
  assumes alloc_takes: "inv s \<Longrightarrow> alloc s = Some (s', p) \<Longrightarrow> inv s' \<and> p \<in> avail s \<and> avail s' = avail s - {p}"
    and alloc_stops: "inv s \<Longrightarrow> alloc s = None \<Longrightarrow> avail s = {}"
begin

lemma alloc_many_takes:
  assumes "inv s" "alloc_many alloc s n = Some (s', ps)"
  shows "inv s' \<and> length ps = n \<and> distinct ps \<and> set ps \<subseteq> avail s \<and> avail s' = avail s - set ps"
  using assms
proof (induction n arbitrary: s ps)
  case 0
  then show ?case by simp
next
  case (Suc n)
  then obtain s1 p ps1 where a: "alloc s = Some (s1, p)" "alloc_many alloc s1 n = Some (s', ps1)"
    "ps = p # ps1" by (auto split: option.splits)
  from alloc_takes[OF Suc.prems(1) a(1)] Suc.IH[OF _ a(2)] a(3) show ?case by auto
qed

lemma alloc_many_succeeds:
  assumes "inv s" "finite (avail s)" "n \<le> card (avail s)"
  shows "alloc_many alloc s n \<noteq> None"
  using assms
proof (induction n arbitrary: s)
  case 0
  then show ?case by simp
next
  case (Suc n)
  then have "avail s \<noteq> {}" by auto
  with alloc_stops[OF Suc.prems(1)] obtain s1 p where a: "alloc s = Some (s1, p)" by fastforce
  from alloc_takes[OF Suc.prems(1) a] Suc.prems(2,3) have "inv s1" "finite (avail s1)" "n \<le> card (avail s1)"
    by auto
  from Suc.IH[OF this] a show ?case by auto
qed

end

end
