(* ===== verification/Handles.thy ===== *)
theory Handles
  imports Interfaces
begin

text \<open>
  Capabilities (\<open>object/handle.rs\<close>): rights masks, object types, the common
  object base with its reference count, handles, and the per-process handle
  table.  Raw pointers are 64-bit addresses into an explicit store of object
  bases; the null pointer is 0.  The global handle counter and the store form
  the \<open>hworld\<close> that the operations thread.
\<close>

unbundle bit_operations_syntax

section \<open>Rights\<close>

type_synonym rights = u32

definition RIGHT_NONE :: rights where "RIGHT_NONE = 0x00"
definition RIGHT_READ :: rights where "RIGHT_READ = 0x01"
definition RIGHT_WRITE :: rights where "RIGHT_WRITE = 0x02"
definition RIGHT_EXECUTE :: rights where "RIGHT_EXECUTE = 0x04"
definition RIGHT_SIGNAL :: rights where "RIGHT_SIGNAL = 0x08"
definition RIGHT_WAIT :: rights where "RIGHT_WAIT = 0x08"
definition RIGHT_MAP :: rights where "RIGHT_MAP = 0x10"
definition RIGHT_DUPLICATE :: rights where "RIGHT_DUPLICATE = 0x20"
definition RIGHT_TRANSFER :: rights where "RIGHT_TRANSFER = 0x40"
definition RIGHT_MANAGE :: rights where "RIGHT_MANAGE = 0x80"
definition RIGHT_APPLY_PROFILE :: rights where "RIGHT_APPLY_PROFILE = 0x100"
definition RIGHT_BASIC :: rights where "RIGHT_BASIC = 0x03"
definition RIGHT_DEFAULT :: rights where "RIGHT_DEFAULT = 0x1F"
definition RIGHT_SAME_RIGHTS :: rights where "RIGHT_SAME_RIGHTS = 0x80000000"

lemmas right_consts =
  RIGHT_NONE_def RIGHT_READ_def RIGHT_WRITE_def RIGHT_EXECUTE_def RIGHT_SIGNAL_def
  RIGHT_WAIT_def RIGHT_MAP_def RIGHT_DUPLICATE_def RIGHT_TRANSFER_def RIGHT_MANAGE_def
  RIGHT_APPLY_PROFILE_def RIGHT_BASIC_def RIGHT_DEFAULT_def RIGHT_SAME_RIGHTS_def

definition rights_contains :: "rights \<Rightarrow> rights \<Rightarrow> bool" where
  "rights_contains r q \<longleftrightarrow> (r AND q) = q"

definition rights_contains_any :: "rights \<Rightarrow> rights \<Rightarrow> bool" where
  "rights_contains_any r q \<longleftrightarrow> (r AND q) \<noteq> 0"

definition rights_require :: "rights \<Rightarrow> rights \<Rightarrow> unit result" where
  "rights_require r q = (if rights_contains r q then Inr () else Inl ''access denied'')"

definition rights_reduce :: "rights \<Rightarrow> rights \<Rightarrow> rights" where
  "rights_reduce r msk = r AND msk"

definition rights_add :: "rights \<Rightarrow> rights \<Rightarrow> rights" where
  "rights_add r q = r OR q"

definition rights_remove :: "rights \<Rightarrow> rights \<Rightarrow> rights" where
  "rights_remove r q = r AND NOT q"

definition rights_is_none :: "rights \<Rightarrow> bool" where
  "rights_is_none r \<longleftrightarrow> r = 0"

section \<open>Object types\<close>

datatype ObjectType = Unknown | ProcessT | ThreadT | VmoT | VmarT | ChannelT | EventT
  | EventPairT | TimerT | JobT | PortT | ProfileT

definition ObjectType_from_raw :: "u32 \<Rightarrow> ObjectType" where
  "ObjectType_from_raw raw =
     (if raw = 1 then ProcessT else if raw = 2 then ThreadT else if raw = 3 then VmoT
      else if raw = 4 then VmarT else if raw = 5 then ChannelT else if raw = 6 then EventT
      else if raw = 7 then EventPairT else if raw = 8 then TimerT else if raw = 9 then JobT
      else if raw = 10 then PortT else if raw = 11 then ProfileT else Unknown)"

fun ObjectType_into_raw :: "ObjectType \<Rightarrow> u32" where
  "ObjectType_into_raw Unknown = 0"
| "ObjectType_into_raw ProcessT = 1"
| "ObjectType_into_raw ThreadT = 2"
| "ObjectType_into_raw VmoT = 3"
| "ObjectType_into_raw VmarT = 4"
| "ObjectType_into_raw ChannelT = 5"
| "ObjectType_into_raw EventT = 6"
| "ObjectType_into_raw EventPairT = 7"
| "ObjectType_into_raw TimerT = 8"
| "ObjectType_into_raw JobT = 9"
| "ObjectType_into_raw PortT = 10"
| "ObjectType_into_raw ProfileT = 11"

fun ObjectType_name :: "ObjectType \<Rightarrow> string" where
  "ObjectType_name Unknown = ''unknown''"
| "ObjectType_name ProcessT = ''process''"
| "ObjectType_name ThreadT = ''thread''"
| "ObjectType_name VmoT = ''vmo''"
| "ObjectType_name VmarT = ''vmar''"
| "ObjectType_name ChannelT = ''channel''"
| "ObjectType_name EventT = ''event''"
| "ObjectType_name EventPairT = ''eventpair''"
| "ObjectType_name TimerT = ''timer''"
| "ObjectType_name JobT = ''job''"
| "ObjectType_name PortT = ''port''"
| "ObjectType_name ProfileT = ''profile''"

fun default_for_type :: "ObjectType \<Rightarrow> rights" where
  "default_for_type ProcessT = RIGHT_MANAGE"
| "default_for_type ThreadT = RIGHT_MANAGE"
| "default_for_type VmoT = RIGHT_DEFAULT"
| "default_for_type VmarT = RIGHT_MAP OR RIGHT_READ OR RIGHT_WRITE"
| "default_for_type ChannelT = RIGHT_READ OR RIGHT_WRITE"
| "default_for_type EventT = RIGHT_SIGNAL OR RIGHT_WAIT"
| "default_for_type EventPairT = RIGHT_SIGNAL OR RIGHT_WAIT"
| "default_for_type TimerT = RIGHT_SIGNAL OR RIGHT_WRITE"
| "default_for_type JobT = RIGHT_MANAGE"
| "default_for_type PortT = RIGHT_READ OR RIGHT_WRITE"
| "default_for_type ProfileT = RIGHT_READ"
| "default_for_type Unknown = RIGHT_NONE"

section \<open>Object base and store\<close>

record KernelObjectBase =
  obj_type :: ObjectType
  ref_count :: u64
  destroying :: bool

definition KernelObjectBase_new :: "ObjectType \<Rightarrow> KernelObjectBase" where
  "KernelObjectBase_new ty = \<lparr>obj_type = ty, ref_count = 1, destroying = False\<rparr>"

text \<open>\<open>fetch_add\<close> and \<open>fetch_sub\<close> wrap at the width of \<open>usize\<close>.\<close>

definition base_ref_inc :: "KernelObjectBase \<Rightarrow> KernelObjectBase" where
  "base_ref_inc b = b\<lparr>ref_count := ref_count b + 1\<rparr>"

definition base_ref_dec :: "KernelObjectBase \<Rightarrow> KernelObjectBase \<times> bool" where
  "base_ref_dec b = (b\<lparr>ref_count := ref_count b - 1\<rparr>, ref_count b = 1)"

definition base_mark_destroying :: "KernelObjectBase \<Rightarrow> KernelObjectBase" where
  "base_mark_destroying b = b\<lparr>destroying := True\<rparr>"

record hworld =
  objects :: "u64 \<Rightarrow> KernelObjectBase option"
  next_handle_id :: u64

definition alloc_handle_id :: "hworld \<Rightarrow> hworld \<times> u64" where
  "alloc_handle_id w = (w\<lparr>next_handle_id := next_handle_id w + 1\<rparr>, next_handle_id w)"

text \<open>
  \<open>(*base).ref_inc()\<close> and \<open>(*base).ref_dec()\<close> through a raw pointer.  A dangling
  pointer is undefined behaviour in the source; the store is then left alone
  here, and the accounting theorems speak about allocated objects only.
\<close>

definition ref_inc_at :: "u64 \<Rightarrow> hworld \<Rightarrow> hworld" where
  "ref_inc_at p w = (case objects w p of None \<Rightarrow> w
     | Some b \<Rightarrow> w\<lparr>objects := (objects w)(p \<mapsto> base_ref_inc b)\<rparr>)"

definition ref_dec_at :: "u64 \<Rightarrow> hworld \<Rightarrow> hworld \<times> bool" where
  "ref_dec_at p w = (case objects w p of None \<Rightarrow> (w, False)
     | Some b \<Rightarrow> (w\<lparr>objects := (objects w)(p \<mapsto> fst (base_ref_dec b))\<rparr>, snd (base_ref_dec b)))"

section \<open>Handles\<close>

record Handle =
  h_id :: u64
  h_base :: u64
  h_rights :: rights

definition Handle_new :: "hworld \<Rightarrow> u64 \<Rightarrow> rights \<Rightarrow> hworld \<times> Handle" where
  "Handle_new w base r = (let (w', i) = alloc_handle_id w in (w', \<lparr>h_id = i, h_base = base, h_rights = r\<rparr>))"

definition Handle_clone :: "hworld \<Rightarrow> Handle \<Rightarrow> hworld \<times> Handle" where
  "Handle_clone w h =
     (let (w', i) = alloc_handle_id w in (w', \<lparr>h_id = i, h_base = h_base h, h_rights = h_rights h\<rparr>))"

definition Handle_with_id :: "u64 \<Rightarrow> u64 \<Rightarrow> rights \<Rightarrow> Handle" where
  "Handle_with_id i base r = \<lparr>h_id = i, h_base = base, h_rights = r\<rparr>"

definition Handle_obj_type :: "hworld \<Rightarrow> Handle \<Rightarrow> ObjectType" where
  "Handle_obj_type w h =
     (if h_base h = 0 then Unknown
      else case objects w (h_base h) of None \<Rightarrow> Unknown | Some b \<Rightarrow> obj_type b)"

definition Handle_is_valid :: "Handle \<Rightarrow> bool" where
  "Handle_is_valid h \<longleftrightarrow> h_base h \<noteq> 0 \<and> \<not> rights_is_none (h_rights h)"

definition Handle_require :: "Handle \<Rightarrow> rights \<Rightarrow> unit result" where
  "Handle_require h q =
     (if \<not> Handle_is_valid h then Inl ''invalid handle'' else rights_require (h_rights h) q)"

definition Handle_has_right :: "Handle \<Rightarrow> rights \<Rightarrow> bool" where
  "Handle_has_right h q \<longleftrightarrow> Handle_is_valid h \<and> rights_contains (h_rights h) q"

definition Handle_object_type :: "hworld \<Rightarrow> Handle \<Rightarrow> ObjectType" where
  "Handle_object_type w h =
     (if \<not> Handle_is_valid h then Unknown else Handle_obj_type w h)"

definition Handle_duplicate :: "hworld \<Rightarrow> Handle \<Rightarrow> hworld \<times> Handle result" where
  "Handle_duplicate w h =
     (if \<not> Handle_is_valid h then (w, Inl ''invalid handle'')
      else case Handle_require h RIGHT_DUPLICATE of
        Inl e \<Rightarrow> (w, Inl e)
      | Inr _ \<Rightarrow>
          (let w1 = (if h_base h \<noteq> 0 then ref_inc_at (h_base h) w else w);
               (w2, i) = alloc_handle_id w1
           in (w2, Inr (Handle_with_id i (h_base h) (h_rights h)))))"

definition Handle_duplicate_with_mask :: "hworld \<Rightarrow> Handle \<Rightarrow> rights \<Rightarrow> hworld \<times> Handle result" where
  "Handle_duplicate_with_mask w h msk =
     (if \<not> Handle_is_valid h then (w, Inl ''invalid handle'')
      else case Handle_require h RIGHT_DUPLICATE of
        Inl e \<Rightarrow> (w, Inl e)
      | Inr _ \<Rightarrow>
          (let new_rights = (if rights_contains msk RIGHT_SAME_RIGHTS then h_rights h
                             else rights_reduce (h_rights h) msk);
               w1 = (if h_base h \<noteq> 0 then ref_inc_at (h_base h) w else w);
               (w2, i) = alloc_handle_id w1
           in (w2, Inr (Handle_with_id i (h_base h) new_rights))))"

definition Handle_close :: "hworld \<Rightarrow> Handle \<Rightarrow> hworld \<times> bool" where
  "Handle_close w h = (if h_base h = 0 then (w, False) else ref_dec_at (h_base h) w)"

text \<open>
  \<open>HandleOwner\<close>: a wrapper whose \<open>drop\<close> closes the handle and whose \<open>take\<close>
  forgets the wrapper, so that the handle is not closed.
\<close>

record HandleOwner =
  owned :: Handle

definition HandleOwner_new :: "hworld \<Rightarrow> u64 \<Rightarrow> rights \<Rightarrow> hworld \<times> HandleOwner" where
  "HandleOwner_new w base r = (let (w', h) = Handle_new w base r in (w', \<lparr>owned = h\<rparr>))"

definition HandleOwner_take :: "HandleOwner \<Rightarrow> Handle" where
  "HandleOwner_take own = owned own"

definition HandleOwner_drop :: "hworld \<Rightarrow> HandleOwner \<Rightarrow> hworld" where
  "HandleOwner_drop w own = fst (Handle_close w (owned own))"

section \<open>The handle table\<close>

definition MAX_HANDLES :: nat where "MAX_HANDLES = 256"

record HandleEntry =
  e_id :: u64
  e_base :: u64
  e_rights :: rights

record HandleTable =
  slots :: "HandleEntry option list"
  ht_count :: nat

definition HandleTable_new :: HandleTable where
  "HandleTable_new = \<lparr>slots = replicate MAX_HANDLES None, ht_count = 0\<rparr>"

definition entry_of :: "Handle \<Rightarrow> HandleEntry" where
  "entry_of h = \<lparr>e_id = h_id h, e_base = h_base h, e_rights = h_rights h\<rparr>"

definition handle_of :: "HandleEntry \<Rightarrow> Handle" where
  "handle_of e = \<lparr>h_id = e_id e, h_base = e_base e, h_rights = e_rights e\<rparr>"

definition HandleTable_add :: "HandleTable \<Rightarrow> Handle \<Rightarrow> HandleTable \<times> u32 result" where
  "HandleTable_add t h =
     (case find_index (\<lambda>s. s = None) (slots t) of
        None \<Rightarrow> (t, Inl ''handle table full'')
      | Some i \<Rightarrow> (t\<lparr>slots := (slots t)[i := Some (entry_of h)], ht_count := ht_count t + 1\<rparr>,
                   Inr (of_nat i)))"

definition HandleTable_get :: "HandleTable \<Rightarrow> u32 \<Rightarrow> Handle option" where
  "HandleTable_get t v =
     (if unat v \<ge> MAX_HANDLES then None else map_option handle_of (slots t ! unat v))"

definition HandleTable_remove ::
  "hworld \<Rightarrow> HandleTable \<Rightarrow> u32 \<Rightarrow> hworld \<times> HandleTable \<times> bool result" where
  "HandleTable_remove w t v =
     (if unat v \<ge> MAX_HANDLES then (w, t, Inl ''invalid handle value'')
      else case slots t ! unat v of
        None \<Rightarrow> (w, t, Inr False)
      | Some e \<Rightarrow>
          (let t' = t\<lparr>slots := (slots t)[unat v := None], ht_count := ht_count t - 1\<rparr>;
               w' = (if e_base e \<noteq> 0 then fst (ref_dec_at (e_base e) w) else w)
           in (w', t', Inr True)))"

text \<open>The slot array is indexed without a range check: an index of 256 or more panics.\<close>

definition HandleTable_duplicate ::
  "hworld \<Rightarrow> HandleTable \<Rightarrow> u32 \<Rightarrow> rights \<Rightarrow> (hworld \<times> HandleTable \<times> u32 result) outcome" where
  "HandleTable_duplicate w t v msk =
     (if unat v \<ge> MAX_HANDLES then Panic ''index out of bounds''
      else case slots t ! unat v of
        None \<Rightarrow> Return (w, t, Inl ''handle not found'')
      | Some e \<Rightarrow>
          if \<not> rights_contains (e_rights e) RIGHT_DUPLICATE
          then Return (w, t, Inl ''duplicate right not held'')
          else
            (let new_rights = (if rights_contains msk RIGHT_SAME_RIGHTS then e_rights e
                               else rights_reduce (e_rights e) msk);
                 w1 = (if e_base e \<noteq> 0 then ref_inc_at (e_base e) w else w);
                 (w2, i) = alloc_handle_id w1;
                 (t', r) = HandleTable_add t \<lparr>h_id = i, h_base = e_base e, h_rights = new_rights\<rparr>
             in Return (w2, t', r)))"

definition HandleTable_is_full :: "HandleTable \<Rightarrow> bool" where
  "HandleTable_is_full t \<longleftrightarrow> ht_count t \<ge> MAX_HANDLES"

section \<open>Invariant, references and the step relation\<close>

definition ht_inv :: "HandleTable \<Rightarrow> bool" where
  "ht_inv t \<longleftrightarrow> length (slots t) = MAX_HANDLES \<and> ht_count t = occupied (slots t)"

definition slot_refs :: "HandleTable \<Rightarrow> u64 \<Rightarrow> nat" where
  "slot_refs t b = length (filter (\<lambda>s. map_option e_base s = Some b) (slots t))"

text \<open>The references to an object that are not held by the table's slots.\<close>

definition outside_refs :: "hworld \<Rightarrow> HandleTable \<Rightarrow> u64 \<Rightarrow> u64" where
  "outside_refs w t b =
     (case objects w b of None \<Rightarrow> 0 | Some x \<Rightarrow> ref_count x) - of_nat (slot_refs t b)"

definition table_authority :: "HandleTable \<Rightarrow> (u64 \<times> rights) set" where
  "table_authority t = {(e_base e, e_rights e) | e. Some e \<in> set (slots t)}"

datatype table_op = TAdd Handle | TRemove u32 | TDuplicate u32 rights

inductive ht_step :: "hworld \<times> HandleTable \<Rightarrow> table_op \<Rightarrow> hworld \<times> HandleTable \<Rightarrow> bool" where
  step_add: "HandleTable_add t h = (t', r) \<Longrightarrow> ht_step (w, t) (TAdd h) (w, t')"
| step_remove: "HandleTable_remove w t v = (w', t', r) \<Longrightarrow> ht_step (w, t) (TRemove v) (w', t')"
| step_duplicate: "HandleTable_duplicate w t v m = Return (w', t', r) \<Longrightarrow>
     ht_step (w, t) (TDuplicate v m) (w', t')"

inductive ht_steps :: "hworld \<times> HandleTable \<Rightarrow> table_op list \<Rightarrow> hworld \<times> HandleTable \<Rightarrow> bool" where
  steps_none: "ht_steps s [] s"
| steps_more: "ht_step s op s1 \<Longrightarrow> ht_steps s1 ops s2 \<Longrightarrow> ht_steps s (op # ops) s2"

inductive_cases ht_step_addE: "ht_step (w, t) (TAdd h) s'"
inductive_cases ht_step_removeE: "ht_step (w, t) (TRemove v) s'"
inductive_cases ht_step_duplicateE: "ht_step (w, t) (TDuplicate v m) s'"

section \<open>Facts about rights\<close>

lemma rights_contains_refl [simp, rights_simps]: "rights_contains r r"
  by (simp add: rights_contains_def)

lemma rights_contains_iff_bits [rights_simps]:
  "rights_contains r q \<longleftrightarrow> (\<forall>n. bit q n \<longrightarrow> bit r n)"
  unfolding rights_contains_def by (metis bit_and_iff bit_word_eqI)

lemma rights_contains_trans:
  "rights_contains a b \<Longrightarrow> rights_contains b c \<Longrightarrow> rights_contains a c"
  by (simp add: rights_contains_iff_bits)

lemma rights_contains_reduce [simp, rights_simps]: "rights_contains r (rights_reduce r m)"
  by (simp add: rights_contains_iff_bits rights_reduce_def bit_and_iff)

lemma rights_remove_disjoint: "rights_contains_any (rights_remove r q) q = False"
  by (simp add: rights_contains_any_def rights_remove_def and.assoc)

lemma rights_add_least:
  "rights_contains m (rights_add r q) \<longleftrightarrow> rights_contains m r \<and> rights_contains m q"
  by (auto simp: rights_contains_iff_bits rights_add_def bit_or_iff)

lemma ObjectType_raw_roundtrip: "ObjectType_from_raw (ObjectType_into_raw ty) = ty"
  by (cases ty) (simp_all add: ObjectType_from_raw_def)

section \<open>Facts about the table\<close>

lemma ht_inv_new: "ht_inv HandleTable_new"
  by (simp add: ht_inv_def HandleTable_new_def)

lemma handle_of_entry_of [simp]: "handle_of (entry_of h) = h"
  by (simp add: handle_of_def entry_of_def)

lemma HandleTable_add_cases:
  assumes "ht_inv t" "HandleTable_add t h = (t', r)"
  obtains (full) "occupied (slots t) = MAX_HANDLES" "t' = t" "r = Inl ''handle table full''"
  | (free) i where "i < MAX_HANDLES" "slots t ! i = None" "\<forall>j < i. slots t ! j \<noteq> None"
      "t' = t\<lparr>slots := (slots t)[i := Some (entry_of h)], ht_count := ht_count t + 1\<rparr>"
      "r = Inr (of_nat i)"
proof (cases "find_index (\<lambda>s. s = None) (slots t)")
  case None
  then have "occupied (slots t) = length (slots t)" by (simp only: occupied_full_iff)
  with None assms show ?thesis by (intro full) (auto simp: HandleTable_add_def ht_inv_def)
next
  case (Some i)
  with find_index_SomeD[OF Some] assms show ?thesis
    by (intro free[of i]) (auto simp: HandleTable_add_def ht_inv_def)
qed

lemma ht_index_unat [simp]: "i < MAX_HANDLES \<Longrightarrow> unat (of_nat i :: u32) = i"
  by (simp add: MAX_HANDLES_def unat_of_nat)

lemma HandleTable_add_inv: "ht_inv t \<Longrightarrow> HandleTable_add t h = (t', r) \<Longrightarrow> ht_inv t'"
  by (cases rule: HandleTable_add_cases, assumption+) (auto simp: ht_inv_def slot_simps)

lemma HandleTable_remove_cases:
  assumes "HandleTable_remove w t v = (w', t', r)"
  obtains (out_of_range) "unat v \<ge> MAX_HANDLES" "w' = w" "t' = t" "r = Inl ''invalid handle value''"
  | (empty) "unat v < MAX_HANDLES" "slots t ! unat v = None" "w' = w" "t' = t" "r = Inr False"
  | (closed) e where "unat v < MAX_HANDLES" "slots t ! unat v = Some e" "r = Inr True"
      "t' = t\<lparr>slots := (slots t)[unat v := None], ht_count := ht_count t - 1\<rparr>"
      "w' = (if e_base e \<noteq> 0 then fst (ref_dec_at (e_base e) w) else w)"
  using assms by (auto simp: HandleTable_remove_def Let_def split: if_splits option.splits)

lemma HandleTable_remove_inv:
  assumes "ht_inv t" "HandleTable_remove w t v = (w', t', r)"
  shows "ht_inv t'"
  using assms(2)
proof (cases rule: HandleTable_remove_cases)
  case (closed e)
  with assms(1) occupied_update_None[of "unat v" "slots t"] show ?thesis
    by (simp add: ht_inv_def)
qed (use assms(1) in simp_all)

lemma HandleTable_duplicate_cases:
  assumes "HandleTable_duplicate w t v m = Return (w', t', r)"
  obtains (missing) "slots t ! unat v = None" "w' = w" "t' = t" "r = Inl ''handle not found''"
  | (denied) e where "slots t ! unat v = Some e" "\<not> rights_contains (e_rights e) RIGHT_DUPLICATE"
      "w' = w" "t' = t" "r = Inl ''duplicate right not held''"
  | (added) e nr w1 where "unat v < MAX_HANDLES" "slots t ! unat v = Some e"
      "rights_contains (e_rights e) RIGHT_DUPLICATE" "rights_contains (e_rights e) nr"
      "nr = (if rights_contains m RIGHT_SAME_RIGHTS then e_rights e else rights_reduce (e_rights e) m)"
      "w1 = (if e_base e \<noteq> 0 then ref_inc_at (e_base e) w else w)"
      "w' = fst (alloc_handle_id w1)"
      "HandleTable_add t \<lparr>h_id = snd (alloc_handle_id w1), h_base = e_base e, h_rights = nr\<rparr> = (t', r)"
  using assms
  by (fastforce simp: HandleTable_duplicate_def Let_def split: if_splits option.splits prod.splits)

lemma HandleTable_duplicate_inv:
  "ht_inv t \<Longrightarrow> HandleTable_duplicate w t v m = Return (w', t', r) \<Longrightarrow> ht_inv t'"
  by (erule HandleTable_duplicate_cases) (auto intro: HandleTable_add_inv)

lemma ht_step_inv: "ht_step s op s' \<Longrightarrow> ht_inv (snd s) \<Longrightarrow> ht_inv (snd s')"
  by (induction rule: ht_step.induct)
    (auto intro: HandleTable_add_inv HandleTable_remove_inv HandleTable_duplicate_inv)

lemma slot_refs_update_Some:
  assumes "i < length (slots t)" "slots t ! i = None"
  shows "slot_refs (t\<lparr>slots := (slots t)[i := Some e], ht_count := c\<rparr>) b
       = slot_refs t b + (if e_base e = b then 1 else 0)"
proof -
  have "length (filter (\<lambda>s. map_option e_base s = Some b) (xs[i := Some e]))
      = length (filter (\<lambda>s. map_option e_base s = Some b) xs) + (if e_base e = b then 1 else 0)"
    if "i < length xs" "xs ! i = None" for xs i
    using that
  proof (induction xs arbitrary: i)
    case (Cons x xs)
    then show ?case by (cases i) auto
  qed simp
  with assms show ?thesis by (simp add: slot_refs_def)
qed

lemma slot_refs_update_None:
  assumes "i < length (slots t)" "slots t ! i = Some e"
  shows "slot_refs t b
       = slot_refs (t\<lparr>slots := (slots t)[i := None], ht_count := c\<rparr>) b + (if e_base e = b then 1 else 0)"
proof -
  have "length (filter (\<lambda>s. map_option e_base s = Some b) xs)
      = length (filter (\<lambda>s. map_option e_base s = Some b) (xs[i := None])) + (if e_base e = b then 1 else 0)"
    if "i < length xs" "xs ! i = Some e" for xs i
    using that
  proof (induction xs arbitrary: i)
    case (Cons x xs)
    then show ?case by (cases i) auto
  qed simp
  with assms show ?thesis by (simp add: slot_refs_def)
qed

lemma HandleTable_add_slot_refs:
  assumes "ht_inv t" "HandleTable_add t h = (t', r)"
  shows "slot_refs t' b = slot_refs t b + (if isl r \<or> h_base h \<noteq> b then 0 else 1)"
  using assms
proof (cases rule: HandleTable_add_cases)
  case (free i)
  with assms(1) show ?thesis
    by (simp add: slot_refs_update_Some ht_inv_def entry_of_def)
qed simp

lemma ref_inc_at_count:
  "objects w b \<noteq> None \<Longrightarrow> objects (ref_inc_at p w) b \<noteq> None \<and>
   ref_count (the (objects (ref_inc_at p w) b)) = ref_count (the (objects w b)) + (if p = b then 1 else 0)"
  by (auto simp: ref_inc_at_def base_ref_inc_def split: option.splits)

lemma ref_dec_at_count:
  "objects w b \<noteq> None \<Longrightarrow> objects (fst (ref_dec_at p w)) b \<noteq> None \<and>
   ref_count (the (objects (fst (ref_dec_at p w)) b)) = ref_count (the (objects w b)) - (if p = b then 1 else 0)"
  by (auto simp: ref_dec_at_def base_ref_dec_def split: option.splits)

lemma objects_alloc_handle_id [simp]: "objects (fst (alloc_handle_id w)) = objects w"
  by (simp add: alloc_handle_id_def)

lemma outside_refs_the:
  "objects w b \<noteq> None \<Longrightarrow> outside_refs w t b = ref_count (the (objects w b)) - of_nat (slot_refs t b)"
  by (auto simp: outside_refs_def)

lemma remove_outside_refs:
  assumes "ht_inv t" "HandleTable_remove w t v = (w', t', r)" "objects w b \<noteq> None" "b \<noteq> 0"
  shows "objects w' b \<noteq> None \<and> outside_refs w' t' b = outside_refs w t b"
  using assms(2)
proof (cases rule: HandleTable_remove_cases)
  case (closed e)
  have refs: "slot_refs t b = slot_refs t' b + (if e_base e = b then 1 else 0)"
    using slot_refs_update_None[of "unat v" t e b "ht_count t - 1"] closed assms(1)
    by (simp add: ht_inv_def)
  show ?thesis
  proof (cases "e_base e = 0")
    case True
    with closed refs assms(3,4) show ?thesis by (auto simp: outside_refs_def)
  next
    case False
    with closed ref_dec_at_count[OF assms(3), of "e_base e"] refs assms(3) show ?thesis
      by (auto simp: outside_refs_the)
  qed
qed (use assms in simp_all)

lemma duplicate_outside_refs:
  assumes "ht_inv t" "HandleTable_duplicate w t v m = Return (w', t', r)" "objects w b \<noteq> None" "b \<noteq> 0"
  shows "objects w' b \<noteq> None \<and> outside_refs w' t' b = outside_refs w t b +
     (if r = Inl ''handle table full'' \<and> map_option e_base (slots t ! unat v) = Some b then 1 else 0)"
  using assms(2)
proof (cases rule: HandleTable_duplicate_cases)
  case (added e nr w1)
  have w1: "objects w1 b \<noteq> None \<and>
      ref_count (the (objects w1 b)) = ref_count (the (objects w b)) + (if e_base e = b then 1 else 0)"
    using ref_inc_at_count[OF assms(3), of "e_base e"] assms(3,4) added(6) by (cases "e_base e = 0") auto
  note refs = HandleTable_add_slot_refs[OF assms(1) added(8), of b]
  have full: "isl r \<longleftrightarrow> r = Inl ''handle table full''"
    using assms(1) added(8) by (cases rule: HandleTable_add_cases) auto
  have "objects w' b \<noteq> None" using w1 added(7) by simp
  with w1 refs full added(2,7) assms(3) show ?thesis
    by (simp add: outside_refs_the)
qed (use assms in auto)

lemma add_authority:
  assumes "ht_inv t" "HandleTable_add t h = (t', r)"
  shows "table_authority t' \<subseteq> insert (h_base h, h_rights h) (table_authority t)"
  using assms
proof (cases rule: HandleTable_add_cases)
  case (free i)
  then show ?thesis
    using set_update_subset_insert[of "slots t" i "Some (entry_of h)"]
    by (auto simp: table_authority_def entry_of_def)
qed auto

definition dominates :: "(u64 \<times> rights) set \<Rightarrow> (u64 \<times> rights) set \<Rightarrow> bool" where
  "dominates A B \<longleftrightarrow> (\<forall>(b, q) \<in> B. \<exists>r. (b, r) \<in> A \<and> rights_contains r q)"

lemma dominates_refl: "dominates A A"
  by (auto simp: dominates_def)

lemma dominates_mono: "dominates A B \<Longrightarrow> A \<subseteq> A' \<Longrightarrow> B' \<subseteq> B \<Longrightarrow> dominates A' B'"
  unfolding dominates_def by blast

lemma dominates_trans: "dominates A B \<Longrightarrow> dominates B C \<Longrightarrow> dominates A C"
  unfolding dominates_def by (fast intro: rights_contains_trans)

lemma dominates_insert:
  "dominates A (insert (b, q) B) \<longleftrightarrow> (\<exists>r. (b, r) \<in> A \<and> rights_contains r q) \<and> dominates A B"
  by (auto simp: dominates_def)

lemma dominates_un: "dominates A B \<Longrightarrow> dominates (A \<union> C) (B \<union> C)"
  unfolding dominates_def by (auto intro: rights_contains_refl)

fun op_authority :: "table_op \<Rightarrow> (u64 \<times> rights) set" where
  "op_authority (TAdd h) = {(h_base h, h_rights h)}"
| "op_authority (TRemove v) = {}"
| "op_authority (TDuplicate v m) = {}"

lemma step_authority:
  assumes "ht_step s op s'" "ht_inv (snd s)"
  shows "dominates (table_authority (snd s) \<union> op_authority op) (table_authority (snd s'))"
  using assms
proof (induction rule: ht_step.induct)
  case (step_add t h t' r w)
  then have "ht_inv t" by simp
  from add_authority[OF this step_add.hyps] show ?case
    by (intro dominates_mono[OF dominates_refl]) auto
next
  case (step_remove w t v w' t' r)
  from step_remove.hyps show ?case
  proof (cases rule: HandleTable_remove_cases)
    case (closed e)
    then have "table_authority t' \<subseteq> table_authority t"
      using set_update_subset_insert[of "slots t" "unat v" None] by (auto simp: table_authority_def)
    then show ?thesis by (intro dominates_mono[OF dominates_refl]) auto
  qed (simp_all add: dominates_refl)
next
  case (step_duplicate w t v m w' t' r)
  then have inv: "ht_inv t" by simp
  from step_duplicate.hyps show ?case
  proof (cases rule: HandleTable_duplicate_cases)
    case (added e nr w1)
    have "Some e \<in> set (slots t)"
      using added(1,2) inv by (metis ht_inv_def nth_mem)
    then have "(e_base e, e_rights e) \<in> table_authority t" by (auto simp: table_authority_def)
    then have "dominates (table_authority t) (insert (e_base e, nr) (table_authority t))"
      using added(4) by (auto simp: dominates_insert dominates_refl)
    with add_authority[OF inv added(8)] show ?thesis
      by (auto intro: dominates_mono)
  qed (simp_all add: dominates_refl)
qed

lemma steps_authority:
  assumes "ht_steps s ops s'" "ht_inv (snd s)"
  shows "ht_inv (snd s') \<and>
    dominates (table_authority (snd s) \<union> (\<Union>op \<in> set ops. op_authority op)) (table_authority (snd s'))"
  using assms
proof (induction rule: ht_steps.induct)
  case (steps_none s)
  then show ?case by (simp add: dominates_refl)
next
  case (steps_more s op s1 ops s2)
  note inv1 = ht_step_inv[OF steps_more.hyps(1) steps_more.prems]
  note IH = steps_more.IH[OF inv1]
  let ?R = "\<Union>op \<in> set ops. op_authority op"
  from step_authority[OF steps_more.hyps(1) steps_more.prems]
  have "dominates (table_authority (snd s) \<union> op_authority op \<union> ?R) (table_authority (snd s1) \<union> ?R)"
    by (rule dominates_un)
  with IH have "dominates (table_authority (snd s) \<union> op_authority op \<union> ?R) (table_authority (snd s2))"
    by (blast intro: dominates_trans)
  with IH show ?case by (simp add: Un_assoc)
qed

section \<open>The table as a slot table\<close>

definition ht_put :: "HandleTable \<Rightarrow> Handle \<Rightarrow> (HandleTable \<times> u32) option" where
  "ht_put t h = (case HandleTable_add t h of (t', Inr v) \<Rightarrow> Some (t', v) | (t', Inl e) \<Rightarrow> None)"

definition ht_del :: "hworld \<Rightarrow> HandleTable \<Rightarrow> u32 \<Rightarrow> HandleTable" where
  "ht_del w t v = fst (snd (HandleTable_remove w t v))"

lemma ht_put_SomeD:
  assumes "ht_inv t" "ht_put t h = Some (t', v)"
  shows "\<exists>i < MAX_HANDLES. v = of_nat i \<and> slots t ! i = None \<and> (\<forall>j < i. slots t ! j \<noteq> None) \<and>
    slots t' = (slots t)[i := Some (entry_of h)] \<and> HandleTable_add t h = (t', Inr v)"
proof -
  from assms(2) have "HandleTable_add t h = (t', Inr v)"
    by (auto simp: ht_put_def split: prod.splits sum.splits)
  from assms(1) this show ?thesis by (cases rule: HandleTable_add_cases) (use \<open>_ = (t', Inr v)\<close> in auto)
qed

lemma HandleTable_get_update:
  assumes "ht_inv t" "i < MAX_HANDLES" "slots t' = (slots t)[i := x]"
  shows "HandleTable_get t' v = (if v = of_nat i then map_option handle_of x else HandleTable_get t v)"
proof (cases "v = of_nat i")
  case True
  with assms show ?thesis by (simp add: HandleTable_get_def ht_inv_def)
next
  case False
  then have "unat v \<noteq> i" by auto
  with assms False show ?thesis by (simp add: HandleTable_get_def)
qed

lemma ht_del_slots:
  assumes "ht_inv t" "HandleTable_get t v \<noteq> None"
  shows "ht_inv (ht_del w t v)"
    and "slots (ht_del w t v) = (slots t)[unat v := None]"
    and "unat v < MAX_HANDLES"
proof -
  obtain w' t' r where r: "HandleTable_remove w t v = (w', t', r)" by (metis prod_cases3)
  from HandleTable_remove_inv[OF assms(1) r] r show "ht_inv (ht_del w t v)" by (simp add: ht_del_def)
  from r assms(2) show "slots (ht_del w t v) = (slots t)[unat v := None]" "unat v < MAX_HANDLES"
    by (auto simp: ht_del_def HandleTable_get_def HandleTable_remove_def Let_def
        split: if_splits option.splits)
qed

interpretation handle_slots: slot_table HandleTable_get ht_put "ht_del w" ht_inv for w
proof (unfold_locales, goal_cases)
  case (1 t e t' i)
  from ht_put_SomeD[OF 1] show ?case by (auto simp: HandleTable_get_def)
next
  case (2 t e t' i j)
  from ht_put_SomeD[OF 2] HandleTable_get_update[OF 2(1)] show ?case by fastforce
next
  case (3 t e t' i)
  from ht_put_SomeD[OF 3] 3(1) show ?case by (blast intro: HandleTable_add_inv)
next
  case (4 t i j)
  from HandleTable_get_update[OF 4(1) ht_del_slots(3)[OF 4] ht_del_slots(2)[OF 4, of w]]
  show ?case by simp
next
  case (5 t i)
  then show ?case by (rule ht_del_slots(1))
qed

text \<open>A concrete table for the examples: one memory object, held with read, write and duplicate rights.\<close>

definition sample_world :: hworld where
  "sample_world = \<lparr>objects = [0x1000 \<mapsto> KernelObjectBase_new VmoT], next_handle_id = 7\<rparr>"

definition sample_table :: HandleTable where
  "sample_table = \<lparr>slots = Some \<lparr>e_id = 6, e_base = 0x1000, e_rights = 0x23\<rparr> # replicate 255 None,
                   ht_count = 1\<rparr>"

definition full_table :: HandleTable where
  "full_table = \<lparr>slots = replicate 256 (Some \<lparr>e_id = 6, e_base = 0x1000, e_rights = 0x23\<rparr>),
                 ht_count = 256\<rparr>"

lemma ht_inv_sample: "ht_inv sample_table" "ht_inv full_table"
  by (simp_all add: ht_inv_def sample_table_def full_table_def MAX_HANDLES_def occupied_def)

section \<open>Properties\<close>

text \<open>
  Claim C1 (handle confinement): along any sequence of table operations (add,
  remove, duplicate with any mask), every entry of the final table carries
  rights that are contained in the rights of an entry of the initial table, or
  of a handle added on the way, for the same object.  No sequence of
  duplications amplifies rights or moves them to another object.
\<close>

theorem handle_confinement:
  assumes "ht_inv t" "ht_steps (w, t) ops (w', t')" "Some e \<in> set (slots t')"
  shows "\<exists>r. ((e_base e, r) \<in> table_authority t \<or>
              (\<exists>h. TAdd h \<in> set ops \<and> h_base h = e_base e \<and> h_rights h = r)) \<and>
             rights_contains r (e_rights e)"
proof -
  let ?A = "table_authority t \<union> (\<Union>op \<in> set ops. op_authority op)"
  have "(e_base e, e_rights e) \<in> table_authority t'" using assms(3) by (auto simp: table_authority_def)
  with steps_authority[OF assms(2)] assms(1)
  obtain r where r: "(e_base e, r) \<in> ?A" "rights_contains r (e_rights e)"
    by (fastforce simp: dominates_def)
  have "(b, q) \<in> op_authority op \<Longrightarrow> \<exists>h. op = TAdd h \<and> h_base h = b \<and> h_rights h = q" for b q op
    by (cases op) auto
  with r show ?thesis by fastforce
qed

theorem handle_confinement_witness:
  "ht_inv sample_table \<and>
   (\<exists>w' t' e. ht_steps (sample_world, sample_table) [TDuplicate 0 0x21] (w', t') \<and>
      Some e \<in> set (slots t') \<and> e_id e = 7 \<and> e_rights e = 0x21 \<and>
      (\<exists>r. ((e_base e, r) \<in> table_authority sample_table \<or>
            (\<exists>h. TAdd h \<in> set [TDuplicate 0 0x21] \<and> h_base h = e_base e \<and> h_rights h = r)) \<and>
           rights_contains r (e_rights e)))"
proof -
  let ?e = "\<lparr>e_id = 7, e_base = 0x1000, e_rights = 0x21\<rparr>"
  obtain w' t' where d: "HandleTable_duplicate sample_world sample_table 0 0x21 = Return (w', t', Inr 1)"
    and e: "Some ?e \<in> set (slots t')"
    by (simp add: HandleTable_duplicate_def sample_table_def sample_world_def MAX_HANDLES_def
        rights_contains_def rights_reduce_def right_consts ref_inc_at_def KernelObjectBase_new_def
        base_ref_inc_def alloc_handle_id_def HandleTable_add_def entry_of_def set_update_memI)
  have steps: "ht_steps (sample_world, sample_table) [TDuplicate 0 0x21] (w', t')"
    by (rule steps_more[OF step_duplicate[OF d] steps_none])
  from handle_confinement[OF ht_inv_sample(1) steps e] steps e ht_inv_sample(1) show ?thesis
    by (intro conjI exI[of _ w'] exI[of _ t'] exI[of _ ?e]) auto
qed

text \<open>
  Claim C2 (reference accounting): a duplication keeps the number of references
  held outside the table, except that a duplication refused because the table
  is full has already incremented the count of the duplicated object and never
  gives the reference back; a removal keeps it for every object.
\<close>

theorem handle_reference_accounting:
  assumes "ht_inv t" "objects w b \<noteq> None" "b \<noteq> 0"
  shows "(\<forall>w' t' r. HandleTable_duplicate w t v m = Return (w', t', r) \<longrightarrow>
           outside_refs w' t' b = outside_refs w t b +
           (if r = Inl ''handle table full'' \<and> map_option e_base (slots t ! unat v) = Some b
            then 1 else 0)) \<and>
         (\<forall>w' t' r. HandleTable_remove w t v = (w', t', r) \<longrightarrow>
           outside_refs w' t' b = outside_refs w t b)"
  using duplicate_outside_refs[OF assms(1) _ assms(2,3)] remove_outside_refs[OF assms(1) _ assms(2,3)]
  by blast

theorem handle_reference_accounting_witness:
  "ht_inv full_table \<and> objects sample_world 0x1000 \<noteq> None \<and>
   (\<exists>w'. HandleTable_duplicate sample_world full_table 3 0x21
            = Return (w', full_table, Inl ''handle table full'') \<and>
         outside_refs w' full_table 0x1000 = outside_refs sample_world full_table 0x1000 + 1)"
proof -
  have some: "objects sample_world 0x1000 \<noteq> None" by (simp add: sample_world_def)
  obtain w' where d: "HandleTable_duplicate sample_world full_table 3 0x21
      = Return (w', full_table, Inl ''handle table full'')"
    by (simp add: HandleTable_duplicate_def full_table_def sample_world_def MAX_HANDLES_def
        rights_contains_def rights_reduce_def right_consts ref_inc_at_def KernelObjectBase_new_def
        base_ref_inc_def alloc_handle_id_def HandleTable_add_def entry_of_def)
  have "map_option e_base (slots full_table ! unat (3 :: u32)) = Some 0x1000"
    by (simp add: full_table_def)
  with handle_reference_accounting[OF ht_inv_sample(2) some, of 3 "0x21"] d some ht_inv_sample(2)
  show ?thesis by auto
qed

text \<open>
  Claim C3 (table contract): adding a list of handles to a well-formed table
  gives them distinct values that were free before; each value then reads back
  the handle it was given for, all other values read as before, and removing
  the last handle added makes the table read as it did without it.
\<close>

theorem handle_table_contract:
  assumes "ht_inv t" "put_many ht_put t hs = Some (t', vs)"
  shows "ht_inv t' \<and> distinct vs \<and> length vs = length hs \<and>
     (\<forall>k < length hs. HandleTable_get t (vs ! k) = None \<and> HandleTable_get t' (vs ! k) = Some (hs ! k)) \<and>
     (\<forall>v. v \<notin> set vs \<longrightarrow> HandleTable_get t' v = HandleTable_get t v) \<and>
     (\<forall>h t2 v j. ht_put t' h = Some (t2, v) \<longrightarrow>
        HandleTable_get (fst (snd (HandleTable_remove w t2 v))) j = HandleTable_get t' j)"
  using handle_slots.put_many_contract[OF assms]
    handle_slots.del_put_cancel[of t' _ _ _ w, unfolded ht_del_def] by blast

theorem handle_table_contract_witness:
  "\<exists>t'. put_many ht_put HandleTable_new
       [\<lparr>h_id = 1, h_base = 16, h_rights = 3\<rparr>, \<lparr>h_id = 2, h_base = 32, h_rights = 1\<rparr>] = Some (t', [0, 1]) \<and>
     ht_inv t' \<and> HandleTable_get t' 1 = Some \<lparr>h_id = 2, h_base = 32, h_rights = 1\<rparr>"
proof -
  let ?hs = "[\<lparr>h_id = 1, h_base = 16, h_rights = 3\<rparr>, \<lparr>h_id = 2, h_base = 32, h_rights = 1\<rparr>]"
  have "replicate 256 None = None # None # replicate 254 None" for None :: "HandleEntry option"
    by (simp add: replicate_app_Cons_same numeral_eq_Suc)
  then have new: "HandleTable_new = \<lparr>slots = None # None # replicate 254 None, ht_count = 0\<rparr>"
    by (simp add: HandleTable_new_def MAX_HANDLES_def)
  obtain t' where p: "put_many ht_put HandleTable_new ?hs = Some (t', [0, 1])"
    by (simp add: ht_put_def HandleTable_add_def new)
  from handle_table_contract[OF ht_inv_new p] have "ht_inv t'"
    "\<forall>k < length ?hs. HandleTable_get t' ([0, 1] ! k) = Some (?hs ! k)" by blast+
  with p show ?thesis by (intro exI[of _ t']) (auto dest: spec[of _ "Suc 0"])
qed

end
