(* ===== verification/Run_Queue.thy ===== *)
theory Run_Queue
  imports Interfaces
begin

text \<open>
  Thread states, priorities and the run queue (\<open>sched/state.rs\<close>): five
  circular buffers of 64 entries, one per priority, with running head and tail
  counters that are reduced modulo 64 on access.
\<close>

section \<open>Data\<close>

datatype ThreadState = Ready | Running | Blocked | Terminated | Sleeping | BlockedOnMutex | BlockedOnCondvar

datatype ThreadPriority = Idle | Low | Normal | High | Realtime

fun prio_index :: "ThreadPriority \<Rightarrow> nat" where
  "prio_index Idle = 0"
| "prio_index Low = 1"
| "prio_index Normal = 2"
| "prio_index High = 3"
| "prio_index Realtime = 4"

record RunQueueEntry =
  rq_thread_id :: u64
  rq_priority :: ThreadPriority
  rq_time_slice :: u64

record RunQueue =
  queues :: "RunQueueEntry list list"
  heads :: "nat list"
  tails :: "nat list"
  counts :: "nat list"
  rq_total :: nat

definition EMPTY_ENTRY :: RunQueueEntry where
  "EMPTY_ENTRY = \<lparr>rq_thread_id = 0, rq_priority = Idle, rq_time_slice = 0\<rparr>"

definition MAX_PER_PRIORITY :: nat where "MAX_PER_PRIORITY = 64"

section \<open>Operations\<close>

definition RunQueue_new :: RunQueue where
  "RunQueue_new =
     \<lparr>queues = replicate 5 (replicate MAX_PER_PRIORITY EMPTY_ENTRY), heads = replicate 5 0,
      tails = replicate 5 0, counts = replicate 5 0, rq_total = 0\<rparr>"

definition rq_enqueue :: "RunQueue \<Rightarrow> RunQueueEntry \<Rightarrow> RunQueue" where
  "rq_enqueue q entry =
     (let p = prio_index (rq_priority entry) in
      if p \<ge> length (queues q) then q
      else let tail = tails q ! p in
        if counts q ! p < MAX_PER_PRIORITY
        then q\<lparr>queues := (queues q)[p := (queues q ! p)[tail mod MAX_PER_PRIORITY := entry]],
               tails := (tails q)[p := tail + 1],
               counts := (counts q)[p := counts q ! p + 1],
               rq_total := rq_total q + 1\<rparr>
        else q)"

text \<open>The loop \<open>for i in (0..5).rev()\<close>; the argument counts the levels still to be tried.\<close>

fun rq_dequeue_from :: "nat \<Rightarrow> RunQueue \<Rightarrow> RunQueue \<times> RunQueueEntry option" where
  "rq_dequeue_from 0 q = (q, None)"
| "rq_dequeue_from (Suc i) q =
     (if counts q ! i > 0 then
        let head = heads q ! i; entry = queues q ! i ! (head mod MAX_PER_PRIORITY) in
        (q\<lparr>heads := (heads q)[i := head + 1], counts := (counts q)[i := counts q ! i - 1],
           rq_total := rq_total q - 1\<rparr>, Some entry)
      else rq_dequeue_from i q)"

definition rq_dequeue :: "RunQueue \<Rightarrow> RunQueue \<times> RunQueueEntry option" where
  "rq_dequeue q = rq_dequeue_from 5 q"

definition rq_is_empty :: "RunQueue \<Rightarrow> bool" where
  "rq_is_empty q \<longleftrightarrow> rq_total q = 0"

definition rq_shift :: "RunQueueEntry list \<Rightarrow> nat \<Rightarrow> nat \<Rightarrow> nat \<Rightarrow> RunQueueEntry list" where
  "rq_shift buf head i count =
     fold (\<lambda>j b. b[(head + j) mod MAX_PER_PRIORITY := b ! ((head + j + 1) mod MAX_PER_PRIORITY)])
       [i..<count - 1] buf"

text \<open>The loop \<open>for priority_idx in 0..5\<close>; \<open>n\<close> levels remain, starting at \<open>5 - n\<close>.\<close>

fun rq_remove_from :: "nat \<Rightarrow> RunQueue \<Rightarrow> u64 \<Rightarrow> RunQueue \<times> bool" where
  "rq_remove_from 0 q tid = (q, False)"
| "rq_remove_from (Suc n) q tid =
     (let p = 5 - Suc n; count = counts q ! p in
      if count = 0 then rq_remove_from n q tid
      else let head = heads q ! p in
        case find_index (\<lambda>i. rq_thread_id (queues q ! p ! ((head + i) mod MAX_PER_PRIORITY)) = tid) [0..<count] of
          None \<Rightarrow> rq_remove_from n q tid
        | Some i \<Rightarrow>
            (q\<lparr>queues := (queues q)[p := rq_shift (queues q ! p) head i count],
               tails := (tails q)[p := tails q ! p - 1],
               counts := (counts q)[p := count - 1],
               rq_total := rq_total q - 1\<rparr>, True))"

definition rq_remove :: "RunQueue \<Rightarrow> u64 \<Rightarrow> RunQueue \<times> bool" where
  "rq_remove q tid = rq_remove_from 5 q tid"

section \<open>Abstraction and invariant\<close>

definition level :: "RunQueue \<Rightarrow> nat \<Rightarrow> RunQueueEntry list" where
  "level q p = ring_list (queues q ! p) 64 (heads q ! p) (counts q ! p)"

definition rq_shape :: "RunQueue \<Rightarrow> bool" where
  "rq_shape q \<longleftrightarrow> length (queues q) = 5 \<and> length (heads q) = 5 \<and> length (tails q) = 5 \<and> length (counts q) = 5 \<and>
     (\<forall>p < 5. length (queues q ! p) = 64 \<and> counts q ! p \<le> 64 \<and> tails q ! p = heads q ! p + counts q ! p) \<and>
     rq_total q = sum_list (counts q)"

definition rq_inv :: "RunQueue \<Rightarrow> bool" where
  "rq_inv q \<longleftrightarrow> rq_shape q \<and> (\<forall>p < 5. \<forall>e \<in> set (level q p). prio_index (rq_priority e) = p)"

text \<open>The queue a dispatcher sees: the entries of the highest level first.\<close>

definition rq_order :: "RunQueue \<Rightarrow> RunQueueEntry list" where
  "rq_order q = level q 4 @ level q 3 @ level q 2 @ level q 1 @ level q 0"

section \<open>Facts\<close>

lemma prio_index_less [simp]: "prio_index p < 5"
  by (cases p) simp_all

lemma prio_index_inj: "prio_index p = prio_index r \<longleftrightarrow> p = r"
  by (cases p; cases r) simp_all

text \<open>Priorities are ordered as their discriminants, which index the levels.\<close>

instantiation ThreadPriority :: linorder
begin

definition less_eq_ThreadPriority :: "ThreadPriority \<Rightarrow> ThreadPriority \<Rightarrow> bool" where
  "less_eq_ThreadPriority p r \<longleftrightarrow> prio_index p \<le> prio_index r"

definition less_ThreadPriority :: "ThreadPriority \<Rightarrow> ThreadPriority \<Rightarrow> bool" where
  "less_ThreadPriority p r \<longleftrightarrow> prio_index p < prio_index r"

instance
  by standard (auto simp: less_eq_ThreadPriority_def less_ThreadPriority_def prio_index_inj)

end

lemma rq_inv_new: "rq_inv RunQueue_new"
  by (auto simp: rq_inv_def rq_shape_def RunQueue_new_def level_def MAX_PER_PRIORITY_def sum_list_replicate)

lemma rq_order_sorted:
  assumes "rq_inv q"
  shows "sorted_wrt (\<lambda>x y. rq_priority y \<le> rq_priority x) (rq_order q)"
proof -
  have p: "prio_index (rq_priority e) = n" if "e \<in> set (level q n)" "n < 5" for e n
    using assms that by (auto simp: rq_inv_def)
  have "sorted_wrt (\<lambda>x y. rq_priority y \<le> rq_priority x) (level q n)" if "n < 5" for n
    using that p[OF nth_mem] by (auto simp: sorted_wrt_iff_nth_less less_eq_ThreadPriority_def)
  then show ?thesis by (auto simp: rq_order_def sorted_wrt_append less_eq_ThreadPriority_def dest!: p)
qed

lemma length_level [simp]: "length (level q p) = counts q ! p"
  by (simp add: level_def)

lemma sum_list_update_Suc:
  "p < length xs \<Longrightarrow> sum_list (xs[p := Suc (xs ! p)]) = Suc (sum_list xs)"
proof (induction xs arbitrary: p)
  case (Cons x xs)
  then show ?case by (cases p) auto
qed simp

lemma sum_list_update_pred:
  "p < length xs \<Longrightarrow> 0 < xs ! p \<Longrightarrow> sum_list (xs[p := xs ! p - Suc 0]) = sum_list xs - Suc 0 \<and> 0 < sum_list xs"
proof (induction xs arbitrary: p)
  case (Cons x xs)
  show ?case
  proof (cases p)
    case (Suc r)
    with Cons.IH[of r] Cons.prems have "sum_list (xs[r := xs ! r - Suc 0]) = sum_list xs - Suc 0" "0 < sum_list xs"
      by auto
    with Suc show ?thesis by simp
  qed (use Cons.prems in auto)
qed simp

lemma rq_enqueue_level:
  fixes e :: RunQueueEntry
  assumes "rq_inv q"
  defines "p \<equiv> prio_index (rq_priority e)"
  shows "rq_inv (rq_enqueue q e)"
    and "level (rq_enqueue q e) r =
      (if r = p \<and> length (level q p) < 64 then level q p @ [e] else level q r)"
proof -
  have sh: "rq_shape q" and p5: "p < 5" using assms(1) by (simp_all add: rq_inv_def p_def)
  have lens: "length (queues q) = 5" "length (heads q) = 5" "length (tails q) = 5" "length (counts q) = 5"
    "length (queues q ! p) = 64" "tails q ! p = heads q ! p + counts q ! p"
    using sh p5 by (simp_all add: rq_shape_def)
  show lev: "level (rq_enqueue q e) r =
      (if r = p \<and> length (level q p) < 64 then level q p @ [e] else level q r)" for r
  proof (cases "counts q ! p < 64")
    case True
    then have "rq_enqueue q e = q\<lparr>queues := (queues q)[p := (queues q ! p)[(heads q ! p + counts q ! p) mod 64 := e]],
        tails := (tails q)[p := tails q ! p + 1], counts := (counts q)[p := counts q ! p + 1],
        rq_total := rq_total q + 1\<rparr>"
      using lens p5 by (simp add: rq_enqueue_def Let_def p_def[symmetric] MAX_PER_PRIORITY_def)
    then show ?thesis
      using True lens p5 ring_list_snoc[of "queues q ! p" 64 "counts q ! p" "heads q ! p" e]
      by (simp add: level_def nth_list_update)
  next
    case False
    then have "rq_enqueue q e = q" by (simp add: rq_enqueue_def Let_def p_def[symmetric] MAX_PER_PRIORITY_def)
    with False show ?thesis by simp
  qed
  have "rq_shape (rq_enqueue q e)"
    using sh p5 sum_list_update_Suc[of p "counts q"]
    by (auto simp: rq_shape_def rq_enqueue_def Let_def p_def[symmetric] MAX_PER_PRIORITY_def nth_list_update)
  then show "rq_inv (rq_enqueue q e)"
    using assms(1) by (auto simp: rq_inv_def lev p_def split: if_splits)
qed

lemma rq_dequeue_from_level:
  assumes "rq_inv q" "n \<le> 5"
  shows "(\<exists>q' e p. rq_dequeue_from n q = (q', Some e) \<and> p < n \<and> level q p = e # level q' p \<and>
            (\<forall>r. r < n \<and> p < r \<longrightarrow> level q r = []) \<and> (\<forall>r. r \<noteq> p \<longrightarrow> level q' r = level q r) \<and> rq_inv q')
       \<or> (rq_dequeue_from n q = (q, None) \<and> (\<forall>r < n. level q r = []))"
  using assms(2)
proof (induction n)
  case 0
  then show ?case by simp
next
  case (Suc i)
  have sh: "rq_shape q" using assms(1) by (simp add: rq_inv_def)
  show ?case
  proof (cases "counts q ! i > 0")
    case False
    then have "level q i = []" by (simp add: level_def)
    moreover have "rq_dequeue_from (Suc i) q = rq_dequeue_from i q" using False by simp
    moreover from Suc have
      "(\<exists>q' e p. rq_dequeue_from i q = (q', Some e) \<and> p < i \<and> level q p = e # level q' p \<and>
            (\<forall>r. r < i \<and> p < r \<longrightarrow> level q r = []) \<and> (\<forall>r. r \<noteq> p \<longrightarrow> level q' r = level q r) \<and> rq_inv q')
       \<or> (rq_dequeue_from i q = (q, None) \<and> (\<forall>r < i. level q r = []))" by simp
    ultimately show ?thesis
    proof (elim disjE exE conjE, goal_cases)
      case (1 q' e p)
      then show ?case
        by (intro disjI1 exI[of _ q'] exI[of _ e] exI[of _ p]) (auto simp: less_Suc_eq)
    qed (auto simp: less_Suc_eq)
  next
    case True
    define q' where "q' = q\<lparr>heads := (heads q)[i := heads q ! i + 1],
       counts := (counts q)[i := counts q ! i - 1], rq_total := rq_total q - 1\<rparr>"
    define e where "e = queues q ! i ! (heads q ! i mod 64)"
    have run: "rq_dequeue_from (Suc i) q = (q', Some e)"
      using True by (simp add: Let_def q'_def e_def MAX_PER_PRIORITY_def)
    have l5: "length (heads q) = 5" "length (counts q) = 5" "i < 5" using sh Suc.prems by (simp_all add: rq_shape_def)
    have lev: "level q i = e # level q' i" "r \<noteq> i \<Longrightarrow> level q' r = level q r" for r
      using True l5 ring_list_Cons[OF True, of "queues q ! i" 64 "heads q ! i"]
      by (auto simp: level_def q'_def e_def nth_list_update)
    have "rq_shape q'"
      using sh True l5 sum_list_update_pred[of i "counts q"]
      by (auto simp: rq_shape_def q'_def nth_list_update)
    moreover have "set (level q' r) \<subseteq> set (level q r)" for r using lev by (cases "r = i") auto
    ultimately have "rq_inv q'" using assms(1) by (auto simp: rq_inv_def)
    with run lev show ?thesis by (intro disjI1 exI[of _ q'] exI[of _ e] exI[of _ i]) auto
  qed
qed

lemma rq_dequeue_order:
  assumes "rq_inv q"
  shows "case rq_order q of
      [] \<Rightarrow> rq_dequeue q = (q, None)
    | e # es \<Rightarrow> (\<exists>q'. rq_dequeue q = (q', Some e) \<and> rq_order q' = es \<and> rq_inv q')"
proof -
  have five: "r < (5 :: nat) \<longleftrightarrow> r = 0 \<or> r = 1 \<or> r = 2 \<or> r = 3 \<or> r = 4" for r by auto
  from rq_dequeue_from_level[OF assms order_refl] show ?thesis
  proof (elim disjE exE conjE, goal_cases)
    case (1 q' e p)
    then have "p = 0 \<or> p = 1 \<or> p = 2 \<or> p = 3 \<or> p = 4" using five by blast
    with 1 have "rq_order q = e # rq_order q'"
      by (elim disjE) (simp_all add: rq_order_def)
    with 1 show ?case by (simp add: rq_dequeue_def)
  next
    case 2
    then show ?case by (simp add: rq_dequeue_def rq_order_def)
  qed
qed

section \<open>Removal\<close>

lemma ring_shift:
  assumes "length buf = 64" "c \<le> 64"
  shows "m < c \<Longrightarrow>
    length (fold (\<lambda>j b. b[(h + j) mod 64 := b ! (Suc (h + j) mod 64)]) [i..<m] buf) = 64 \<and>
    ring_list (fold (\<lambda>j b. b[(h + j) mod 64 := b ! (Suc (h + j) mod 64)]) [i..<m] buf) 64 h c
      = fold (\<lambda>j ys. ys[j := ys ! Suc j]) [i..<m] (ring_list buf 64 h c)"
proof (induction m)
  case 0
  then show ?case using assms by simp
next
  case (Suc m)
  define b where "b = fold (\<lambda>j b. b[(h + j) mod 64 := b ! (Suc (h + j) mod 64)]) [i..<m] buf"
  from Suc have b: "length b = 64" "ring_list b 64 h c = fold (\<lambda>j ys. ys[j := ys ! Suc j]) [i..<m] (ring_list buf 64 h c)"
    by (simp_all add: b_def)
  have "ring_list (b[(h + m) mod 64 := b ! (Suc (h + m) mod 64)]) 64 h c
      = (ring_list b 64 h c)[m := ring_list b 64 h c ! Suc m]"
    using ring_list_update[OF b(1), of m c h "b ! (Suc (h + m) mod 64)"] Suc.prems assms(2) by simp
  then show ?case using b Suc.prems by (cases "i \<le> m") (simp_all add: b_def[symmetric] assms)
qed

lemma rq_shift_level:
  fixes h :: nat
  assumes "length buf = 64" "c \<le> 64" "i < c"
  defines "xs \<equiv> ring_list buf 64 h c"
  shows "length (rq_shift buf h i c) = 64"
    and "ring_list (rq_shift buf h i c) 64 h (c - 1) = take i xs @ drop (Suc i) xs"
proof -
  have m: "c - 1 < c" using assms(3) by simp
  note r = ring_shift[OF assms(1,2) m, of h i]
  show "length (rq_shift buf h i c) = 64" using r by (simp add: rq_shift_def MAX_PER_PRIORITY_def)
  have len: "length xs = c" by (simp add: xs_def)
  have "ring_list (rq_shift buf h i c) 64 h c = take i xs @ take (c - 1 - i) (drop (Suc i) xs) @ drop (c - 1) xs"
    using r fold_shift_down[of i xs "c - 1"] assms(3) len by (simp add: rq_shift_def MAX_PER_PRIORITY_def xs_def)
  then have "take (c - 1) (ring_list (rq_shift buf h i c) 64 h c) = take i xs @ drop (Suc i) xs"
    using assms(3) len by simp
  then show "ring_list (rq_shift buf h i c) 64 h (c - 1) = take i xs @ drop (Suc i) xs"
    by (simp add: ring_list_take)
qed

definition level_ids :: "RunQueue \<Rightarrow> nat \<Rightarrow> u64 list" where
  "level_ids q p = map rq_thread_id (level q p)"

text \<open>Entry \<open>i\<close> of level \<open>p\<close> is the first with the given thread, among the levels from \<open>lo\<close> upwards, and is gone.\<close>

definition removed_at :: "RunQueue \<Rightarrow> RunQueue \<Rightarrow> u64 \<Rightarrow> nat \<Rightarrow> nat \<Rightarrow> nat \<Rightarrow> bool" where
  "removed_at q q' tid lo p i \<longleftrightarrow> lo \<le> p \<and> p < 5 \<and> i < length (level q p) \<and>
     rq_thread_id (level q p ! i) = tid \<and> (\<forall>j < i. rq_thread_id (level q p ! j) \<noteq> tid) \<and>
     level q' p = take i (level q p) @ drop (Suc i) (level q p) \<and>
     (\<forall>r. r \<noteq> p \<longrightarrow> level q' r = level q r) \<and>
     (\<forall>r. lo \<le> r \<and> r < p \<longrightarrow> tid \<notin> set (level_ids q r)) \<and> rq_inv q'"

lemma removed_at_lower:
  "removed_at q q' tid (Suc lo) p i \<Longrightarrow> tid \<notin> set (level_ids q lo) \<Longrightarrow> removed_at q q' tid lo p i"
  unfolding removed_at_def by (metis Suc_leD Suc_leI le_neq_implies_less)

lemma rq_remove_from_level:
  assumes "rq_inv q" "n \<le> 5"
  shows "(\<exists>q' p i. rq_remove_from n q tid = (q', True) \<and> removed_at q q' tid (5 - n) p i)
       \<or> (rq_remove_from n q tid = (q, False) \<and> (\<forall>r. 5 - n \<le> r \<and> r < 5 \<longrightarrow> tid \<notin> set (level_ids q r)))"
  using assms(2)
proof (induction n)
  case 0
  then show ?case by auto
next
  case (Suc n)
  have sh: "rq_shape q" using assms(1) by (simp add: rq_inv_def)
  define p where "p = 5 - Suc n"
  have p: "p < 5" "5 - n = Suc p" "5 - Suc n = p" using Suc.prems by (auto simp: p_def)
  let ?P = "\<lambda>i. rq_thread_id (queues q ! p ! ((heads q ! p + i) mod MAX_PER_PRIORITY)) = tid"
  have ids: "?P i \<longleftrightarrow> rq_thread_id (level q p ! i) = tid" if "i < counts q ! p" for i
    using that by (simp add: level_def MAX_PER_PRIORITY_def)
  show ?case
  proof (cases "find_index ?P [0..<counts q ! p]")
    case None
    then have "\<forall>i < counts q ! p. rq_thread_id (level q p ! i) \<noteq> tid"
      using ids by (auto simp: find_index_None_iff)
    then have low: "tid \<notin> set (level_ids q p)" by (auto simp: level_ids_def in_set_conv_nth)
    have run: "rq_remove_from (Suc n) q tid = rq_remove_from n q tid"
      by (simp only: rq_remove_from.simps Let_def p(3) None option.case if_cancel)
    from Suc.IH[OF Suc_leD[OF Suc.prems]] show ?thesis unfolding p run
    proof (elim disjE exE conjE, goal_cases)
      case (1 q' r i)
      with removed_at_lower[OF _ low] show ?case by blast
    next
      case 2
      with low show ?case by (metis Suc_leI le_neq_implies_less)
    qed
  next
    case (Some i)
    from find_index_SomeD[OF Some] have i: "i < counts q ! p" "?P i" "\<forall>j < i. \<not> ?P j" by auto
    define q' where "q' = q\<lparr>queues := (queues q)[p := rq_shift (queues q ! p) (heads q ! p) i (counts q ! p)],
       tails := (tails q)[p := tails q ! p - 1], counts := (counts q)[p := counts q ! p - 1],
       rq_total := rq_total q - 1\<rparr>"
    have run: "rq_remove_from (Suc n) q tid = (q', True)"
      using i(1) by (simp only: rq_remove_from.simps Let_def p(3) Some option.case q'_def) simp
    have lens: "length (queues q) = 5" "length (counts q) = 5" "length (tails q) = 5"
      "length (queues q ! p) = 64" "counts q ! p \<le> 64" using sh p(1) by (simp_all add: rq_shape_def)
    note shift = rq_shift_level[OF lens(4,5) i(1), of "heads q ! p"]
    have lev: "level q' p = take i (level q p) @ drop (Suc i) (level q p)" "r \<noteq> p \<Longrightarrow> level q' r = level q r" for r
      using shift lens p(1) by (auto simp: level_def q'_def nth_list_update)
    have "rq_shape q'"
      using sh p(1) i(1) shift(1) sum_list_update_pred[of p "counts q"]
      by (auto simp: rq_shape_def q'_def nth_list_update)
    moreover have "set (level q' r) \<subseteq> set (level q r)" for r
      using lev set_take_subset[of i "level q p"] set_drop_subset[of "Suc i" "level q p"] by (cases "r = p") auto
    ultimately have "rq_inv q'" using assms(1) by (fastforce simp: rq_inv_def)
    then have "removed_at q q' tid p p i"
      using lev i ids p(1) by (auto simp: removed_at_def)
    then show ?thesis unfolding p(3) using run by blast
  qed
qed

section \<open>One priority level as a bounded queue\<close>

text \<open>
  When every thread has the same priority, the run queue is used as one queue
  of threads with their time slices.
\<close>

definition level_enq :: "ThreadPriority \<Rightarrow> RunQueue \<Rightarrow> u64 \<times> u64 \<Rightarrow> RunQueue \<times> bool" where
  "level_enq p q x =
     (rq_enqueue q \<lparr>rq_thread_id = fst x, rq_priority = p, rq_time_slice = snd x\<rparr>,
      counts q ! prio_index p < MAX_PER_PRIORITY)"

definition level_deq :: "RunQueue \<Rightarrow> RunQueue \<times> (u64 \<times> u64) option" where
  "level_deq q = map_prod id (map_option (\<lambda>e. (rq_thread_id e, rq_time_slice e))) (rq_dequeue q)"

definition level_pairs :: "ThreadPriority \<Rightarrow> RunQueue \<Rightarrow> (u64 \<times> u64) list" where
  "level_pairs p q = map (\<lambda>e. (rq_thread_id e, rq_time_slice e)) (level q (prio_index p))"

definition only_level :: "ThreadPriority \<Rightarrow> RunQueue \<Rightarrow> bool" where
  "only_level p q \<longleftrightarrow> rq_inv q \<and> (\<forall>r < 5. r \<noteq> prio_index p \<longrightarrow> level q r = [])"

lemma only_level_order: "only_level p q \<Longrightarrow> rq_order q = level q (prio_index p)"
  by (cases p) (simp_all add: only_level_def rq_order_def)

lemma rq_order_levels:
  assumes "rq_order q' = es" "rq_order q = e # es" "only_level p q" "rq_inv q'" "rq_dequeue q = (q', Some e)"
  shows "only_level p q' \<and> level q' (prio_index p) = es"
proof -
  from rq_dequeue_from_level[of q 5] assms(3,5) obtain r where
    r: "r < 5" "level q r = e # level q' r" "\<forall>s. s \<noteq> r \<longrightarrow> level q' s = level q s"
    by (auto simp: rq_dequeue_def only_level_def)
  then have "r = prio_index p" using assms(3) by (auto simp: only_level_def)
  with r assms show ?thesis using only_level_order[OF assms(3)] by (auto simp: only_level_def)
qed

interpretation one_level: bounded_fifo "level_enq p" level_deq "level_pairs p" "only_level p" 64 for p
proof (unfold_locales, goal_cases)
  case (1 q x q' b)
  define e where "e = \<lparr>rq_thread_id = fst x, rq_priority = p, rq_time_slice = snd x\<rparr>"
  have inv: "rq_inv q" using 1(1) by (simp add: only_level_def)
  have q': "q' = rq_enqueue q e" "b \<longleftrightarrow> counts q ! prio_index p < 64"
    using 1(2) by (auto simp: level_enq_def e_def MAX_PER_PRIORITY_def)
  note lev = rq_enqueue_level[OF inv, of e, unfolded q'(1)[symmetric]]
  have "only_level p q'" using 1(1) lev by (simp add: only_level_def e_def)
  moreover have "spec_enq 64 (level_pairs p q) x = (level_pairs p q', b)"
    using lev(2)[of "prio_index p"] q'(2) by (simp add: spec_enq_def level_pairs_def e_def)
  ultimately show ?case ..
next
  case (2 q q' r)
  have inv: "rq_inv q" using 2(1) by (simp add: only_level_def)
  note ord = only_level_order[OF 2(1)]
  show ?case
  proof (cases "rq_order q")
    case Nil
    with rq_dequeue_order[OF inv] 2 ord show ?thesis
      by (simp add: level_deq_def level_pairs_def spec_deq_def)
  next
    case (Cons e es)
    with rq_dequeue_order[OF inv] obtain q1 where
      d: "rq_dequeue q = (q1, Some e)" "rq_order q1 = es" "rq_inv q1" by auto
    from rq_order_levels[OF d(2) Cons 2(1) d(3,1)] d(1) 2(2) Cons ord show ?thesis
      by (auto simp: level_deq_def level_pairs_def spec_deq_def)
  qed
qed

section \<open>Properties\<close>

text \<open>
  Claim C14 (dispatch order): on a well-formed run queue, enqueueing appends to
  the level of the entry's priority, or drops the entry silently when that
  level holds 64 entries; dequeueing returns the front entry of the highest
  non-empty level, whose priority no other entry exceeds, and removes just that
  entry; removing a thread deletes its
  first entry in the lowest level that has one and keeps the order of all
  others, and reports false exactly when no level has one.
\<close>

theorem run_queue_contract:
  assumes "rq_inv q"
  shows "rq_inv (rq_enqueue q e) \<and>
     (\<forall>p. level (rq_enqueue q e) p =
        (if p = prio_index (rq_priority e) \<and> length (level q p) < 64 then level q p @ [e] else level q p)) \<and>
     (case rq_order q of [] \<Rightarrow> rq_dequeue q = (q, None)
      | x # xs \<Rightarrow> (\<exists>q'. rq_dequeue q = (q', Some x) \<and> rq_order q' = xs \<and> rq_inv q') \<and>
          (\<forall>y \<in> set xs. rq_priority y \<le> rq_priority x)) \<and>
     ((\<exists>q' p i. rq_remove q tid = (q', True) \<and> removed_at q q' tid 0 p i) \<or>
      (rq_remove q tid = (q, False) \<and> (\<forall>p < 5. tid \<notin> set (level_ids q p))))"
proof (intro conjI)
  show "\<forall>p. level (rq_enqueue q e) p =
      (if p = prio_index (rq_priority e) \<and> length (level q p) < 64 then level q p @ [e] else level q p)"
    using rq_enqueue_level(2)[OF assms] by auto
  show "(\<exists>q' p i. rq_remove q tid = (q', True) \<and> removed_at q q' tid 0 p i) \<or>
      (rq_remove q tid = (q, False) \<and> (\<forall>p < 5. tid \<notin> set (level_ids q p)))"
    using rq_remove_from_level[OF assms order_refl] by (simp add: rq_remove_def)
  show "case rq_order q of [] \<Rightarrow> rq_dequeue q = (q, None)
      | x # xs \<Rightarrow> (\<exists>q'. rq_dequeue q = (q', Some x) \<and> rq_order q' = xs \<and> rq_inv q') \<and>
          (\<forall>y \<in> set xs. rq_priority y \<le> rq_priority x)"
    using rq_dequeue_order[OF assms] rq_order_sorted[OF assms] by (auto split: list.splits)
qed (use rq_enqueue_level(1)[OF assms] in auto)

theorem run_queue_contract_witness:
  "rq_inv RunQueue_new \<and>
   level (rq_enqueue RunQueue_new \<lparr>rq_thread_id = 9, rq_priority = High, rq_time_slice = 1\<rparr>) 3
     = [\<lparr>rq_thread_id = 9, rq_priority = High, rq_time_slice = 1\<rparr>]"
proof -
  have "level RunQueue_new 3 = []" "counts RunQueue_new ! 3 < 64"
    by (simp_all add: level_def RunQueue_new_def)
  with run_queue_contract[OF rq_inv_new, of "\<lparr>rq_thread_id = 9, rq_priority = High, rq_time_slice = 1\<rparr>" 9]
    rq_inv_new show ?thesis by simp
qed

text \<open>
  First come, first served at one priority: as long as only one
  priority is in use, any sequence of enqueue and dequeue operations behaves
  like a queue of at most 64 elements, output by output.
\<close>

lemma run_queue_fifo:
  assumes "only_level p q" "run_queue_ops (level_enq p) level_deq q ops = (q', outs)"
  shows "run_queue_ops (spec_enq 64) spec_deq (level_pairs p q) ops = (level_pairs p q', outs)"
  using one_level.run_refines[OF assms] by blast

lemma run_queue_fifo_witness:
  "\<exists>q'. run_queue_ops (level_enq Low) level_deq RunQueue_new [Enq (1, 10), Enq (2, 10), Deq]
         = (q', [Accepted True, Accepted True, Taken (Some (1, 10))]) \<and> level_pairs Low q' = [(2, 10)]"
proof -
  have "level RunQueue_new r = []" if "r < 5" for r using that by (simp add: level_def RunQueue_new_def)
  then have only: "only_level Low RunQueue_new" using rq_inv_new by (simp add: only_level_def)
  obtain q' outs where r: "run_queue_ops (level_enq Low) level_deq RunQueue_new [Enq (1, 10), Enq (2, 10), Deq] = (q', outs)"
    by fastforce
  from run_queue_fifo[OF only r] have "level_pairs Low q' = [(2, 10)]"
    "outs = [Accepted True, Accepted True, Taken (Some (1, 10))]"
    by (simp_all add: spec_enq_def spec_deq_def level_pairs_def level_def RunQueue_new_def)
  with r show ?thesis by blast
qed

end
