(* ===== verification/Sched.thy ===== *)
theory Sched
  imports Run_Queue
begin

text \<open>
  Threads (\<open>sched/thread.rs\<close>) and the priority scheduler
  (\<open>sched/scheduler.rs\<close>): thread creation with its initial stack frame, the
  thread table, and adding, removing, scheduling, yielding, blocking and waking
  threads over the run queue.  The thread-id counter, a static of the source,
  is threaded explicitly through the one operation that uses it.
\<close>

unbundle bit_operations_syntax

section \<open>Threads\<close>

record StackConfig =
  st_base :: u64
  st_size :: u64
  st_guard_size :: u64

definition StackConfig_new :: "u64 \<Rightarrow> u64 \<Rightarrow> StackConfig" where
  "StackConfig_new base sz = \<lparr>st_base = base, st_size = sz, st_guard_size = 4096\<rparr>"

definition StackConfig_top :: "StackConfig \<Rightarrow> u64" where
  "StackConfig_top s = st_base s + st_size s"

record SavedRegisters =
  r_rbx :: u64
  r_rbp :: u64
  r_r12 :: u64
  r_r13 :: u64
  r_r14 :: u64
  r_r15 :: u64
  r_rip :: u64
  r_rsp :: u64
  r_rbp_orig :: u64

definition SavedRegisters_default :: SavedRegisters where
  "SavedRegisters_default = \<lparr>r_rbx = 0, r_rbp = 0, r_r12 = 0, r_r13 = 0, r_r14 = 0, r_r15 = 0,
     r_rip = 0, r_rsp = 0, r_rbp_orig = 0\<rparr>"

record ThreadStats =
  cpu_time :: u64
  schedule_count :: u64
  voluntary_switches :: u64
  involuntary_switches :: u64

definition ThreadStats_default :: ThreadStats where
  "ThreadStats_default = \<lparr>cpu_time = 0, schedule_count = 0, voluntary_switches = 0, involuntary_switches = 0\<rparr>"

record Thread =
  th_id :: u64
  entry_point :: u64
  entry_arg :: u64
  th_state :: ThreadState
  th_priority :: ThreadPriority
  registers :: SavedRegisters
  stack :: StackConfig
  stats :: ThreadStats
  time_slice_remaining :: u64

text \<open>
  \<open>init_stack\<close>: the resulting registers, and the two words it stores through
  the stack pointer as pairs of address and value.
\<close>

definition Thread_init_stack :: "Thread \<Rightarrow> Thread \<times> (u64 \<times> u64) list" where
  "Thread_init_stack t =
     (let rsp0 = StackConfig_top (stack t) AND NOT 0xF;
          rsp1 = rsp0 - 8;
          rsp2 = rsp1 - 8
      in (t\<lparr>registers := (registers t)\<lparr>r_rsp := rsp2, r_rip := entry_point t\<rparr>\<rparr>,
          [(rsp1, entry_arg t), (rsp2, 0)]))"

definition Thread_new :: "u64 \<Rightarrow> u64 \<Rightarrow> u64 \<Rightarrow> StackConfig \<Rightarrow> Thread \<times> (u64 \<times> u64) list" where
  "Thread_new i ep arg st = Thread_init_stack
     \<lparr>th_id = i, entry_point = ep, entry_arg = arg, th_state = Ready, th_priority = Normal,
      registers = SavedRegisters_default, stack = st, stats = ThreadStats_default,
      time_slice_remaining = 0\<rparr>"

definition Thread_is_runnable :: "Thread \<Rightarrow> bool" where
  "Thread_is_runnable t \<longleftrightarrow> th_state t = Ready \<or> th_state t = Running"

definition Thread_set_state :: "ThreadState \<Rightarrow> Thread \<Rightarrow> Thread" where
  "Thread_set_state s t = t\<lparr>th_state := s\<rparr>"

definition Thread_set_priority :: "ThreadPriority \<Rightarrow> Thread \<Rightarrow> Thread" where
  "Thread_set_priority p t = t\<lparr>th_priority := p\<rparr>"

definition new_thread_id :: "u64 \<Rightarrow> u64 \<times> u64" where
  "new_thread_id counter = (counter + 1, counter)"

section \<open>The scheduler\<close>

definition DEFAULT_TIME_SLICE :: u64 where "DEFAULT_TIME_SLICE = 10000000"
definition MAX_THREADS :: nat where "MAX_THREADS = 1024"

datatype SchedulingPolicy = RoundRobin | Priority | Cfs

record Scheduler =
  run_queue :: RunQueue
  current_thread :: "u64 option"
  threads :: "Thread option list"
  thread_count :: nat
  policy :: SchedulingPolicy
  preemption_enabled :: bool

definition Scheduler_new :: Scheduler where
  "Scheduler_new = \<lparr>run_queue = RunQueue_new, current_thread = None,
     threads = replicate MAX_THREADS None, thread_count = 0, policy = RoundRobin, preemption_enabled = True\<rparr>"

definition slot_has :: "u64 \<Rightarrow> Thread option \<Rightarrow> bool" where
  "slot_has tid slot \<longleftrightarrow> (case slot of None \<Rightarrow> False | Some t \<Rightarrow> th_id t = tid)"

definition get_thread :: "Scheduler \<Rightarrow> u64 \<Rightarrow> Thread option" where
  "get_thread s tid =
     (case find_index (slot_has tid) (threads s) of None \<Rightarrow> None | Some i \<Rightarrow> threads s ! i)"

text \<open>A change made through \<open>get_thread_mut\<close>: nothing happens if there is no such thread.\<close>

definition with_thread_mut :: "Scheduler \<Rightarrow> u64 \<Rightarrow> (Thread \<Rightarrow> Thread) \<Rightarrow> Scheduler" where
  "with_thread_mut s tid f =
     (case find_index (slot_has tid) (threads s) of
        None \<Rightarrow> s
      | Some i \<Rightarrow> s\<lparr>threads := (threads s)[i := map_option f (threads s ! i)]\<rparr>)"

definition enqueue_thread :: "Scheduler \<Rightarrow> u64 \<Rightarrow> Scheduler" where
  "enqueue_thread s tid =
     (case get_thread s tid of
        None \<Rightarrow> s
      | Some t \<Rightarrow>
          if Thread_is_runnable t
          then s\<lparr>run_queue := rq_enqueue (run_queue s)
                   \<lparr>rq_thread_id = tid, rq_priority = th_priority t, rq_time_slice = DEFAULT_TIME_SLICE\<rparr>\<rparr>
          else s)"

definition add_thread :: "Scheduler \<Rightarrow> Thread \<Rightarrow> Scheduler \<times> unit result" where
  "add_thread s t =
     (if thread_count s \<ge> MAX_THREADS then (s, Inl ''Maximum number of threads reached'')
      else case find_index (\<lambda>x. x = None) (threads s) of
        None \<Rightarrow> (s, Inl ''No free thread slots available'')
      | Some i \<Rightarrow>
          (enqueue_thread (s\<lparr>threads := (threads s)[i := Some t], thread_count := thread_count s + 1\<rparr>) (th_id t),
           Inr ()))"

definition remove_thread :: "Scheduler \<Rightarrow> u64 \<Rightarrow> Scheduler \<times> Thread option" where
  "remove_thread s tid =
     (let s1 = s\<lparr>run_queue := fst (rq_remove (run_queue s) tid)\<rparr> in
      case find_index (slot_has tid) (threads s1) of
        None \<Rightarrow> (s1, None)
      | Some i \<Rightarrow>
          (s1\<lparr>threads := (threads s1)[i := None], thread_count := thread_count s1 - 1\<rparr>, threads s1 ! i))"

definition requeue_current :: "Scheduler \<Rightarrow> Scheduler" where
  "requeue_current s =
     (case current_thread s of
        None \<Rightarrow> s
      | Some cid \<Rightarrow>
          (case get_thread s cid of
             None \<Rightarrow> s
           | Some cur \<Rightarrow>
               if th_state cur = Running
               then let s1 = with_thread_mut s cid (Thread_set_state Ready)
                    in s1\<lparr>run_queue := rq_enqueue (run_queue s1)
                            \<lparr>rq_thread_id = cid, rq_priority = th_priority cur,
                             rq_time_slice = DEFAULT_TIME_SLICE\<rparr>\<rparr>
               else s))"

definition mark_running :: "u64 \<Rightarrow> Thread \<Rightarrow> Thread" where
  "mark_running ts t =
     t\<lparr>th_state := Running, stats := (stats t)\<lparr>schedule_count := schedule_count (stats t) + 1\<rparr>,
       time_slice_remaining := ts\<rparr>"

text \<open>
  \<open>schedule\<close>: \<open>idle_entry\<close> is the address of \<open>idle_thread_entry\<close>, which the
  linker chooses; \<open>counter\<close> is the thread-id counter.
\<close>

definition schedule :: "u64 \<Rightarrow> u64 \<Rightarrow> Scheduler \<Rightarrow> u64 \<times> Scheduler \<times> u64 option" where
  "schedule idle_entry counter s =
     (case rq_dequeue (run_queue s) of
        (q, Some entry) \<Rightarrow>
          (let s1 = requeue_current (s\<lparr>run_queue := q\<rparr>);
               s2 = with_thread_mut s1 (rq_thread_id entry) (mark_running (rq_time_slice entry))
           in (counter, s2\<lparr>current_thread := Some (rq_thread_id entry)\<rparr>, Some (rq_thread_id entry)))
      | (q, None) \<Rightarrow>
          (let s1 = s\<lparr>run_queue := q\<rparr> in
           if current_thread s1 \<noteq> None then (counter, s1, current_thread s1)
           else
             let (counter', idle_id) = new_thread_id counter;
                 idle_thread = fst (Thread_new idle_id idle_entry 0 (StackConfig_new 0 0))
             in case add_thread s1 idle_thread of
                  (s2, Inl e) \<Rightarrow> (counter', s2, None)
                | (s2, Inr _) \<Rightarrow> (counter', s2\<lparr>current_thread := Some idle_id\<rparr>, Some idle_id)))"

definition yield_mark :: "Thread \<Rightarrow> Thread" where
  "yield_mark t =
     (if th_state t = Running
      then t\<lparr>th_state := Ready, stats := (stats t)\<lparr>voluntary_switches := voluntary_switches (stats t) + 1\<rparr>\<rparr>
      else t)"

definition yield_cpu :: "u64 \<Rightarrow> u64 \<Rightarrow> Scheduler \<Rightarrow> u64 \<times> Scheduler" where
  "yield_cpu idle_entry counter s =
     (let s1 = (case current_thread s of None \<Rightarrow> s | Some cid \<Rightarrow> with_thread_mut s cid yield_mark);
          (c, s2, r) = schedule idle_entry counter s1
      in (c, s2))"

definition block_mark :: "ThreadState \<Rightarrow> Thread \<Rightarrow> Thread" where
  "block_mark ns t =
     t\<lparr>th_state := ns, stats := (stats t)\<lparr>involuntary_switches := involuntary_switches (stats t) + 1\<rparr>\<rparr>"

definition block_current_thread :: "u64 \<Rightarrow> u64 \<Rightarrow> Scheduler \<Rightarrow> ThreadState \<Rightarrow> u64 \<times> Scheduler" where
  "block_current_thread idle_entry counter s ns =
     (let s1 = (case current_thread s of None \<Rightarrow> s | Some cid \<Rightarrow> with_thread_mut s cid (block_mark ns));
          (c, s2, r) = schedule idle_entry counter s1
      in (c, s2))"

definition wake_thread :: "Scheduler \<Rightarrow> u64 \<Rightarrow> Scheduler \<times> unit result" where
  "wake_thread s tid =
     (case get_thread s tid of
        None \<Rightarrow> (s, Inl ''Thread not found'')
      | Some t \<Rightarrow>
          if \<not> (th_state t = Blocked \<or> th_state t = BlockedOnMutex \<or> th_state t = BlockedOnCondvar)
          then (s, Inl ''Thread is not blocked'')
          else (enqueue_thread (with_thread_mut s tid (Thread_set_state Ready)) tid, Inr ()))"

section \<open>Thread table facts\<close>

lemma slot_has_Some: "slot_has tid slot \<Longrightarrow> \<exists>t. slot = Some t \<and> th_id t = tid"
  by (auto simp: slot_has_def split: option.splits)

lemma get_thread_id: "get_thread s tid = Some t \<Longrightarrow> th_id t = tid"
  by (auto simp: get_thread_def slot_has_def split: option.splits dest!: find_index_SomeD)

lemma find_slot_update:
  assumes "\<And>t. th_id (f t) = th_id t" "i < length xs"
  shows "find_index (slot_has u) (xs[i := map_option f (xs ! i)]) = find_index (slot_has u) xs"
  by (rule find_index_cong_nth)
    (auto simp: nth_list_update slot_has_def assms split: option.splits)

lemma get_thread_with_thread_mut:
  assumes "\<And>t. th_id (f t) = th_id t"
  shows "get_thread (with_thread_mut s tid f) u =
    (if u = tid then map_option f (get_thread s u) else get_thread s u)"
proof (cases "find_index (slot_has tid) (threads s)")
  case None
  then show ?thesis by (simp add: with_thread_mut_def get_thread_def)
next
  case (Some i)
  from find_index_SomeD[OF Some] have i: "i < length (threads s)" "slot_has tid (threads s ! i)" by auto
  note f = find_slot_update[OF assms i(1), of u]
  show ?thesis
  proof (cases "find_index (slot_has u) (threads s)")
    case None
    with Some f show ?thesis by (auto simp: with_thread_mut_def get_thread_def)
  next
    case (Some j)
    from find_index_SomeD[OF Some] have j: "slot_has u (threads s ! j)" by auto
    have "j = i \<longleftrightarrow> u = tid"
      using i(2) j Some \<open>find_index (slot_has tid) (threads s) = Some i\<close>
      by (auto simp: slot_has_def split: option.splits)
    with Some f \<open>find_index (slot_has tid) (threads s) = Some i\<close> i(1) show ?thesis
      by (auto simp: with_thread_mut_def get_thread_def)
  qed
qed

lemma with_thread_mut_fields [simp]:
  "run_queue (with_thread_mut s tid f) = run_queue s"
  "current_thread (with_thread_mut s tid f) = current_thread s"
  "thread_count (with_thread_mut s tid f) = thread_count s"
  by (simp_all add: with_thread_mut_def split: option.splits)

lemma get_thread_fields [simp]:
  "get_thread (s\<lparr>run_queue := q\<rparr>) tid = get_thread s tid"
  "get_thread (s\<lparr>current_thread := c\<rparr>) tid = get_thread s tid"
  by (simp_all add: get_thread_def split: option.splits)

lemma keeps_id [simp]:
  "th_id (Thread_set_state st t) = th_id t" "th_id (mark_running ts t) = th_id t"
  "th_id (yield_mark t) = th_id t" "th_id (block_mark ns t) = th_id t"
  by (simp_all add: Thread_set_state_def mark_running_def yield_mark_def block_mark_def)

section \<open>A step of the scheduler\<close>

lemma schedule_switch:
  assumes "rq_dequeue (run_queue s) = (q, Some e)" "current_thread s = Some c"
    and "get_thread s c = Some cur" "th_state cur = Running"
  shows "\<exists>s'. schedule ie n s = (n, s', Some (rq_thread_id e)) \<and> current_thread s' = Some (rq_thread_id e) \<and>
     run_queue s' = rq_enqueue q \<lparr>rq_thread_id = c, rq_priority = th_priority cur, rq_time_slice = DEFAULT_TIME_SLICE\<rparr> \<and>
     (\<forall>u. get_thread s' u =
        (let t = (if u = c then Some (Thread_set_state Ready cur) else get_thread s u)
         in if u = rq_thread_id e then map_option (mark_running (rq_time_slice e)) t else t))"
  using assms
  by (auto simp: schedule_def requeue_current_def Let_def get_thread_with_thread_mut)

lemma schedule_switch_only:
  assumes "rq_dequeue (run_queue s) = (q, Some e)"
    and "\<And>c cur. current_thread s = Some c \<Longrightarrow> get_thread s c = Some cur \<Longrightarrow> th_state cur \<noteq> Running"
  shows "\<exists>s'. schedule ie n s = (n, s', Some (rq_thread_id e)) \<and> current_thread s' = Some (rq_thread_id e) \<and>
     run_queue s' = q \<and>
     (\<forall>u. get_thread s' u = (if u = rq_thread_id e then map_option (mark_running (rq_time_slice e)) (get_thread s u)
        else get_thread s u))"
  using assms
  by (auto simp: schedule_def requeue_current_def Let_def get_thread_with_thread_mut split: option.splits)

text \<open>
  The state between two dispatches when all threads have priority \<open>p\<close>: \<open>c\<close>
  runs, the threads \<open>xs\<close> wait in this order, and all of them are in the table.
\<close>

definition rr_ok :: "ThreadPriority \<Rightarrow> Scheduler \<Rightarrow> u64 \<Rightarrow> u64 list \<Rightarrow> bool" where
  "rr_ok p s c xs \<longleftrightarrow> only_level p (run_queue s) \<and>
     map rq_thread_id (level (run_queue s) (prio_index p)) = xs \<and> current_thread s = Some c \<and>
     distinct (c # xs) \<and> length xs \<le> 64 \<and>
     (\<forall>t \<in> set (c # xs). \<exists>th. get_thread s t = Some th \<and> th_priority th = p \<and>
        th_state th = (if t = c then Running else Ready))"

lemma rr_ok_dequeue:
  assumes "only_level p q" "map rq_thread_id (level q (prio_index p)) = x # xs"
  shows "\<exists>q' e. rq_dequeue q = (q', Some e) \<and> rq_thread_id e = x \<and> only_level p q' \<and>
    e = hd (level q (prio_index p)) \<and> map rq_thread_id (level q' (prio_index p)) = xs"
proof -
  have inv: "rq_inv q" using assms(1) by (simp add: only_level_def)
  from assms(2) obtain e es where e: "level q (prio_index p) = e # es" "rq_thread_id e = x" "map rq_thread_id es = xs"
    by auto
  note ord = only_level_order[OF assms(1)]
  from rq_dequeue_order[OF inv] ord e obtain q' where
    d: "rq_dequeue q = (q', Some e)" "rq_order q' = es" "rq_inv q'" by auto
  from rq_order_levels[OF d(2) _ assms(1) d(3,1)] ord e d(1) show ?thesis by auto
qed

lemma rr_ok_schedule:
  assumes "rr_ok p s c (x # xs)"
  shows "\<exists>s'. schedule ie n s = (n, s', Some x) \<and> rr_ok p s' x (xs @ [c])"
proof -
  have ok: "only_level p (run_queue s)" "map rq_thread_id (level (run_queue s) (prio_index p)) = x # xs"
    "current_thread s = Some c" "distinct (c # x # xs)" "length (x # xs) \<le> 64"
    and threads: "\<And>t. t \<in> set (c # x # xs) \<Longrightarrow> \<exists>th. get_thread s t = Some th \<and> th_priority th = p \<and>
        th_state th = (if t = c then Running else Ready)"
    using assms by (auto simp: rr_ok_def)
  from rr_ok_dequeue[OF ok(1,2)] obtain q e where
    q: "rq_dequeue (run_queue s) = (q, Some e)" "rq_thread_id e = x" "only_level p q"
      "map rq_thread_id (level q (prio_index p)) = xs" by blast
  from threads[of c] obtain cur where cur: "get_thread s c = Some cur" "th_priority cur = p" "th_state cur = Running"
    by auto
  let ?ce = "\<lparr>rq_thread_id = c, rq_priority = p, rq_time_slice = DEFAULT_TIME_SLICE\<rparr>"
  from schedule_switch[OF q(1) ok(3) cur(1,3), of ie n] q(2) cur(2) obtain s' where
    s': "schedule ie n s = (n, s', Some x)" "current_thread s' = Some x" "run_queue s' = rq_enqueue q ?ce"
      "\<And>u. get_thread s' u =
        (let t = (if u = c then Some (Thread_set_state Ready cur) else get_thread s u)
         in if u = x then map_option (mark_running (rq_time_slice e)) t else t)" by auto
  have inv: "rq_inv q" using q(3) by (simp add: only_level_def)
  have "length (map rq_thread_id (level q (prio_index p))) = length xs" by (simp only: q(4))
  then have len: "length (level q (prio_index p)) < 64" using ok(5) by simp
  have lev: "level (rq_enqueue q ?ce) r = (if r = prio_index p then level q r @ [?ce] else level q r)" for r
    using rq_enqueue_level(2)[OF inv, of ?ce r] len by simp
  have "only_level p (run_queue s')"
    using q(3) rq_enqueue_level(1)[OF inv, of ?ce] lev s'(3) by (simp add: only_level_def)
  moreover have "map rq_thread_id (level (run_queue s') (prio_index p)) = xs @ [c]" using lev q(4) s'(3) by simp
  moreover have "\<exists>th. get_thread s' t = Some th \<and> th_priority th = p \<and> th_state th = (if t = x then Running else Ready)"
    if "t \<in> set (x # xs @ [c])" for t
  proof -
    have "t \<in> set (c # x # xs)" using that by auto
    from threads[OF this] show ?thesis
      using s'(4)[of t] cur ok(4) by (auto simp: Let_def Thread_set_state_def mark_running_def)
  qed
  moreover have "distinct (x # xs @ [c])" "length (xs @ [c]) \<le> 64" using ok(4,5) by auto
  ultimately have "rr_ok p s' x (xs @ [c])" unfolding rr_ok_def using s'(2) by blast
  with s'(1) show ?thesis by blast
qed

definition schedule_iter :: "u64 \<Rightarrow> u64 \<Rightarrow> nat \<Rightarrow> Scheduler \<Rightarrow> Scheduler" where
  "schedule_iter ie n k s = ((\<lambda>s. fst (snd (schedule ie n s))) ^^ k) s"

lemma schedule_iter_rotates:
  assumes "rr_ok p s c xs" "xs \<noteq> []"
  shows "rr_ok p (schedule_iter ie n k s) (hd (rotate k (c # xs))) (tl (rotate k (c # xs)))"
proof (induction k)
  case 0
  then show ?case using assms by (simp add: schedule_iter_def)
next
  case (Suc k)
  let ?r = "rotate k (c # xs)"
  have "Suc (Suc 0) \<le> length ?r" using assms(2) by (cases xs) auto
  then obtain d y ys where r: "?r = d # y # ys" by (metis Suc_le_length_iff)
  with Suc rr_ok_schedule[of p _ d y ys ie n] obtain s' where
    "schedule ie n (schedule_iter ie n k s) = (n, s', Some y)" "rr_ok p s' y (ys @ [d])" by auto
  then show ?case using r by (simp add: schedule_iter_def rotate1_rotate_swap rotate_Suc)
qed

lemma rr_ok_leave:
  assumes "rr_ok p s c (x # xs)" "\<And>t. th_id (f t) = th_id t" "\<And>t. th_state t = Running \<Longrightarrow> th_state (f t) \<noteq> Running"
  shows "\<exists>s'. schedule ie n (with_thread_mut s c f) = (n, s', Some x) \<and> current_thread s' = Some x \<and>
     only_level p (run_queue s') \<and> map rq_thread_id (level (run_queue s') (prio_index p)) = xs \<and>
     get_thread s' c = map_option f (get_thread s c) \<and>
     (\<forall>t \<in> set (x # xs). \<exists>th. get_thread s' t = Some th \<and> th_priority th = p \<and>
        th_state th = (if t = x then Running else Ready))"
proof -
  let ?s = "with_thread_mut s c f"
  have ok: "only_level p (run_queue s)" "map rq_thread_id (level (run_queue s) (prio_index p)) = x # xs"
    "current_thread s = Some c" "distinct (c # x # xs)"
    and threads: "\<And>t. t \<in> set (c # x # xs) \<Longrightarrow> \<exists>th. get_thread s t = Some th \<and> th_priority th = p \<and>
        th_state th = (if t = c then Running else Ready)"
    using assms(1) by (auto simp: rr_ok_def)
  from rr_ok_dequeue[OF ok(1,2)] obtain q e where
    q: "rq_dequeue (run_queue ?s) = (q, Some e)" "rq_thread_id e = x" "only_level p q"
      "map rq_thread_id (level q (prio_index p)) = xs" by auto
  have "th_state cur \<noteq> Running" if "current_thread ?s = Some d" "get_thread ?s d = Some cur" for d cur
    using that ok(3) threads[of c] assms(3) by (auto simp: get_thread_with_thread_mut[OF assms(2)])
  note not_running = this
  from schedule_switch_only[OF q(1), where ie = ie and n = n] not_running q(2) obtain s' where
    s': "schedule ie n ?s = (n, s', Some x)" "current_thread s' = Some x" "run_queue s' = q"
      "\<And>u. get_thread s' u = (if u = x then map_option (mark_running (rq_time_slice e)) (get_thread ?s u)
        else get_thread ?s u)" by auto
  have "\<exists>th. get_thread s' t = Some th \<and> th_priority th = p \<and> th_state th = (if t = x then Running else Ready)"
    if "t \<in> set (x # xs)" for t
    using that threads[of t] s'(4)[of t] ok(4)
    by (auto simp: get_thread_with_thread_mut[OF assms(2)] mark_running_def)
  moreover have "get_thread s' c = map_option f (get_thread s c)"
    using s'(4)[of c] ok(4) by (simp add: get_thread_with_thread_mut[OF assms(2)])
  ultimately show ?thesis using s' q(3,4) by blast
qed

lemma word_and_not_15: "unat ((x :: u64) AND NOT 0xF) = unat x div 16 * 16"
proof -
  have m: "(0xF :: u64) = mask 4" by (simp add: mask_eq_exp_minus_1)
  have "x AND NOT 0xF = push_bit 4 (drop_bit 4 x)"
    unfolding m by (rule bit_word_eqI) (auto simp: bit_simps)
  also have "\<dots> = x - x mod 16"
    by (simp add: push_bit_eq_mult drop_bit_eq_div minus_mod_eq_div_mult mult.commute)
  finally have "unat (x AND NOT 0xF) = unat x - unat (x mod 16)"
    by (simp add: unat_sub word_le_nat_alt unat_mod)
  then show ?thesis by (simp add: unat_mod minus_mod_eq_div_mult)
qed

section \<open>Adding threads\<close>

lemma get_thread_put:
  assumes "get_thread s (th_id t) = None" "find_index (\<lambda>x. x = None) (threads s) = Some i"
  shows "get_thread (s\<lparr>threads := (threads s)[i := Some t], thread_count := k\<rparr>) u =
    (if u = th_id t then Some t else get_thread s u)"
proof -
  from find_index_SomeD[OF assms(2)] have i: "i < length (threads s)" "threads s ! i = None" by auto
  have fresh: "\<not> slot_has (th_id t) (threads s ! j)" if "j < length (threads s)" for j
  proof -
    have "find_index (slot_has (th_id t)) (threads s) = None"
    proof (rule ccontr)
      assume "find_index (slot_has (th_id t)) (threads s) \<noteq> None"
      then obtain j where j: "find_index (slot_has (th_id t)) (threads s) = Some j" by auto
      from find_index_SomeD[OF j] slot_has_Some[of "th_id t" "threads s ! j"] assms(1) j
      show False by (auto simp: get_thread_def)
    qed
    from find_index_None_nth[OF this that] show ?thesis .
  qed
  show ?thesis
  proof (cases "u = th_id t")
    case True
    have "find_index (slot_has u) ((threads s)[i := Some t]) = Some i"
      by (rule find_index_SomeI) (use i fresh True in \<open>auto simp: slot_has_def\<close>)
    with True i show ?thesis by (simp add: get_thread_def)
  next
    case False
    have f: "find_index (slot_has u) ((threads s)[i := Some t]) = find_index (slot_has u) (threads s)"
      by (rule find_index_cong_nth) (use i False in \<open>auto simp: nth_list_update slot_has_def\<close>)
    have "j \<noteq> i" if "find_index (slot_has u) (threads s) = Some j" for j
      using find_index_SomeD[OF that] i by (auto simp: slot_has_def)
    with False f show ?thesis by (auto simp: get_thread_def split: option.splits)
  qed
qed

lemma enqueue_thread_runnable:
  assumes "get_thread s tid = Some t" "Thread_is_runnable t"
  shows "enqueue_thread s tid = s\<lparr>run_queue := rq_enqueue (run_queue s)
     \<lparr>rq_thread_id = tid, rq_priority = th_priority t, rq_time_slice = DEFAULT_TIME_SLICE\<rparr>\<rparr>"
  using assms by (simp add: enqueue_thread_def)

lemma enqueue_one_level:
  assumes "only_level p q" "length (level q (prio_index p)) < 64" "rq_priority e = p"
  shows "only_level p (rq_enqueue q e) \<and>
    level (rq_enqueue q e) (prio_index p) = level q (prio_index p) @ [e]"
proof -
  have inv: "rq_inv q" using assms(1) by (simp add: only_level_def)
  have lev: "level (rq_enqueue q e) r = (if r = prio_index p then level q r @ [e] else level q r)" for r
    using rq_enqueue_level(2)[OF inv, of e r] assms(2,3) by simp
  show ?thesis using assms(1) rq_enqueue_level(1)[OF inv, of e] lev by (simp add: only_level_def)
qed

lemma rr_ok_add:
  assumes "rr_ok p s c xs" "length xs < 64" "get_thread s (th_id t) = None" "th_state t = Ready" "th_priority t = p"
    and "thread_count s < MAX_THREADS" "find_index (\<lambda>x. x = None) (threads s) = Some i"
  shows "\<exists>s'. add_thread s t = (s', Inr ()) \<and> rr_ok p s' c (xs @ [th_id t]) \<and>
    thread_count s' = Suc (thread_count s) \<and> threads s' = (threads s)[i := Some t] \<and>
    (\<forall>u. get_thread s' u = (if u = th_id t then Some t else get_thread s u))"
proof -
  let ?s1 = "s\<lparr>threads := (threads s)[i := Some t], thread_count := thread_count s + 1\<rparr>"
  let ?e = "\<lparr>rq_thread_id = th_id t, rq_priority = p, rq_time_slice = DEFAULT_TIME_SLICE\<rparr>"
  note get = get_thread_put[OF assms(3,7), of "Suc (thread_count s)"]
  have add: "add_thread s t = (?s1\<lparr>run_queue := rq_enqueue (run_queue s) ?e\<rparr>, Inr ())"
    using assms(4-7) get[of "th_id t"]
    by (simp add: add_thread_def enqueue_thread_def Thread_is_runnable_def)
  have ok: "only_level p (run_queue s)" "map rq_thread_id (level (run_queue s) (prio_index p)) = xs"
    using assms(1) by (auto simp: rr_ok_def)
  have "length (map rq_thread_id (level (run_queue s) (prio_index p))) = length xs" by (simp only: ok(2))
  then have "length (level (run_queue s) (prio_index p)) < 64" using assms(2) by simp
  from enqueue_one_level[OF ok(1) this, of ?e] ok(2)
  have q: "only_level p (rq_enqueue (run_queue s) ?e)"
    "map rq_thread_id (level (rq_enqueue (run_queue s) ?e) (prio_index p)) = xs @ [th_id t]" by auto
  have new: "th_id t \<notin> set (c # xs)" using assms(1,3) by (auto simp: rr_ok_def)
  have "rr_ok p (?s1\<lparr>run_queue := rq_enqueue (run_queue s) ?e\<rparr>) c (xs @ [th_id t])"
    using assms(1,2,4,5) q new by (auto simp: rr_ok_def get)
  with add get show ?thesis by simp
qed

lemma rr_ok_wake:
  assumes "rr_ok p s x xs" "length xs < 64" "c \<noteq> x" "c \<notin> set xs" "get_thread s c = Some t" "th_priority t = p"
    and "th_state t = Blocked \<or> th_state t = BlockedOnMutex \<or> th_state t = BlockedOnCondvar"
  shows "\<exists>s2. wake_thread s c = (s2, Inr ()) \<and> rr_ok p s2 x (xs @ [c])"
proof -
  let ?e = "\<lparr>rq_thread_id = c, rq_priority = p, rq_time_slice = DEFAULT_TIME_SLICE\<rparr>"
  define s2 where "s2 = (with_thread_mut s c (Thread_set_state Ready))\<lparr>run_queue := rq_enqueue (run_queue s) ?e\<rparr>"
  have get: "get_thread s2 u = (if u = c then Some (Thread_set_state Ready t) else get_thread s u)" for u
    using assms(5) by (simp add: s2_def get_thread_with_thread_mut)
  have wake: "wake_thread s c = (s2, Inr ())"
    using assms(5-7)
    by (simp add: wake_thread_def enqueue_thread_def get_thread_with_thread_mut s2_def Thread_set_state_def Thread_is_runnable_def)
  have ok: "only_level p (run_queue s)" "map rq_thread_id (level (run_queue s) (prio_index p)) = xs"
    "current_thread s = Some x" "distinct (x # xs)"
    and threads: "\<And>u. u \<in> set (x # xs) \<Longrightarrow> \<exists>th. get_thread s u = Some th \<and> th_priority th = p \<and>
      th_state th = (if u = x then Running else Ready)"
    using assms(1) unfolding rr_ok_def by blast+
  have "length (map rq_thread_id (level (run_queue s) (prio_index p))) = length xs" by (simp only: ok(2))
  then have "length (level (run_queue s) (prio_index p)) < 64" using assms(2) by simp
  from enqueue_one_level[OF ok(1) this, of ?e] ok(2)
  have "only_level p (run_queue s2)" "map rq_thread_id (level (run_queue s2) (prio_index p)) = xs @ [c]"
    by (simp_all add: s2_def)
  moreover have "\<exists>th. get_thread s2 u = Some th \<and> th_priority th = p \<and> th_state th = (if u = x then Running else Ready)"
    if "u \<in> set (x # xs @ [c])" for u
  proof (cases "u = c")
    case True
    with assms(3,6) show ?thesis by (simp add: get Thread_set_state_def)
  next
    case False
    with that threads[of u] show ?thesis by (simp add: get)
  qed
  moreover have "current_thread s2 = Some x" using ok(3) by (simp add: s2_def)
  moreover have "distinct (x # xs @ [c])" "length (xs @ [c]) \<le> 64" using ok(4) assms(2-4) by auto
  ultimately have "rr_ok p s2 x (xs @ [c])" unfolding rr_ok_def by blast
  with wake show ?thesis by blast
qed

section \<open>A concrete scheduler\<close>

definition sample_thread :: "u64 \<Rightarrow> Thread" where
  "sample_thread i = fst (Thread_new i 0x1000 0 (StackConfig_new 0x8000 0x1000))"

definition sample_one :: Scheduler where
  "sample_one = fst (snd (schedule 0 9 (fst (add_thread Scheduler_new (sample_thread 1)))))"

definition sample_sched :: Scheduler where
  "sample_sched = fst (add_thread (fst (add_thread sample_one (sample_thread 2))) (sample_thread 3))"

lemma sample_thread_fields [simp]:
  "th_id (sample_thread i) = i" "th_priority (sample_thread i) = Normal" "th_state (sample_thread i) = Ready"
  by (simp_all add: sample_thread_def Thread_new_def Thread_init_stack_def Let_def)

lemma sample_one_state:
  "rr_ok Normal sample_one 1 [] \<and> thread_count sample_one = 1 \<and>
   threads sample_one = Some (mark_running DEFAULT_TIME_SLICE (sample_thread 1)) # None # None # replicate 1021 None"
proof -
  let ?e = "\<lparr>rq_thread_id = 1, rq_priority = Normal, rq_time_slice = DEFAULT_TIME_SLICE\<rparr>"
  have th: "threads Scheduler_new = None # None # None # replicate 1021 None"
    by (simp add: Scheduler_new_def MAX_THREADS_def flip: replicate_Suc)
  have new: "only_level Normal RunQueue_new" "level RunQueue_new (prio_index Normal) = []"
    using rq_inv_new by (auto simp: only_level_def level_def RunQueue_new_def)
  let ?s1 = "Scheduler_new\<lparr>threads := Some (sample_thread 1) # None # None # replicate 1021 None, thread_count := 1,
     run_queue := rq_enqueue RunQueue_new ?e\<rparr>"
  have add: "add_thread Scheduler_new (sample_thread 1) = (?s1, Inr ())"
    by (simp add: add_thread_def th enqueue_thread_def get_thread_def slot_has_def Thread_is_runnable_def)
      (simp add: Scheduler_new_def MAX_THREADS_def)
  have "length (level RunQueue_new (prio_index Normal)) < 64" using new(2) by (simp only: list.size)
  from enqueue_one_level[OF new(1) this, of ?e] new(2)
  have q1: "only_level Normal (run_queue ?s1)" "level (run_queue ?s1) (prio_index Normal) = [?e]" by auto
  from rr_ok_dequeue[OF q1(1), of 1 "[]"] q1(2) obtain q where q: "rq_dequeue (run_queue ?s1) = (q, Some ?e)"
    "only_level Normal q" "map rq_thread_id (level q (prio_index Normal)) = []" by auto
  have one: "sample_one = ?s1\<lparr>run_queue := q, threads := Some (mark_running DEFAULT_TIME_SLICE (sample_thread 1)) # None # None # replicate 1021 None,
     current_thread := Some 1\<rparr>"
    using q(1) add
    by (simp add: sample_one_def schedule_def requeue_current_def with_thread_mut_def slot_has_def Scheduler_new_def)
  show ?thesis
    using q(2,3) by (auto simp: one rr_ok_def get_thread_def slot_has_def mark_running_def)
qed

lemma sample_sched_rr: "rr_ok Normal sample_sched 1 [2, 3]"
proof -
  let ?t1 = "mark_running DEFAULT_TIME_SLICE (sample_thread 1)"
  have th: "threads sample_one = Some ?t1 # None # None # replicate 1021 None"
    and one: "rr_ok Normal sample_one 1 []" "thread_count sample_one = 1"
    using sample_one_state by auto
  have "get_thread sample_one (th_id (sample_thread 2)) = None"
    by (simp add: get_thread_def th slot_has_def mark_running_def)
  from rr_ok_add[OF one(1) _ this, of 1] obtain s' where
    s': "add_thread sample_one (sample_thread 2) = (s', Inr ())" "rr_ok Normal s' 1 [2]" "thread_count s' = 2"
      "threads s' = Some ?t1 # Some (sample_thread 2) # None # replicate 1021 None"
    by (auto simp: one(2) th MAX_THREADS_def)
  have "get_thread s' (th_id (sample_thread 3)) = None"
    by (simp add: get_thread_def s'(4) slot_has_def mark_running_def)
  from rr_ok_add[OF s'(2) _ this, of 2] obtain s'' where
    "add_thread s' (sample_thread 3) = (s'', Inr ())" "rr_ok Normal s'' 1 [2, 3]"
    by (auto simp: s'(3,4) MAX_THREADS_def)
  then show ?thesis using s'(1) by (simp add: sample_sched_def)
qed

section \<open>Properties\<close>

text \<open>
  Claim C15 (round robin): when all threads have the same priority, the
  \<open>k\<close>-th call of \<open>schedule\<close> runs the thread \<open>k\<close> places further in the
  order of the queue, cyclically; hence every thread runs once in any window of
  as many calls as there are threads.
\<close>

theorem scheduler_round_robin:
  assumes "rr_ok p s c xs" "xs \<noteq> []"
  shows "current_thread (schedule_iter ie n k s) = Some ((c # xs) ! (k mod length (c # xs))) \<and>
    (\<forall>t \<in> set (c # xs). \<exists>j < length (c # xs). current_thread (schedule_iter ie n (k + j) s) = Some t)"
proof -
  have run: "current_thread (schedule_iter ie n k s) = Some ((c # xs) ! (k mod length (c # xs)))" for k
    using schedule_iter_rotates[OF assms, of ie n k] hd_rotate_conv_nth[of "c # xs" k] by (simp add: rr_ok_def)
  have "\<exists>j < length (c # xs). current_thread (schedule_iter ie n (k + j) s) = Some t" if t: "t \<in> set (c # xs)" for t
  proof -
    from t obtain i where i: "i < length (c # xs)" "(c # xs) ! i = t" by (metis in_set_conv_nth)
    let ?l = "length (c # xs)" and ?j = "(i + (length (c # xs) - k mod length (c # xs))) mod length (c # xs)"
    have le: "k mod ?l \<le> ?l" by (intro less_imp_le mod_less_divisor) simp
    have "(k + ?j) mod ?l = (k mod ?l + (i + (?l - k mod ?l))) mod ?l" by (simp only: mod_simps)
    also have "k mod ?l + (i + (?l - k mod ?l)) = i + ?l" using le by linarith
    finally have "(k + ?j) mod ?l = i" using i(1) by (simp only: mod_add_self2 mod_less)
    moreover have "?j < ?l" by (rule mod_less_divisor) simp
    ultimately show ?thesis using run[of "k + ?j"] i(2) by metis
  qed
  with run show ?thesis by blast
qed

theorem scheduler_round_robin_witness:
  "current_thread (schedule_iter 0 9 5 sample_sched) = Some 3 \<and>
   (\<exists>j < length [1, 2, 3 :: u64]. current_thread (schedule_iter 0 9 (5 + j) sample_sched) = Some 2)"
proof -
  note rr = scheduler_round_robin[OF sample_sched_rr list.distinct(2), of 0 9 5]
  have "current_thread (schedule_iter 0 9 5 sample_sched) = Some ([1, 2, 3] ! (5 mod length [1, 2, 3 :: u64]))"
    using rr by blast
  moreover have "[1, 2, 3] ! (5 mod length [1, 2, 3 :: u64]) = 3" by simp
  moreover have "2 \<in> set [1, 2, 3 :: u64]" by simp
  ultimately show ?thesis using rr by metis
qed

text \<open>
  Claim C16 (a yielding thread is lost): when one priority level is in use and
  the running thread calls \<open>yield_cpu\<close> while another thread is ready, the other
  thread runs, and the
  yielding thread is left in state \<open>Ready\<close> but in no level of the run queue;
  waking it is refused because it is not blocked.  The state change precedes the test of \<open>schedule\<close>
  for re-queueing the current thread, which asks for \<open>Running\<close>.
\<close>

theorem scheduler_yield_loses_thread:
  assumes "rr_ok p s c (x # xs)"
  shows "\<exists>s'. yield_cpu ie n s = (n, s') \<and> current_thread s' = Some x \<and>
    (\<exists>th. get_thread s' c = Some th \<and> th_state th = Ready) \<and>
    (\<forall>r < 5. c \<notin> rq_thread_id ` set (level (run_queue s') r)) \<and>
    wake_thread s' c = (s', Inl ''Thread is not blocked'')"
proof -
  have "th_state (yield_mark t) \<noteq> Running" for t by (simp add: yield_mark_def)
  from rr_ok_leave[OF assms keeps_id(3) this, of ie n] obtain s' where
    s': "schedule ie n (with_thread_mut s c yield_mark) = (n, s', Some x)" "current_thread s' = Some x"
      "only_level p (run_queue s')" "map rq_thread_id (level (run_queue s') (prio_index p)) = xs"
      "get_thread s' c = map_option yield_mark (get_thread s c)"
    by blast
  from assms obtain cur where cur: "current_thread s = Some c" "get_thread s c = Some cur" "th_state cur = Running"
    "c \<notin> set xs" by (auto simp: rr_ok_def)
  have ready: "get_thread s' c = Some (yield_mark cur)" "th_state (yield_mark cur) = Ready"
    using s'(5) cur by (simp_all add: yield_mark_def)
  have "c \<notin> rq_thread_id ` set (level (run_queue s') r)" if "r < 5" for r
    using s'(3,4) cur(4) that by (cases "r = prio_index p") (auto simp: only_level_def simp flip: set_map)
  then show ?thesis using s'(1,2) cur(1) ready by (simp add: yield_cpu_def wake_thread_def)
qed

theorem scheduler_yield_loses_thread_witness:
  "\<exists>s'. yield_cpu 0 9 sample_sched = (9, s') \<and> current_thread s' = Some 2 \<and>
    (\<exists>th. get_thread s' 1 = Some th \<and> th_state th = Ready) \<and>
    (\<forall>r < 5. 1 \<notin> rq_thread_id ` set (level (run_queue s') r)) \<and>
    wake_thread s' 1 = (s', Inl ''Thread is not blocked'')"
  using scheduler_yield_loses_thread[OF sample_sched_rr, of 0 9] by simp

text \<open>
  Claim C17 (block and wake): when one priority level is in use and another
  thread is ready, blocking the running thread hands the processor to
  the next ready thread; waking the blocked thread afterwards puts it at the end
  of its level, and the scheduler is in the same kind of state as before, with
  the threads rotated by one.
\<close>

theorem scheduler_block_wake:
  assumes "rr_ok p s c (x # xs)" "ns = Blocked \<or> ns = BlockedOnMutex \<or> ns = BlockedOnCondvar"
  shows "\<exists>s1 s2. block_current_thread ie n s ns = (n, s1) \<and> current_thread s1 = Some x \<and>
    rr_ok p s1 x xs \<and> c \<notin> set xs \<and> wake_thread s1 c = (s2, Inr ()) \<and> rr_ok p s2 x (xs @ [c])"
proof -
  have stops: "th_state (block_mark ns t) \<noteq> Running" for t using assms(2) by (auto simp: block_mark_def)
  from rr_ok_leave[OF assms(1) keeps_id(4) stops, of ie n] obtain s1 where
    s1: "schedule ie n (with_thread_mut s c (block_mark ns)) = (n, s1, Some x)" "current_thread s1 = Some x"
      "only_level p (run_queue s1)" "map rq_thread_id (level (run_queue s1) (prio_index p)) = xs"
      "get_thread s1 c = map_option (block_mark ns) (get_thread s c)"
      "\<forall>t \<in> set (x # xs). \<exists>th. get_thread s1 t = Some th \<and> th_priority th = p \<and>
        th_state th = (if t = x then Running else Ready)"
    by blast
  from assms(1) obtain cur where cur: "current_thread s = Some c" "get_thread s c = Some cur" "th_priority cur = p"
    and d: "distinct (c # x # xs)" "length (x # xs) \<le> 64" by (auto simp: rr_ok_def)
  have rr1: "rr_ok p s1 x xs" using s1(2,3,4,6) d unfolding rr_ok_def by simp
  have "length xs < 64" "c \<noteq> x" "c \<notin> set xs" using d by simp_all
  moreover have "get_thread s1 c = Some (block_mark ns cur)" using s1(5) cur(2) by simp
  moreover have "th_priority (block_mark ns cur) = p" "th_state (block_mark ns cur) = ns"
    using cur(3) by (simp_all add: block_mark_def)
  ultimately obtain s2 where "wake_thread s1 c = (s2, Inr ())" "rr_ok p s2 x (xs @ [c])"
    using rr_ok_wake[OF rr1] assms(2) by metis
  moreover have "block_current_thread ie n s ns = (n, s1)" using s1(1) cur(1) by (simp add: block_current_thread_def)
  ultimately show ?thesis using rr1 s1(2) \<open>c \<notin> set xs\<close> by (intro exI conjI)
qed

theorem scheduler_block_wake_witness:
  "\<exists>s1 s2. block_current_thread 0 9 sample_sched Blocked = (9, s1) \<and> current_thread s1 = Some 2 \<and>
    rr_ok Normal s1 2 [3] \<and> 1 \<notin> set [3 :: u64] \<and> wake_thread s1 1 = (s2, Inr ()) \<and> rr_ok Normal s2 2 ([3] @ [1])"
  using scheduler_block_wake[OF sample_sched_rr, of Blocked 0 9] by simp

text \<open>
  A running thread gives way to a lower priority: \<open>schedule\<close>
  dequeues before it looks at the current thread, so whenever any thread is
  queued the running thread is put back and the head of the queue runs, also
  when the running thread has the higher priority.
\<close>

lemma scheduler_demotes_running:
  assumes "rq_inv (run_queue s)" "rq_order (run_queue s) = e # es" "current_thread s = Some c"
    and "get_thread s c = Some cur" "th_state cur = Running" "rq_thread_id e \<noteq> c"
    and "prio_index (rq_priority e) < prio_index (th_priority cur)"
  shows "\<exists>s'. schedule ie n s = (n, s', Some (rq_thread_id e)) \<and> current_thread s' = Some (rq_thread_id e) \<and>
    get_thread s' c = Some (Thread_set_state Ready cur)"
proof -
  from rq_dequeue_order[OF assms(1)] assms(2) obtain q where "rq_dequeue (run_queue s) = (q, Some e)" by auto
  from schedule_switch[OF this assms(3,4,5), of ie n] assms(6) show ?thesis by (auto simp: Let_def)
qed

definition high_thread :: Thread where
  "high_thread = Thread_set_state Running (Thread_set_priority High (sample_thread 7))"

definition high_sched :: Scheduler where
  "high_sched = Scheduler_new\<lparr>threads := [Some high_thread], current_thread := Some 7,
     run_queue := rq_enqueue RunQueue_new \<lparr>rq_thread_id = 2, rq_priority = Low, rq_time_slice = DEFAULT_TIME_SLICE\<rparr>\<rparr>"

lemma scheduler_demotes_running_witness:
  "\<exists>s'. schedule 0 9 high_sched = (9, s', Some 2) \<and> current_thread s' = Some 2 \<and>
    get_thread s' 7 = Some (Thread_set_state Ready high_thread)"
proof -
  let ?e = "\<lparr>rq_thread_id = 2, rq_priority = Low, rq_time_slice = DEFAULT_TIME_SLICE\<rparr>"
  have new: "level RunQueue_new r = []" if "r < 5" for r
    using that by (simp add: level_def RunQueue_new_def)
  have lev: "level (rq_enqueue RunQueue_new ?e) r = (if r = 1 then [?e] else [])" if "r < 5" for r
    using rq_enqueue_level(2)[OF rq_inv_new, of ?e r] new that by (simp del: length_level)
  have inv: "rq_inv (run_queue high_sched)" "rq_order (run_queue high_sched) = ?e # []"
    using rq_enqueue_level(1)[OF rq_inv_new] by (simp_all add: high_sched_def rq_order_def lev)
  have "get_thread high_sched 7 = Some high_thread"
    by (simp add: high_sched_def get_thread_def slot_has_def high_thread_def Thread_set_state_def Thread_set_priority_def)
  then show ?thesis
    using scheduler_demotes_running[OF inv, of 7 high_thread 0 9]
    by (simp add: high_sched_def high_thread_def Thread_set_state_def Thread_set_priority_def)
qed

text \<open>
  The initial stack frame: for a stack of at least 32 bytes that does
  not wrap the address space, the two words \<open>Thread::new\<close> stores lie inside the
  stack, the saved stack pointer is 16-byte aligned and points at the zero
  return address, below the entry argument.
\<close>

lemma thread_stack_frame:
  assumes "unat base + unat sz < 2 ^ 64" "32 \<le> unat sz"
  shows "\<exists>t a b. Thread_new i ep arg (StackConfig_new base sz) = (t, [(a, arg), (b, 0)]) \<and>
    r_rsp (registers t) = b \<and> r_rip (registers t) = ep \<and> unat b mod 16 = 0 \<and> unat a = unat b + 8 \<and>
    unat base \<le> unat b \<and> unat a + 8 \<le> unat base + unat sz"
proof -
  define r where "r = (base + sz) AND NOT 0xF"
  have top: "unat (base + sz) = unat base + unat sz" using assms(1) by (subst unat_add_lem[symmetric]) simp
  have r: "unat r = (unat base + unat sz) div 16 * 16" unfolding r_def word_and_not_15 top ..
  have "unat base + 16 \<le> (unat base + unat sz) div 16 * 16" using assms(2) by simp
  with r have lo: "unat base + 16 \<le> unat r" by simp
  have a: "unat (r - 8) = unat r - 8" using lo by (simp add: unat_sub word_le_nat_alt)
  have b: "unat (r - 8 - 8) = unat r - 16" using lo a by (simp add: unat_sub word_le_nat_alt)
  have "unat (r - 8 - 8) mod 16 = 0" unfolding b using r lo by (simp add: mod_eq_0_iff_dvd)
  moreover have "unat r \<le> unat base + unat sz" using r by simp
  ultimately show ?thesis
    using a b lo by (simp add: Thread_new_def Thread_init_stack_def StackConfig_top_def StackConfig_new_def Let_def r_def)
qed

lemma thread_stack_frame_witness:
  "\<exists>t a b. Thread_new 1 0x1000 5 (StackConfig_new 0x8000 0x1000) = (t, [(a, 5), (b, 0)]) \<and>
    r_rsp (registers t) = b \<and> r_rip (registers t) = 0x1000 \<and> unat b mod 16 = 0 \<and> unat a = unat b + 8 \<and>
    unat (0x8000 :: u64) \<le> unat b \<and> unat a + 8 \<le> unat (0x8000 :: u64) + unat (0x1000 :: u64)"
  by (rule thread_stack_frame) simp_all

text \<open>
  The idle thread: with nothing to run, a fresh scheduler creates an
  idle thread on a stack of size zero at address zero.  Its initial frame is
  stored in the last sixteen bytes of the address space, and the thread is both
  current and queued, at normal priority.
\<close>

lemma scheduler_idle_thread:
  "\<exists>s'. schedule ie n Scheduler_new = (n + 1, s', Some n) \<and> current_thread s' = Some n \<and>
    rq_thread_id (hd (level (run_queue s') (prio_index Normal))) = n \<and>
    snd (Thread_new n ie 0 (StackConfig_new 0 0)) = [(0xFFFFFFFFFFFFFFF8, 0), (0xFFFFFFFFFFFFFFF0, 0)]"
proof -
  let ?e = "\<lparr>rq_thread_id = n, rq_priority = Normal, rq_time_slice = DEFAULT_TIME_SLICE\<rparr>"
  have new: "level RunQueue_new (prio_index Normal) = []" by (simp add: level_def RunQueue_new_def)
  have lev: "level (rq_enqueue RunQueue_new ?e) (prio_index Normal) = [?e]"
    using rq_enqueue_level(2)[OF rq_inv_new, of ?e 2] new by (simp del: length_level)
  have deq: "rq_dequeue RunQueue_new = (RunQueue_new, None)"
    using rq_dequeue_order[OF rq_inv_new] by (simp add: rq_order_def level_def RunQueue_new_def)
  have th: "threads Scheduler_new = None # replicate 1023 None"
    by (simp add: Scheduler_new_def MAX_THREADS_def flip: replicate_Suc)
  let ?t = "fst (Thread_new n ie 0 (StackConfig_new 0 0))"
  have t: "th_id ?t = n" "th_state ?t = Ready" "th_priority ?t = Normal"
    by (simp_all add: Thread_new_def Thread_init_stack_def Let_def)
  have f: "run_queue Scheduler_new = RunQueue_new" "current_thread Scheduler_new = None" "thread_count Scheduler_new = 0"
    by (simp_all add: Scheduler_new_def)
  have add: "add_thread Scheduler_new ?t = (Scheduler_new\<lparr>threads := Some ?t # replicate 1023 None, thread_count := 1,
      run_queue := rq_enqueue RunQueue_new ?e\<rparr>, Inr ())"
    by (simp add: add_thread_def th f enqueue_thread_def get_thread_def slot_has_def Thread_is_runnable_def t MAX_THREADS_def)
  have same: "Scheduler_new\<lparr>run_queue := RunQueue_new\<rparr> = Scheduler_new" by (simp add: Scheduler_new_def)
  have "snd (Thread_new n ie 0 (StackConfig_new 0 0)) = [(0xFFFFFFFFFFFFFFF8, 0), (0xFFFFFFFFFFFFFFF0, 0)]"
    by (simp add: Thread_new_def Thread_init_stack_def StackConfig_top_def StackConfig_new_def Let_def)
  then show ?thesis
    by (simp add: schedule_def f deq new_thread_id_def same add lev[simplified])
qed

end
