(* ===== verification/Sync.thy ===== *)
theory Sync
  imports Interfaces
begin

text \<open>
  Synchronisation primitives: the spin lock (\<open>sync/spinlock.rs\<close>) as a step
  relation over interleaved threads, the wait queue (\<open>sync/wait_queue.rs\<close>)
  with its in-place sorted insertion into a circular buffer, and the kernel
  event (\<open>sync/event.rs\<close>), whose waiters are again interleaved.
\<close>

section \<open>The wait queue\<close>

definition WAIT_OK :: "32 word" where "WAIT_OK = 0"
definition WAIT_TIMED_OUT :: "32 word" where "WAIT_TIMED_OUT = - 1"
definition WAIT_QUEUE_MAGIC :: u32 where "WAIT_QUEUE_MAGIC = 0x57414954"
definition MAX_QUEUE_DEPTH :: nat where "MAX_QUEUE_DEPTH = 256"

record WaitQueueEntry =
  waiter_id :: u64
  wq_priority :: u8
  wait_result :: "32 word"

record WaitQueueInner =
  wq_entries :: "WaitQueueEntry option list"
  wq_head :: nat
  wq_tail :: nat
  wq_size :: nat

record WaitQueue =
  wq_inner :: WaitQueueInner
  wq_magic :: u32
  wq_counter :: u64

definition WaitQueueInner_new :: WaitQueueInner where
  "WaitQueueInner_new = \<lparr>wq_entries = replicate MAX_QUEUE_DEPTH None, wq_head = 0, wq_tail = 0, wq_size = 0\<rparr>"

text \<open>
  The search of \<open>push_sorted\<close>: at most \<open>n\<close> cells, starting at \<open>current\<close>, for
  an entry of lower priority.
\<close>

fun push_scan :: "WaitQueueEntry option list \<Rightarrow> u8 \<Rightarrow> nat \<Rightarrow> nat \<Rightarrow> nat option" where
  "push_scan es pr 0 current = None"
| "push_scan es pr (Suc n) current =
     (if (case es ! current of Some existing \<Rightarrow> pr > wq_priority existing | None \<Rightarrow> False) then Some current
      else push_scan es pr n ((current + 1) mod MAX_QUEUE_DEPTH))"

text \<open>
  The loop \<open>while pos != insert_pos\<close>, with a bound on the number of its
  iterations; running out of it is \<open>None\<close>.
\<close>

fun push_shift :: "nat \<Rightarrow> WaitQueueEntry option list \<Rightarrow> nat \<Rightarrow> nat \<Rightarrow> WaitQueueEntry option list option" where
  "push_shift 0 es pos insert_pos = (if pos = insert_pos then Some es else None)"
| "push_shift (Suc n) es pos insert_pos =
     (if pos = insert_pos then Some es
      else let prev = (pos + MAX_QUEUE_DEPTH - 1) mod MAX_QUEUE_DEPTH
           in push_shift n (es[pos := es ! prev]) prev insert_pos)"

definition push_sorted :: "WaitQueueInner \<Rightarrow> WaitQueueEntry \<Rightarrow> WaitQueueInner outcome" where
  "push_sorted q entry =
     (if wq_size q \<ge> MAX_QUEUE_DEPTH then Return q
      else
        let insert_pos = (case push_scan (wq_entries q) (wq_priority entry) (wq_size q) (wq_tail q) of
                            Some c \<Rightarrow> c | None \<Rightarrow> wq_tail q)
        in case push_shift MAX_QUEUE_DEPTH (wq_entries q) (wq_tail q) insert_pos of
             None \<Rightarrow> Hang
           | Some es \<Rightarrow>
               Return (q\<lparr>wq_entries := es[insert_pos := Some entry],
                         wq_tail := (wq_tail q + 1) mod MAX_QUEUE_DEPTH, wq_size := wq_size q + 1\<rparr>))"

definition pop_front :: "WaitQueueInner \<Rightarrow> WaitQueueInner \<times> WaitQueueEntry option" where
  "pop_front q =
     (if wq_size q = 0 then (q, None)
      else (q\<lparr>wq_entries := (wq_entries q)[wq_head q := None],
              wq_head := (wq_head q + 1) mod MAX_QUEUE_DEPTH, wq_size := wq_size q - 1\<rparr>,
            wq_entries q ! wq_head q))"

definition peek_front :: "WaitQueueInner \<Rightarrow> WaitQueueEntry option" where
  "peek_front q = (if wq_size q = 0 then None else wq_entries q ! wq_head q)"

definition WaitQueue_new :: WaitQueue where
  "WaitQueue_new = \<lparr>wq_inner = WaitQueueInner_new, wq_magic = WAIT_QUEUE_MAGIC, wq_counter = 0\<rparr>"

definition wq_validate :: "WaitQueue \<Rightarrow> unit outcome" where
  "wq_validate w = (if wq_magic w \<noteq> WAIT_QUEUE_MAGIC then Panic ''wait_queue: invalid magic number'' else Return ())"

definition WaitQueue_len :: "WaitQueue \<Rightarrow> nat outcome" where
  "WaitQueue_len w = outcome_bind (wq_validate w) (\<lambda>_. Return (wq_size (wq_inner w)))"

definition WaitQueue_block :: "WaitQueue \<Rightarrow> u64 \<Rightarrow> u8 \<Rightarrow> u64 \<Rightarrow> (WaitQueue \<times> 32 word) outcome" where
  "WaitQueue_block w wid pr deadline =
     outcome_bind (wq_validate w) (\<lambda>_.
     outcome_bind (push_sorted (wq_inner w) \<lparr>waiter_id = wid, wq_priority = pr, wait_result = WAIT_OK\<rparr>) (\<lambda>q.
     Return (w\<lparr>wq_inner := q, wq_counter := wq_counter w + 1\<rparr>, WAIT_OK)))"

definition wake_one :: "WaitQueue \<Rightarrow> (WaitQueue \<times> u64 option) outcome" where
  "wake_one w =
     outcome_bind (wq_validate w) (\<lambda>_.
       case pop_front (wq_inner w) of
         (q, Some e) \<Rightarrow> Return (w\<lparr>wq_inner := q, wq_counter := wq_counter w - 1\<rparr>, Some (waiter_id e))
       | (q, None) \<Rightarrow> Return (w\<lparr>wq_inner := q\<rparr>, None))"

text \<open>The loop \<open>while let Some(_) = queue.pop_front()\<close>; \<open>n\<close> bounds its iterations.\<close>

fun drain :: "nat \<Rightarrow> WaitQueueInner \<Rightarrow> nat \<Rightarrow> (WaitQueueInner \<times> nat) outcome" where
  "drain 0 q count = Hang"
| "drain (Suc n) q count =
     (case pop_front q of (q', Some e) \<Rightarrow> drain n q' (count + 1) | (q', None) \<Rightarrow> Return (q', count))"

definition wake_all :: "WaitQueue \<Rightarrow> (WaitQueue \<times> nat) outcome" where
  "wake_all w =
     outcome_bind (wq_validate w) (\<lambda>_.
     outcome_bind (drain (Suc MAX_QUEUE_DEPTH) (wq_inner w) 0) (\<lambda>(q, count).
     Return (w\<lparr>wq_inner := q, wq_counter := wq_counter w - of_nat count\<rparr>, count)))"

section \<open>The wait queue as a list\<close>

definition wq_inv :: "WaitQueueInner \<Rightarrow> bool" where
  "wq_inv q \<longleftrightarrow> length (wq_entries q) = 256 \<and> wq_head q < 256 \<and> wq_size q \<le> 256 \<and>
     wq_tail q = (wq_head q + wq_size q) mod 256 \<and>
     (\<forall>i < 256. wq_entries q ! ((wq_head q + i) mod 256) \<noteq> None \<longleftrightarrow> i < wq_size q)"

definition wq_items :: "WaitQueueInner \<Rightarrow> WaitQueueEntry list" where
  "wq_items q = map the (ring_list (wq_entries q) 256 (wq_head q) (wq_size q))"

text \<open>
  Where \<open>push_sorted\<close> really inserts: before the first entry of lower priority
  among those the scan reaches, which are the first \<open>2 * size - 256\<close>.
\<close>

definition insert_index :: "WaitQueueEntry list \<Rightarrow> u8 \<Rightarrow> nat" where
  "insert_index xs pr =
     (case find_index (\<lambda>x. wq_priority x < pr) (take (2 * length xs - 256) xs) of Some i \<Rightarrow> i | None \<Rightarrow> length xs)"

lemma wq_inv_new: "wq_inv WaitQueueInner_new" "wq_items WaitQueueInner_new = []"
  by (auto simp: wq_inv_def wq_items_def WaitQueueInner_new_def MAX_QUEUE_DEPTH_def)

lemma length_wq_items [simp]: "length (wq_items q) = wq_size q"
  by (simp add: wq_items_def)

lemma wq_cell:
  assumes "wq_inv q" "i < wq_size q"
  shows "wq_entries q ! ((wq_head q + i) mod 256) = Some (wq_items q ! i)"
  using assms by (auto simp: wq_inv_def wq_items_def)

lemma push_scan_ring:
  "cur < 256 \<Longrightarrow> push_scan es pr n cur = map_option (\<lambda>j. (cur + j) mod 256)
     (find_index (\<lambda>x. case x of Some e \<Rightarrow> wq_priority e < pr | None \<Rightarrow> False) (ring_list es 256 cur n))"
proof (induction n arbitrary: cur)
  case (Suc n)
  have "ring_list es 256 cur (Suc n) = es ! cur # ring_list es 256 ((cur + 1) mod 256) n"
    using ring_list_Cons[of "Suc n" es 256 cur] Suc.prems by simp
  then show ?case
    using Suc.IH[of "(cur + 1) mod 256"] Suc.prems
    by (auto simp: MAX_QUEUE_DEPTH_def option.map_comp o_def mod_simps split: option.splits)
qed simp

lemma find_index_append:
  "find_index P (xs @ ys) = (case find_index P xs of Some i \<Rightarrow> Some i | None \<Rightarrow> map_option (\<lambda>i. i + length xs) (find_index P ys))"
  by (induction xs) (auto split: option.splits simp: option.map_comp o_def option.map_ident)

lemma find_index_map: "find_index P (map f xs) = find_index (P o f) xs"
  by (induction xs) auto

text \<open>The cells the scan visits: free ones first, then the live ones from the head.\<close>

lemma scan_cells:
  assumes "wq_inv q" "wq_size q < 256"
  defines "n \<equiv> wq_size q"
  shows "ring_list (wq_entries q) 256 (wq_tail q) n =
    replicate (min n (256 - n)) None @ map Some (take (2 * n - 256) (wq_items q))"
proof (rule nth_equalityI)
  show "length (ring_list (wq_entries q) 256 (wq_tail q) n) =
      length (replicate (min n (256 - n)) None @ map Some (take (2 * n - 256) (wq_items q)))"
    using assms(2) by (simp add: n_def)
next
  fix j assume "j < length (ring_list (wq_entries q) 256 (wq_tail q) n)"
  then have j: "j < n" by simp
  have idx: "(wq_tail q + j) mod 256 = (wq_head q + (n + j)) mod 256"
    using assms(1) by (simp add: wq_inv_def n_def mod_simps add.assoc)
  show "ring_list (wq_entries q) 256 (wq_tail q) n ! j =
      (replicate (min n (256 - n)) None @ map Some (take (2 * n - 256) (wq_items q))) ! j"
  proof (cases "n + j < 256")
    case True
    then have "wq_entries q ! ((wq_head q + (n + j)) mod 256) = None" using assms(1) by (auto simp: wq_inv_def n_def)
    with True j idx show ?thesis by (simp add: nth_append less_diff_conv add.commute)
  next
    case False
    have "(wq_head q + (n + j)) mod 256 = (wq_head q + (n + j - 256) + 256) mod 256" using False by simp
    also have "\<dots> = (wq_head q + (n + j - 256)) mod 256" by (rule mod_add_self2)
    finally have "(wq_tail q + j) mod 256 = (wq_head q + (n + j - 256)) mod 256" using idx by simp
    moreover have "n + j - 256 < wq_size q" using j assms(2) by (simp add: n_def)
    ultimately show ?thesis using wq_cell[OF assms(1), of "n + j - 256"] j False assms(2)
      by (simp add: nth_append n_def algebra_simps less_diff_conv)
  qed
qed

lemma push_position:
  assumes "wq_inv q" "wq_size q < 256"
  shows "(case push_scan (wq_entries q) pr (wq_size q) (wq_tail q) of Some c \<Rightarrow> c | None \<Rightarrow> wq_tail q) =
    (wq_head q + insert_index (wq_items q) pr) mod 256"
proof -
  have t: "wq_tail q = (wq_head q + wq_size q) mod 256" "wq_tail q < 256" using assms(1) by (auto simp: wq_inv_def)
  let ?n = "wq_size q"
  have f: "push_scan (wq_entries q) pr ?n (wq_tail q) = map_option (\<lambda>i. (wq_tail q + (i + min ?n (256 - ?n))) mod 256)
      (find_index (\<lambda>x. wq_priority x < pr) (take (2 * ?n - 256) (wq_items q)))"
    by (simp add: push_scan_ring[OF t(2)] scan_cells[OF assms] find_index_append find_index_map option.map_comp o_def)
  show ?thesis
  proof (cases "find_index (\<lambda>x. wq_priority x < pr) (take (2 * ?n - 256) (wq_items q))")
    case None
    with f show ?thesis by (simp add: insert_index_def t(1))
  next
    case (Some i)
    from find_index_SomeD[OF Some] have "i < 2 * ?n - 256" by simp
    then have "min ?n (256 - ?n) = 256 - ?n" using assms(2) by simp
    then have "(wq_tail q + (i + min ?n (256 - ?n))) mod 256 = (wq_head q + ?n + (i + (256 - ?n))) mod 256"
      by (simp add: t(1) mod_add_left_eq)
    also have "wq_head q + ?n + (i + (256 - ?n)) = wq_head q + i + 256" using assms(2) by simp
    finally show ?thesis using f Some by (simp add: insert_index_def)
  qed
qed

lemma push_shift_ring:
  assumes "i \<le> m" "m < 256"
  shows "length es = 256 \<Longrightarrow> m - i \<le> fuel \<Longrightarrow> \<exists>es'. push_shift fuel es ((h + m) mod 256) ((h + i) mod 256) = Some es' \<and>
    length es' = 256 \<and> (\<forall>j < 256. es' ! ((h + j) mod 256) =
      (if i < j \<and> j \<le> m then es ! ((h + (j - 1)) mod 256) else es ! ((h + j) mod 256)))"
  using assms
proof (induction m arbitrary: es fuel)
  case 0
  then show ?case by (cases fuel) auto
next
  case (Suc m)
  show ?case
  proof (cases "i = Suc m")
    case True
    then show ?thesis using Suc.prems by (cases fuel) auto
  next
    case False
    with Suc.prems obtain f where f: "fuel = Suc f" "m - i \<le> f" "i \<le> m" by (cases fuel) auto
    let ?pos = "(h + Suc m) mod 256"
    have ne: "?pos \<noteq> (h + i) mod 256" using ring_index_inj[of h "Suc m" 256 i] Suc.prems f by auto
    have "(?pos + 256 - 1) mod 256 = (?pos + 255) mod 256" by (simp add: add.commute)
    also have "\<dots> = (h + Suc m + 255) mod 256" by (simp only: mod_add_left_eq)
    also have "h + Suc m + 255 = h + m + 256" by simp
    finally have prev: "(?pos + 256 - 1) mod 256 = (h + m) mod 256" by simp
    let ?es = "es[?pos := es ! ((h + m) mod 256)]"
    have step: "push_shift fuel es ?pos ((h + i) mod 256) = push_shift f ?es ((h + m) mod 256) ((h + i) mod 256)"
      using ne prev by (simp add: f(1) Let_def MAX_QUEUE_DEPTH_def)
    have "length ?es = 256" "m < 256" using Suc.prems by simp_all
    from Suc.IH[OF this(1) f(2,3) this(2)] obtain es' where es': "push_shift f ?es ((h + m) mod 256) ((h + i) mod 256) = Some es'"
      "length es' = 256" "\<And>j. j < 256 \<Longrightarrow> es' ! ((h + j) mod 256) =
        (if i < j \<and> j \<le> m then ?es ! ((h + (j - 1)) mod 256) else ?es ! ((h + j) mod 256))" by blast
    have upd: "?es ! ((h + j) mod 256) = (if j = Suc m then es ! ((h + m) mod 256) else es ! ((h + j) mod 256))"
      if "j < 256" for j
    proof (cases "j = Suc m")
      case True
      then show ?thesis using Suc.prems(1) by simp
    next
      case False
      then have "(h + j) mod 256 \<noteq> ?pos" using ring_index_inj[of h j 256 "Suc m"] Suc.prems(4) that by blast
      with False show ?thesis by simp
    qed
    have "es' ! ((h + j) mod 256) =
        (if i < j \<and> j \<le> Suc m then es ! ((h + (j - 1)) mod 256) else es ! ((h + j) mod 256))" if "j < 256" for j
    proof -
      have "j - 1 < 256" using that by simp
      consider "j = Suc m" | "j \<le> m" | "Suc m < j" by linarith
      then show ?thesis
        using es'(3)[OF that] f(3) unfolding upd[OF that] upd[OF \<open>j - 1 < 256\<close>] by cases simp_all
    qed
    then show ?thesis unfolding step using es'(1,2) by blast
  qed
qed

lemma push_sorted_items:
  assumes "wq_inv q" "wq_size q < 256"
  shows "\<exists>q'. push_sorted q e = Return q' \<and> wq_inv q' \<and>
    wq_items q' = (let i = insert_index (wq_items q) (wq_priority e) in take i (wq_items q) @ e # drop i (wq_items q))"
proof -
  let ?h = "wq_head q" and ?n = "wq_size q" and ?xs = "wq_items q"
  define i where "i = insert_index ?xs (wq_priority e)"
  have i: "i \<le> ?n"
    by (auto simp: i_def insert_index_def split: option.splits dest!: find_index_SomeD)
  have shape: "length (wq_entries q) = 256" "?h < 256" "wq_tail q = (?h + ?n) mod 256" using assms(1) by (auto simp: wq_inv_def)
  have "?n - i \<le> 256" using assms(2) by simp
  from push_shift_ring[OF i assms(2) shape(1) this, of ?h] obtain es where
    es: "push_shift 256 (wq_entries q) ((?h + ?n) mod 256) ((?h + i) mod 256) = Some es" "length es = 256"
      "\<And>j. j < 256 \<Longrightarrow> es ! ((?h + j) mod 256) =
        (if i < j \<and> j \<le> ?n then wq_entries q ! ((?h + (j - 1)) mod 256) else wq_entries q ! ((?h + j) mod 256))" by blast
  define q' where "q' = q\<lparr>wq_entries := es[(?h + i) mod 256 := Some e], wq_tail := (wq_tail q + 1) mod 256, wq_size := ?n + 1\<rparr>"
  have run: "push_sorted q e = Return q'"
    using es(1) assms(2) push_position[OF assms, of "wq_priority e"]
    by (simp add: push_sorted_def Let_def MAX_QUEUE_DEPTH_def shape(3) q'_def i_def[symmetric])
  have cell: "wq_entries q' ! ((?h + j) mod 256) = (if j = i then Some e else es ! ((?h + j) mod 256))" if "j < 256" for j
  proof (cases "j = i")
    case True
    then show ?thesis using es(2) by (simp add: q'_def)
  next
    case False
    have "i < 256" using i assms(2) by simp
    with False have "(?h + j) mod 256 \<noteq> (?h + i) mod 256" using ring_index_inj[of ?h j 256 i] that by blast
    with False show ?thesis by (simp add: q'_def)
  qed
  have live: "wq_entries q' ! ((?h + j) mod 256) = Some ((take i ?xs @ e # drop i ?xs) ! j)" if "j \<le> ?n" for j
  proof -
    consider "j < i" | "j = i" | "i < j" by linarith
    then show ?thesis
    proof cases
      case 1
      then show ?thesis using cell[of j] es(3)[of j] wq_cell[OF assms(1), of j] that i assms(2) by (simp add: nth_append)
    next
      case 2
      then show ?thesis using cell[of j] that i assms(2) by (simp add: nth_append)
    next
      case 3
      then have "(take i ?xs @ e # drop i ?xs) ! j = ?xs ! (j - 1)"
        using that i by (simp add: nth_append nth_Cons' Suc_diff_Suc)
      then show ?thesis using 3 cell[of j] es(3)[of j] wq_cell[OF assms(1), of "j - 1"] that assms(2) by simp
    qed
  qed
  have dead: "wq_entries q' ! ((?h + j) mod 256) = None" if "?n < j" "j < 256" for j
    using cell[of j] es(3)[of j] that i assms(1) by (auto simp: wq_inv_def)
  have fields: "wq_head q' = ?h" "wq_size q' = Suc ?n" "length (wq_entries q') = 256" "wq_tail q' = (?h + Suc ?n) mod 256"
    using es(2) by (simp_all add: q'_def shape(3) mod_Suc_eq)
  have "wq_entries q' ! ((?h + j) mod 256) \<noteq> None \<longleftrightarrow> j < Suc ?n" if "j < 256" for j
    using live[of j] dead[of j] that by (cases "j \<le> ?n") auto
  then have "wq_inv q'" using assms(2) shape(2) by (simp add: wq_inv_def fields)
  moreover have "wq_items q' = take i ?xs @ e # drop i ?xs"
    by (rule nth_equalityI) (use i live in \<open>auto simp: wq_items_def fields\<close>)
  ultimately show ?thesis using run by (auto simp: i_def Let_def)
qed

lemma pop_front_items:
  assumes "wq_inv q"
  shows "case wq_items q of
      [] \<Rightarrow> pop_front q = (q, None)
    | x # xs \<Rightarrow> (\<exists>q'. pop_front q = (q', Some x) \<and> wq_inv q' \<and> wq_items q' = xs)"
proof (cases "wq_size q = 0")
  case True
  then show ?thesis by (simp add: wq_items_def pop_front_def)
next
  case False
  let ?h = "wq_head q" and ?n = "wq_size q"
  define q' where "q' = q\<lparr>wq_entries := (wq_entries q)[?h := None], wq_head := (?h + 1) mod 256, wq_size := ?n - 1\<rparr>"
  have shape: "length (wq_entries q) = 256" "?h < 256" "?n \<le> 256" using assms by (auto simp: wq_inv_def)
  have cell: "wq_entries q' ! ((wq_head q' + j) mod 256) = (if j = 255 then None else wq_entries q ! ((?h + Suc j) mod 256))"
    if "j < 256" for j
  proof -
    have "(wq_head q' + j) mod 256 = (?h + Suc j) mod 256" by (simp add: q'_def mod_simps)
    moreover have "(?h + Suc j) mod 256 = ?h \<longleftrightarrow> j = 255"
    proof
      assume "(?h + Suc j) mod 256 = ?h"
      then have "(?h + Suc j) mod 256 = (?h + 0) mod 256" using shape(2) by simp
      then show "j = 255" using ring_index_inj[of ?h "Suc j" 256 0] that by (cases "j = 255") auto
    qed (use shape(2) in \<open>simp\<close>)
    ultimately show ?thesis using shape by (auto simp: q'_def nth_list_update)
  qed
  obtain m where m: "?n = Suc m" using False by (cases ?n) auto
  have "wq_tail q' = (wq_head q' + wq_size q') mod 256"
    using assms by (simp add: q'_def wq_inv_def m mod_simps)
  moreover have "wq_entries q' ! ((wq_head q' + j) mod 256) \<noteq> None \<longleftrightarrow> j < wq_size q'" if "j < 256" for j
  proof (cases "j = 255")
    case True
    with cell[OF that] shape(3) m show ?thesis by (simp add: q'_def)
  next
    case False
    with that have "Suc j < 256" by simp
    with assms have "wq_entries q ! ((?h + Suc j) mod 256) \<noteq> None \<longleftrightarrow> Suc j < ?n"
      unfolding wq_inv_def by blast
    with False cell[OF that] m show ?thesis by (simp add: q'_def)
  qed
  ultimately have inv: "wq_inv q'" using shape False by (simp add: wq_inv_def) (simp add: q'_def)
  have "ring_list (wq_entries q') 256 (wq_head q') (?n - 1) = ring_list (wq_entries q) 256 ((?h + 1) mod 256) (?n - 1)"
    by (rule nth_equalityI) (use cell shape(3) in \<open>auto simp: mod_simps\<close>)
  moreover have "wq_size q' = ?n - 1" by (simp add: q'_def)
  ultimately have items: "wq_items q = the (wq_entries q ! ?h) # wq_items q'"
    using ring_list_Cons[of ?n "wq_entries q" 256 ?h] False shape(2) by (simp add: wq_items_def)
  have "wq_entries q ! ?h \<noteq> None" using assms False shape(2) by (auto simp: wq_inv_def dest: spec[of _ 0])
  then have "pop_front q = (q', Some (the (wq_entries q ! ?h)))"
    using False by (simp add: pop_front_def q'_def MAX_QUEUE_DEPTH_def)
  with items inv show ?thesis by auto
qed

lemma drain_items:
  assumes "wq_inv q" "wq_size q < n"
  shows "\<exists>q'. drain n q c = Return (q', c + wq_size q) \<and> wq_inv q' \<and> wq_items q' = []"
  using assms
proof (induction n arbitrary: q c)
  case (Suc n)
  show ?case
  proof (cases "wq_items q")
    case Nil
    then show ?thesis
      using pop_front_items[OF Suc.prems(1)] Suc.prems(1) length_wq_items[of q] by simp
  next
    case (Cons x xs)
    with pop_front_items[OF Suc.prems(1)] obtain q' where q': "pop_front q = (q', Some x)" "wq_inv q'" "wq_items q' = xs" by auto
    have "wq_size q = Suc (wq_size q')" using Cons q'(3) length_wq_items[of q] length_wq_items[of q'] by simp
    with Suc.IH[OF q'(2), of "c + 1"] Suc.prems(2) q'(1) show ?thesis by auto
  qed
qed simp

section \<open>The spin lock\<close>

record 'a SpinMutex =
  sm_locked :: bool
  sm_data :: 'a

definition SpinMutex_new :: "'a \<Rightarrow> 'a SpinMutex" where
  "SpinMutex_new d = \<lparr>sm_locked = False, sm_data = d\<rparr>"

text \<open>\<open>compare_exchange(false, true)\<close>: the new state and whether it succeeded; both \<open>lock\<close> and \<open>try_lock\<close> rest on it.\<close>

definition cas_lock :: "'a SpinMutex \<Rightarrow> 'a SpinMutex \<times> bool" where
  "cas_lock m = (if \<not> sm_locked m then (m\<lparr>sm_locked := True\<rparr>, True) else (m, False))"

definition guard_drop :: "'a SpinMutex \<Rightarrow> 'a SpinMutex" where
  "guard_drop m = m\<lparr>sm_locked := False\<rparr>"

datatype lock_phase = Outside | Spinning | Holding

text \<open>
  One atomic action of thread \<open>t\<close>: entering \<open>lock\<close>, an iteration of its loop,
  \<open>try_lock\<close>, an access through the guard, and dropping the guard.
\<close>

inductive lock_step :: "nat \<Rightarrow> 'a SpinMutex \<times> (nat \<Rightarrow> lock_phase) \<Rightarrow> 'a SpinMutex \<times> (nat \<Rightarrow> lock_phase) \<Rightarrow> bool" where
  lock_call: "ph t = Outside \<Longrightarrow> lock_step t (m, ph) (m, ph(t := Spinning))"
| lock_acquire: "ph t = Spinning \<Longrightarrow> cas_lock m = (m', True) \<Longrightarrow> lock_step t (m, ph) (m', ph(t := Holding))"
| lock_spin: "ph t = Spinning \<Longrightarrow> cas_lock m = (m', False) \<Longrightarrow> lock_step t (m, ph) (m', ph)"
| try_lock_ok: "ph t = Outside \<Longrightarrow> cas_lock m = (m', True) \<Longrightarrow> lock_step t (m, ph) (m', ph(t := Holding))"
| try_lock_fail: "ph t = Outside \<Longrightarrow> cas_lock m = (m', False) \<Longrightarrow> lock_step t (m, ph) (m', ph)"
| guard_write: "ph t = Holding \<Longrightarrow> lock_step t (m, ph) (m\<lparr>sm_data := v\<rparr>, ph)"
| guard_release: "ph t = Holding \<Longrightarrow> lock_step t (m, ph) (guard_drop m, ph(t := Outside))"

inductive_cases lock_stepE: "lock_step t (m, ph) s'"

inductive lock_reach :: "'a \<Rightarrow> 'a SpinMutex \<times> (nat \<Rightarrow> lock_phase) \<Rightarrow> bool" where
  reach_init: "lock_reach d (SpinMutex_new d, \<lambda>_. Outside)"
| reach_step: "lock_reach d s \<Longrightarrow> lock_step t s s' \<Longrightarrow> lock_reach d s'"

definition lock_inv :: "'a SpinMutex \<times> (nat \<Rightarrow> lock_phase) \<Rightarrow> bool" where
  "lock_inv s = (case s of (m, ph) \<Rightarrow>
     (\<forall>t u. ph t = Holding \<and> ph u = Holding \<longrightarrow> t = u) \<and> (sm_locked m \<longleftrightarrow> (\<exists>t. ph t = Holding)))"

lemma cas_lockD:
  "cas_lock m = (m', True) \<Longrightarrow> \<not> sm_locked m \<and> m' = m\<lparr>sm_locked := True\<rparr>"
  "cas_lock m = (m', False) \<Longrightarrow> sm_locked m \<and> m' = m"
  by (auto simp: cas_lock_def split: if_splits)

lemma lock_inv_step: "lock_step t s s' \<Longrightarrow> lock_inv s \<Longrightarrow> lock_inv s'"
proof (induction rule: lock_step.induct)
  case (lock_call ph t m)
  have "(ph(t := Spinning)) u = Holding \<longleftrightarrow> ph u = Holding" for u using lock_call(1) by auto
  with lock_call(2) show ?case unfolding lock_inv_def prod.case by blast
next
  case (guard_release ph t m)
  then have "\<forall>u. ph u = Holding \<longrightarrow> u = t" by (auto simp: lock_inv_def)
  then show ?case by (auto simp: lock_inv_def guard_drop_def)
qed (auto simp: lock_inv_def dest!: cas_lockD)

lemma lock_reach_inv: "lock_reach d s \<Longrightarrow> lock_inv s"
proof (induction rule: lock_reach.induct)
  case (reach_init d)
  then show ?case by (simp add: lock_inv_def SpinMutex_new_def)
next
  case (reach_step d s t s')
  then show ?case using lock_inv_step by blast
qed

section \<open>Events\<close>

record EventFlags =
  auto_unsignal :: bool
  ev_reserved :: u32

definition EventFlags_empty :: EventFlags where "EventFlags_empty = \<lparr>auto_unsignal = False, ev_reserved = 0\<rparr>"
definition EventFlags_auto_unsignal :: EventFlags where "EventFlags_auto_unsignal = \<lparr>auto_unsignal = True, ev_reserved = 0\<rparr>"

definition EventFlags_into_raw :: "EventFlags \<Rightarrow> u32" where
  "EventFlags_into_raw f = (if auto_unsignal f then or 0 0x01 else 0)"

definition EventFlags_from_raw :: "u32 \<Rightarrow> EventFlags" where
  "EventFlags_from_raw bits = \<lparr>auto_unsignal = (and bits 0x01 \<noteq> 0), ev_reserved = 0\<rparr>"

definition EVENT_MAGIC :: u32 where "EVENT_MAGIC = 0x45564E54"

record Event =
  ev_signaled :: bool
  ev_flags :: u32
  ev_magic :: u32
  ev_waiter_count :: u64

definition Event_new :: "bool \<Rightarrow> EventFlags \<Rightarrow> Event" where
  "Event_new initial f =
     \<lparr>ev_signaled = initial, ev_flags = EventFlags_into_raw f, ev_magic = EVENT_MAGIC, ev_waiter_count = 0\<rparr>"

definition Event_init :: "Event \<Rightarrow> bool \<Rightarrow> EventFlags \<Rightarrow> Event" where
  "Event_init e initial f =
     e\<lparr>ev_signaled := initial, ev_flags := EventFlags_into_raw f, ev_magic := EVENT_MAGIC, ev_waiter_count := 0\<rparr>"

definition Event_validate :: "Event \<Rightarrow> unit outcome" where
  "Event_validate e = (if ev_magic e \<noteq> EVENT_MAGIC then Panic ''event: invalid magic number'' else Return ())"

definition Event_destroy :: "Event \<Rightarrow> unit outcome" where
  "Event_destroy e = outcome_bind (Event_validate e) (\<lambda>_.
     if ev_waiter_count e > 0 then Panic ''event_destroy: threads still waiting'' else Return ())"

definition Event_signal :: "Event \<Rightarrow> Event outcome" where
  "Event_signal e = outcome_bind (Event_validate e) (\<lambda>_. Return (e\<lparr>ev_signaled := True\<rparr>))"

definition Event_unsignal :: "Event \<Rightarrow> Event outcome" where
  "Event_unsignal e = outcome_bind (Event_validate e) (\<lambda>_. Return (e\<lparr>ev_signaled := False\<rparr>))"

definition Event_is_signaled :: "Event \<Rightarrow> bool outcome" where
  "Event_is_signaled e = outcome_bind (Event_validate e) (\<lambda>_. Return (ev_signaled e))"

text \<open>
  \<open>wait\<close> in its three parts: counting the waiter, the test of the spin loop,
  and the final critical section that uncounts it and may reset the event.
\<close>

definition wait_enter :: "Event \<Rightarrow> Event outcome" where
  "wait_enter e = outcome_bind (Event_validate e) (\<lambda>_. Return (e\<lparr>ev_waiter_count := ev_waiter_count e + 1\<rparr>))"

definition wait_test :: "Event \<Rightarrow> bool" where "wait_test e = ev_signaled e"

definition wait_leave :: "Event \<Rightarrow> Event" where
  "wait_leave e =
     (let count = ev_waiter_count e - 1;
          e1 = e\<lparr>ev_waiter_count := count\<rparr>
      in if auto_unsignal (EventFlags_from_raw (ev_flags e1)) \<and> count = 0 then e1\<lparr>ev_signaled := False\<rparr> else e1)"

datatype wait_phase = NotWaiting | Waiting | Passed

datatype event_action = Enter nat | Test nat | Leave nat | Signal | Unsignal

fun event_step :: "event_action \<Rightarrow> Event \<times> (nat \<Rightarrow> wait_phase) \<Rightarrow> (Event \<times> (nat \<Rightarrow> wait_phase)) outcome" where
  "event_step (Enter t) (e, ph) =
     (if ph t = NotWaiting then outcome_bind (wait_enter e) (\<lambda>e'. Return (e', ph(t := Waiting))) else Return (e, ph))"
| "event_step (Test t) (e, ph) =
     Return (e, if ph t = Waiting \<and> wait_test e then ph(t := Passed) else ph)"
| "event_step (Leave t) (e, ph) =
     Return (if ph t = Passed then (wait_leave e, ph(t := NotWaiting)) else (e, ph))"
| "event_step Signal (e, ph) = outcome_bind (Event_signal e) (\<lambda>e'. Return (e', ph))"
| "event_step Unsignal (e, ph) = outcome_bind (Event_unsignal e) (\<lambda>e'. Return (e', ph))"

fun event_run :: "event_action list \<Rightarrow> Event \<times> (nat \<Rightarrow> wait_phase) \<Rightarrow> (Event \<times> (nat \<Rightarrow> wait_phase)) outcome" where
  "event_run [] s = Return s"
| "event_run (a # as) s = outcome_bind (event_step a s) (event_run as)"

definition event_inv :: "Event \<times> (nat \<Rightarrow> wait_phase) \<Rightarrow> bool" where
  "event_inv s = (case s of (e, ph) \<Rightarrow> ev_magic e = EVENT_MAGIC \<and> finite {t. ph t \<noteq> NotWaiting} \<and>
     ev_waiter_count e = of_nat (card {t. ph t \<noteq> NotWaiting}))"

lemma waiting_set_upd:
  "p \<noteq> NotWaiting \<Longrightarrow> {u. (ph(t := p)) u \<noteq> NotWaiting} = insert t {u. ph u \<noteq> NotWaiting}"
  "{u. (ph(t := NotWaiting)) u \<noteq> NotWaiting} = {u. ph u \<noteq> NotWaiting} - {t}"
  by auto

lemma event_step_inv:
  assumes "event_inv s"
  shows "\<exists>s'. event_step a s = Return s' \<and> event_inv s'"
proof -
  obtain e ph where s: "s = (e, ph)" by fastforce
  let ?W = "{t. ph t \<noteq> NotWaiting}"
  have i: "ev_magic e = EVENT_MAGIC" "finite ?W" "ev_waiter_count e = of_nat (card ?W)"
    using assms by (auto simp: s event_inv_def)
  show ?thesis
  proof (cases a)
    case (Enter t)
    show ?thesis
    proof (cases "ph t = NotWaiting")
      case True
      have "event_inv (e\<lparr>ev_waiter_count := ev_waiter_count e + 1\<rparr>, ph(t := Waiting))"
        unfolding event_inv_def prod.case waiting_set_upd(1)[OF wait_phase.distinct(2)] using i True by simp
      then show ?thesis using Enter True i(1) by (simp add: s wait_enter_def Event_validate_def)
    qed (use Enter assms s in simp)
  next
    case (Test t)
    have "event_inv (e, ph(t := Passed))" if "ph t = Waiting"
    proof -
      have "insert t ?W = ?W" using that by auto
      then show ?thesis
        unfolding event_inv_def prod.case waiting_set_upd(1)[OF wait_phase.distinct(4)] using i by simp
    qed
    with Test assms show ?thesis by (auto simp: s)
  next
    case (Leave t)
    have "event_inv (wait_leave e, ph(t := NotWaiting))" if p: "ph t = Passed"
    proof -
      have "t \<in> ?W" using p by simp
      then have "Suc (card (?W - {t})) = card ?W" using i(2) by (simp only: card_Suc_Diff1)
      then have "(of_nat (card ?W) :: u64) = of_nat (Suc (card (?W - {t})))" by simp
      then have "ev_waiter_count e - 1 = of_nat (card (?W - {t}))" using i(3) by simp
      then show ?thesis unfolding event_inv_def prod.case waiting_set_upd(2)
        using i(1,2) by (simp add: wait_leave_def Let_def)
    qed
    with Leave assms show ?thesis by (auto simp: s)
  qed (use i in \<open>auto simp: s Event_signal_def Event_unsignal_def Event_validate_def event_inv_def\<close>)
qed

lemma event_run_inv: "event_inv s \<Longrightarrow> \<exists>s'. event_run as s = Return s' \<and> event_inv s'"
proof (induction as arbitrary: s)
  case (Cons a as)
  from event_step_inv[OF Cons.prems, of a] obtain s1 where "event_step a s = Return s1" "event_inv s1" by blast
  with Cons.IH[of s1] show ?case by simp
qed simp

lemma event_inv_new: "event_inv (Event_new b f, \<lambda>_. NotWaiting)"
  by (simp add: event_inv_def Event_new_def)

section \<open>Properties\<close>

text \<open>
  Claim C18 (spin lock): in every state reached by interleaved calls of
  \<open>lock\<close>, \<open>try_lock\<close>, guard accesses and guard drops, at most one thread
  holds the lock, the flag is set exactly when one does, and a step of any other
  thread changes neither the protected data nor the holder.
\<close>

theorem spinlock_mutual_exclusion:
  assumes "lock_reach d (m, ph)"
  shows "(\<forall>t u. ph t = Holding \<and> ph u = Holding \<longrightarrow> t = u) \<and> (sm_locked m \<longleftrightarrow> (\<exists>t. ph t = Holding)) \<and>
    (\<forall>t u m' ph'. ph t = Holding \<and> u \<noteq> t \<and> lock_step u (m, ph) (m', ph') \<longrightarrow>
       sm_data m' = sm_data m \<and> ph' t = Holding)"
proof -
  have inv: "\<forall>t u. ph t = Holding \<and> ph u = Holding \<longrightarrow> t = u" "sm_locked m \<longleftrightarrow> (\<exists>t. ph t = Holding)"
    using lock_reach_inv[OF assms] by (auto simp: lock_inv_def)
  have "sm_data m' = sm_data m \<and> ph' t = Holding"
    if "ph t = Holding" "u \<noteq> t" "lock_step u (m, ph) (m', ph')" for t u m' ph'
  proof -
    have "ph u \<noteq> Holding" using inv(1) that by blast
    with that(3) that(1,2) show ?thesis by (elim lock_stepE) (auto dest!: cas_lockD)
  qed
  with inv show ?thesis by blast
qed

theorem spinlock_mutual_exclusion_witness:
  "lock_reach (0 :: nat) (SpinMutex_new 0\<lparr>sm_locked := True\<rparr>, (\<lambda>_. Outside)(7 := Holding)) \<and>
   sm_locked (SpinMutex_new (0 :: nat)\<lparr>sm_locked := True\<rparr>) = (\<exists>t :: nat. ((\<lambda>_. Outside)(7 := Holding)) t = Holding)"
proof -
  have "lock_step 7 (SpinMutex_new (0 :: nat), \<lambda>_. Outside) (SpinMutex_new 0\<lparr>sm_locked := True\<rparr>, (\<lambda>_. Outside)(7 := Holding))"
    by (rule try_lock_ok) (simp_all add: cas_lock_def SpinMutex_new_def)
  from reach_step[OF reach_init this]
  have r: "lock_reach (0 :: nat) (SpinMutex_new 0\<lparr>sm_locked := True\<rparr>, (\<lambda>_. Outside)(7 := Holding))" .
  from spinlock_mutual_exclusion[OF r] r show ?thesis by blast
qed

text \<open>
  Claim C19 (sorted insertion): blocking on a wait queue that is not full always
  returns, keeps the buffer well-formed, and inserts the waiter before the first
  waiter of lower priority among the first \<open>2 * size - 256\<close> entries, at the end
  if there is none.  Because the scan starts at the tail instead of the head,
  no entry is inspected while at most 128 threads wait: up to then the queue is
  first-in first-out whatever the priorities, not priority ordered.
\<close>

theorem wait_queue_insertion:
  fixes wid :: u64 and pr :: u8 and w :: WaitQueue
  assumes "wq_inv (wq_inner w)" "wq_magic w = WAIT_QUEUE_MAGIC" "wq_size (wq_inner w) < 256"
  defines "e \<equiv> \<lparr>waiter_id = wid, wq_priority = pr, wait_result = WAIT_OK\<rparr>"
    and "i \<equiv> insert_index (wq_items (wq_inner w)) pr"
  shows "\<exists>w'. WaitQueue_block w wid pr dl = Return (w', WAIT_OK) \<and> wq_inv (wq_inner w') \<and>
    wq_items (wq_inner w') = take i (wq_items (wq_inner w)) @ e # drop i (wq_items (wq_inner w)) \<and>
    (wq_size (wq_inner w) \<le> 128 \<longrightarrow> wq_items (wq_inner w') = wq_items (wq_inner w) @ [e]) \<and>
    wq_magic w' = WAIT_QUEUE_MAGIC \<and> wq_counter w' = wq_counter w + 1"
proof -
  from push_sorted_items[OF assms(1,3), of e] obtain q where
    q: "push_sorted (wq_inner w) e = Return q" "wq_inv q"
      "wq_items q = take i (wq_items (wq_inner w)) @ e # drop i (wq_items (wq_inner w))"
    by (auto simp: Let_def e_def i_def)
  have "i = wq_size (wq_inner w)" if "wq_size (wq_inner w) \<le> 128"
    using that by (simp add: i_def insert_index_def)
  with q assms(2) show ?thesis by (auto simp: WaitQueue_block_def wq_validate_def e_def)
qed

theorem wait_queue_insertion_witness:
  "\<exists>w'. WaitQueue_block WaitQueue_new 5 20 0 = Return (w', WAIT_OK) \<and>
    wq_items (wq_inner w') = [\<lparr>waiter_id = 5, wq_priority = 20, wait_result = WAIT_OK\<rparr>]"
  using wait_queue_insertion[of WaitQueue_new 5 20 0] wq_inv_new
  by (auto simp: WaitQueue_new_def WaitQueueInner_new_def)

text \<open>
  Claim C20 (waking): \<open>wake_one\<close> takes the front waiter and \<open>wake_all\<close> always
  ends, reporting and removing all of them; both keep the buffer well-formed.
\<close>

theorem wait_queue_wake:
  assumes "wq_inv (wq_inner w)" "wq_magic w = WAIT_QUEUE_MAGIC"
  shows "(\<exists>w1. wake_one w = Return (w1, map_option waiter_id (find (\<lambda>_. True) (wq_items (wq_inner w)))) \<and>
      wq_inv (wq_inner w1) \<and> wq_items (wq_inner w1) = tl (wq_items (wq_inner w))) \<and>
    (\<exists>w2. wake_all w = Return (w2, wq_size (wq_inner w)) \<and> wq_inv (wq_inner w2) \<and> wq_items (wq_inner w2) = [] \<and>
      wq_counter w2 = wq_counter w - of_nat (wq_size (wq_inner w)))"
proof
  show "\<exists>w1. wake_one w = Return (w1, map_option waiter_id (find (\<lambda>_. True) (wq_items (wq_inner w)))) \<and>
      wq_inv (wq_inner w1) \<and> wq_items (wq_inner w1) = tl (wq_items (wq_inner w))"
    using pop_front_items[OF assms(1)] assms
    by (cases "wq_items (wq_inner w)") (auto simp: wake_one_def wq_validate_def)
  have "wq_size (wq_inner w) < Suc MAX_QUEUE_DEPTH" using assms(1) by (simp add: wq_inv_def MAX_QUEUE_DEPTH_def)
  from drain_items[OF assms(1) this, of 0] obtain q where
    "drain (Suc MAX_QUEUE_DEPTH) (wq_inner w) 0 = Return (q, wq_size (wq_inner w))" "wq_inv q" "wq_items q = []" by auto
  then show "\<exists>w2. wake_all w = Return (w2, wq_size (wq_inner w)) \<and> wq_inv (wq_inner w2) \<and> wq_items (wq_inner w2) = [] \<and>
      wq_counter w2 = wq_counter w - of_nat (wq_size (wq_inner w))"
    using assms(2) by (simp add: wake_all_def wq_validate_def del: drain.simps)
qed

definition two_waiters :: WaitQueue where
  "two_waiters = WaitQueue_new\<lparr>wq_inner := \<lparr>wq_entries = (replicate 256 None)
     [0 := Some \<lparr>waiter_id = 5, wq_priority = 1, wait_result = WAIT_OK\<rparr>,
      1 := Some \<lparr>waiter_id = 9, wq_priority = 2, wait_result = WAIT_OK\<rparr>],
     wq_head = 0, wq_tail = 2, wq_size = 2\<rparr>, wq_counter := 2\<rparr>"

theorem wait_queue_wake_witness:
  "(\<exists>w1. wake_one two_waiters = Return (w1, Some 5) \<and> map waiter_id (wq_items (wq_inner w1)) = [9]) \<and>
   (\<exists>w2. wake_all two_waiters = Return (w2, 2) \<and> wq_items (wq_inner w2) = [] \<and> wq_counter w2 = 0)"
proof -
  have inv: "wq_inv (wq_inner two_waiters)"
    by (auto simp: two_waiters_def wq_inv_def nth_list_update less_Suc_eq numeral_2_eq_2)
  have items: "map waiter_id (wq_items (wq_inner two_waiters)) = [5, 9]"
    by (simp add: two_waiters_def wq_items_def ring_list_def upt_rec)
  then obtain x y where xy: "wq_items (wq_inner two_waiters) = [x, y]" "waiter_id x = 5" "waiter_id y = 9" by auto
  have "wq_magic two_waiters = WAIT_QUEUE_MAGIC" "wq_size (wq_inner two_waiters) = 2" "wq_counter two_waiters = 2"
    by (simp_all add: two_waiters_def WaitQueue_new_def)
  with wait_queue_wake[OF inv] xy show ?thesis by auto
qed

text \<open>
  A full wait queue loses the waiter: with 256 waiters queued,
  \<open>block\<close> reports success and counts the new waiter but does not queue it.
\<close>

lemma wait_queue_full_loses_waiter:
  assumes "wq_magic w = WAIT_QUEUE_MAGIC" "wq_size (wq_inner w) = 256"
  shows "WaitQueue_block w wid pr dl = Return (w\<lparr>wq_counter := wq_counter w + 1\<rparr>, WAIT_OK)"
  using assms by (simp add: WaitQueue_block_def wq_validate_def push_sorted_def MAX_QUEUE_DEPTH_def)

definition full_wait_queue :: WaitQueue where
  "full_wait_queue = WaitQueue_new\<lparr>wq_inner := \<lparr>wq_entries =
     replicate 256 (Some \<lparr>waiter_id = 1, wq_priority = 1, wait_result = WAIT_OK\<rparr>),
     wq_head = 0, wq_tail = 0, wq_size = 256\<rparr>, wq_counter := 256\<rparr>"

lemma wait_queue_full_loses_waiter_witness:
  "wq_inv (wq_inner full_wait_queue) \<and>
   WaitQueue_block full_wait_queue 9 200 0 = Return (full_wait_queue\<lparr>wq_counter := wq_counter full_wait_queue + 1\<rparr>, WAIT_OK)"
proof -
  have "wq_inv (wq_inner full_wait_queue)" by (simp add: full_wait_queue_def wq_inv_def)
  moreover have "wq_magic full_wait_queue = WAIT_QUEUE_MAGIC" "wq_size (wq_inner full_wait_queue) = 256"
    by (simp_all add: full_wait_queue_def WaitQueue_new_def)
  ultimately show ?thesis using wait_queue_full_loses_waiter by blast
qed

text \<open>
  Claim C21 (event waiters): for every interleaving of waiters and signallers
  on a new event, no call panics, the waiter count is the number of threads
  between entering and leaving \<open>wait\<close>, and destroying the event succeeds
  exactly when there is none.
\<close>

theorem event_waiters_counted:
  "\<exists>e ph. event_run acts (Event_new b f, \<lambda>_. NotWaiting) = Return (e, ph) \<and> finite {t. ph t \<noteq> NotWaiting} \<and>
    ev_waiter_count e = of_nat (card {t. ph t \<noteq> NotWaiting}) \<and>
    (card {t. ph t \<noteq> NotWaiting} < 2 ^ 64 \<longrightarrow>
       (Event_destroy e = Return ()) = (\<forall>t. ph t = NotWaiting))"
proof -
  from event_run_inv[OF event_inv_new, of acts b f] obtain e ph where
    r: "event_run acts (Event_new b f, \<lambda>_. NotWaiting) = Return (e, ph)" and
    i: "ev_magic e = EVENT_MAGIC" "finite {t. ph t \<noteq> NotWaiting}"
      "ev_waiter_count e = of_nat (card {t. ph t \<noteq> NotWaiting})"
    by (auto simp: event_inv_def)
  have "(Event_destroy e = Return ()) = (\<forall>t. ph t = NotWaiting)" if "card {t. ph t \<noteq> NotWaiting} < 2 ^ 64"
  proof -
    have "unat (ev_waiter_count e) = card {t. ph t \<noteq> NotWaiting}"
      using that i(3) by (simp add: unat_of_nat)
    then have "ev_waiter_count e = 0 \<longleftrightarrow> card {t. ph t \<noteq> NotWaiting} = 0" by (metis unat_eq_zero)
    also have "\<dots> \<longleftrightarrow> (\<forall>t. ph t = NotWaiting)" using i(2) by (simp add: card_eq_0_iff)
    finally show ?thesis using i(1) by (auto simp: Event_destroy_def Event_validate_def word_gt_0)
  qed
  with r i(2,3) show ?thesis by blast
qed

theorem event_waiters_counted_witness:
  "\<exists>e ph. event_run [Enter 1] (Event_new False EventFlags_empty, \<lambda>_. NotWaiting) = Return (e, ph) \<and>
    card {t. ph t \<noteq> NotWaiting} < 2 ^ 64 \<and> Event_destroy e \<noteq> Return ()"
proof -
  from event_waiters_counted[of "[Enter 1]" False EventFlags_empty] obtain e ph where
    r: "event_run [Enter 1] (Event_new False EventFlags_empty, \<lambda>_. NotWaiting) = Return (e, ph)"
    and d: "card {t. ph t \<noteq> NotWaiting} < 2 ^ 64 \<longrightarrow> (Event_destroy e = Return ()) = (\<forall>t. ph t = NotWaiting)"
    by blast
  have "ph = (\<lambda>_. NotWaiting)(1 := Waiting)"
    using r by (simp add: wait_enter_def Event_validate_def Event_new_def)
  then have "{t. ph t \<noteq> NotWaiting} = {1}" "ph 1 \<noteq> NotWaiting" by auto
  with d r show ?thesis by auto
qed

text \<open>
  Auto reset releases every waiter: on an auto-reset event one
  signal lets two waiting threads through; the event resets only when the last
  of them leaves, not after the first.
\<close>

lemma event_auto_reset_wakes_all:
  "t \<noteq> u \<Longrightarrow> \<exists>e1 ph1 e2 ph2.
     event_run [Enter t, Enter u, Signal, Test t, Leave t] (Event_new False EventFlags_auto_unsignal, \<lambda>_. NotWaiting) =
       Return (e1, ph1) \<and> Event_is_signaled e1 = Return True \<and> ph1 t = NotWaiting \<and> ph1 u = Waiting \<and>
     event_run [Test u, Leave u] (e1, ph1) = Return (e2, ph2) \<and> ph2 u = NotWaiting \<and> Event_is_signaled e2 = Return False"
  by (simp add: Event_new_def EventFlags_auto_unsignal_def EventFlags_into_raw_def EventFlags_from_raw_def
      wait_enter_def Event_validate_def Event_signal_def wait_test_def wait_leave_def Event_is_signaled_def)

lemma event_auto_reset_wakes_all_witness:
  "(1 :: nat) \<noteq> 2 \<and> (\<exists>e1 ph1. event_run [Enter 1, Enter 2, Signal, Test 1, Leave 1]
      (Event_new False EventFlags_auto_unsignal, \<lambda>_. NotWaiting) = Return (e1, ph1) \<and> Event_is_signaled e1 = Return True)"
  using event_auto_reset_wakes_all[of 1 2] by auto

end
