(* ===== verification/Fd_Table.thy ===== *)
theory Fd_Table
  imports Interfaces
begin

text \<open>
  The per-process file descriptor table (\<open>syscall/fd.rs\<close>): 256 slots, the
  first three reserved for the standard streams, and an 8-bit counter for the
  next descriptor whose wrap to zero marks the table as full.
\<close>

section \<open>Data and operations\<close>

datatype FdKind = Stdin | Stdout | Stderr | File (fk_inode: u32) (fk_offset: u64) | Pipe (fk_read_end: bool) (fk_pipe_id: u32)

record FileDescriptor =
  fd_kind :: FdKind
  fd_flags :: u32

record FileDescriptorTable =
  fds :: "FileDescriptor option list"
  next_fd :: u8

definition FileDescriptor_new :: "FdKind \<Rightarrow> u32 \<Rightarrow> FileDescriptor" where
  "FileDescriptor_new k f = \<lparr>fd_kind = k, fd_flags = f\<rparr>"

definition FileDescriptor_stdin :: FileDescriptor where "FileDescriptor_stdin = \<lparr>fd_kind = Stdin, fd_flags = 0\<rparr>"
definition FileDescriptor_stdout :: FileDescriptor where "FileDescriptor_stdout = \<lparr>fd_kind = Stdout, fd_flags = 1\<rparr>"
definition FileDescriptor_stderr :: FileDescriptor where "FileDescriptor_stderr = \<lparr>fd_kind = Stderr, fd_flags = 1\<rparr>"

definition FdTable_new :: FileDescriptorTable where
  "FdTable_new = \<lparr>fds = replicate 256 None, next_fd = 3\<rparr>"

definition FdTable_init :: "FileDescriptorTable \<Rightarrow> FileDescriptorTable" where
  "FdTable_init t = t\<lparr>fds := (fds t)[0 := Some FileDescriptor_stdin, 1 := Some FileDescriptor_stdout,
     2 := Some FileDescriptor_stderr]\<rparr>"

definition FdTable_alloc :: "FileDescriptorTable \<Rightarrow> FdKind \<Rightarrow> u32 \<Rightarrow> (FileDescriptorTable \<times> u8) option" where
  "FdTable_alloc t kind f =
     (if next_fd t = 0 then None
      else let fd = next_fd t
           in Some (t\<lparr>fds := (fds t)[unat fd := Some (FileDescriptor_new kind f)], next_fd := next_fd t + 1\<rparr>, fd))"

definition FdTable_get :: "FileDescriptorTable \<Rightarrow> u8 \<Rightarrow> FileDescriptor option" where
  "FdTable_get t fd = (if unat fd < length (fds t) then fds t ! unat fd else None)"

text \<open>A change made through \<open>get_mut\<close>.\<close>

definition FdTable_update :: "FileDescriptorTable \<Rightarrow> u8 \<Rightarrow> (FileDescriptor \<Rightarrow> FileDescriptor) \<Rightarrow> FileDescriptorTable" where
  "FdTable_update t fd f =
     (if unat fd < length (fds t) then t\<lparr>fds := (fds t)[unat fd := map_option f (fds t ! unat fd)]\<rparr> else t)"

definition FdTable_close :: "FileDescriptorTable \<Rightarrow> u8 \<Rightarrow> FileDescriptorTable \<times> FileDescriptor option" where
  "FdTable_close t fd =
     (if fd < 3 then (t, None)
      else if unat fd < length (fds t) then (t\<lparr>fds := (fds t)[unat fd := None]\<rparr>, fds t ! unat fd)
      else (t, None))"

definition FdTable_count :: "FileDescriptorTable \<Rightarrow> nat" where
  "FdTable_count t = length (filter (\<lambda>f. f \<noteq> None) (fds t))"

definition O_RDONLY :: u32 where "O_RDONLY = 0"
definition O_WRONLY :: u32 where "O_WRONLY = 1"
definition O_RDWR :: u32 where "O_RDWR = 2"
definition O_CREAT :: u32 where "O_CREAT = push_bit 3 1"
definition O_EXCL :: u32 where "O_EXCL = push_bit 4 1"
definition O_TRUNC :: u32 where "O_TRUNC = push_bit 5 1"
definition O_APPEND :: u32 where "O_APPEND = push_bit 6 1"

section \<open>Invariant and contract\<close>

text \<open>
  \<open>n\<close> descriptors have been handed out so far: the counter stands at \<open>3 + n\<close>,
  and no slot from there on is occupied.
\<close>

definition fd_inv_at :: "nat \<Rightarrow> FileDescriptorTable \<Rightarrow> bool" where
  "fd_inv_at n t \<longleftrightarrow> length (fds t) = 256 \<and> n \<le> 253 \<and> next_fd t = of_nat (3 + n) \<and>
     (\<forall>i. 3 + n \<le> i \<and> i < 256 \<longrightarrow> fds t ! i = None)"

definition fd_inv :: "FileDescriptorTable \<Rightarrow> bool" where
  "fd_inv t \<longleftrightarrow> (\<exists>n. fd_inv_at n t)"

definition fd_user_look :: "FileDescriptorTable \<Rightarrow> u8 \<Rightarrow> FileDescriptor option" where
  "fd_user_look t fd = (if fd < 3 then None else FdTable_get t fd)"

definition fd_put :: "FileDescriptorTable \<Rightarrow> FileDescriptor \<Rightarrow> (FileDescriptorTable \<times> u8) option" where
  "fd_put t d = FdTable_alloc t (fd_kind d) (fd_flags d)"

definition fd_del :: "FileDescriptorTable \<Rightarrow> u8 \<Rightarrow> FileDescriptorTable" where
  "fd_del t fd = fst (FdTable_close t fd)"

lemma unat_u8_less [simp]: "unat (fd :: u8) < 256"
  using unsigned_less[of fd] by simp

lemma unat_u8_inj: "unat (fd :: u8) = unat g \<longleftrightarrow> fd = g"
  by (simp add: word_unat_eq_iff)

lemma fd_inv_at_init: "fd_inv_at 0 (FdTable_init FdTable_new)"
  by (auto simp: fd_inv_at_def FdTable_init_def FdTable_new_def)

lemma fd_next:
  assumes "fd_inv_at n t" "n < 253"
  shows "unat (next_fd t) = 3 + n" "next_fd t \<noteq> 0" "\<not> next_fd t < 3"
proof -
  have "next_fd t = of_nat (3 + n)" using assms(1) by (simp add: fd_inv_at_def)
  then show u: "unat (next_fd t) = 3 + n" using assms(2) by (simp only: unat_of_nat) simp
  then show "next_fd t \<noteq> 0" by auto
  show "\<not> next_fd t < 3" using u by (simp add: word_less_nat_alt)
qed

lemma fd_full: "fd_inv_at n t \<Longrightarrow> (FdTable_alloc t k f = None) = (n = 253)"
proof -
  assume i: "fd_inv_at n t"
  show ?thesis
  proof (cases "n < 253")
    case True
    with fd_next[OF i] show ?thesis by (simp add: FdTable_alloc_def Let_def)
  next
    case False
    with i have "n = 253" by (simp add: fd_inv_at_def)
    with i show ?thesis by (simp add: fd_inv_at_def FdTable_alloc_def)
  qed
qed

lemma fd_alloc_inv:
  assumes "fd_inv_at n t" "FdTable_alloc t k f = Some (t', fd)"
  shows "n < 253" "unat fd = 3 + n" "fd_inv_at (Suc n) t'"
    "FdTable_get t' g = (if g = fd then Some (FileDescriptor_new k f) else FdTable_get t g)" "fd_user_look t fd = None"
proof -
  have "n \<noteq> 253" using fd_full[OF assms(1), of k f] assms(2) by simp
  then show n: "n < 253" using assms(1) by (simp add: fd_inv_at_def)
  have r: "fd = next_fd t" "t' = t\<lparr>fds := (fds t)[unat fd := Some (FileDescriptor_new k f)], next_fd := next_fd t + 1\<rparr>"
    using assms(2) by (auto simp: FdTable_alloc_def Let_def split: if_splits)
  show u: "unat fd = 3 + n" using fd_next[OF assms(1) n] r by simp
  have i: "length (fds t) = 256" "next_fd t = of_nat (3 + n)" "\<And>i. 3 + n \<le> i \<Longrightarrow> i < 256 \<Longrightarrow> fds t ! i = None"
    using assms(1) by (auto simp: fd_inv_at_def)
  show "fd_inv_at (Suc n) t'" using i n u r(2) by (simp add: fd_inv_at_def)
  show "FdTable_get t' g = (if g = fd then Some (FileDescriptor_new k f) else FdTable_get t g)"
    using i(1) r(2) by (simp add: FdTable_get_def nth_list_update eq_commute[of "unat fd"] unat_u8_inj)
  show "fd_user_look t fd = None" using u n i by (simp add: fd_user_look_def FdTable_get_def)
qed

lemma fd_close_inv:
  assumes "fd_inv_at n t"
  shows "fd_inv_at n (fst (FdTable_close t fd))"
  using assms by (auto simp: fd_inv_at_def FdTable_close_def nth_list_update)

lemma fd_close_get:
  assumes "fd_inv_at n t"
  shows "FdTable_get (fst (FdTable_close t fd)) g = (if g = fd \<and> \<not> fd < 3 then None else FdTable_get t g)"
  using assms by (simp add: fd_inv_at_def FdTable_close_def FdTable_get_def nth_list_update unat_u8_inj eq_commute)

interpretation fd_slots: slot_table fd_user_look fd_put fd_del fd_inv
proof unfold_locales
  fix t e t' i j
  assume inv: "fd_inv t" and p: "fd_put t e = Some (t', i)"
  from inv obtain n where n: "fd_inv_at n t" by (auto simp: fd_inv_def)
  note a = fd_alloc_inv[OF n p[unfolded fd_put_def]]
  show "fd_user_look t i = None" by (rule a(5))
  have "\<not> i < 3" using a(2) by (simp add: word_less_nat_alt)
  moreover have "FileDescriptor_new (fd_kind e) (fd_flags e) = e" by (simp add: FileDescriptor_new_def)
  ultimately show "fd_user_look t' j = (if j = i then Some e else fd_user_look t j)"
    using a(4)[of j] by (auto simp: fd_user_look_def)
  show "fd_inv t'" using a(3) by (auto simp: fd_inv_def)
next
  fix t i j
  assume inv: "fd_inv t" and l: "fd_user_look t i \<noteq> None"
  from inv obtain n where n: "fd_inv_at n t" by (auto simp: fd_inv_def)
  have "\<not> i < 3" using l by (auto simp: fd_user_look_def)
  then show "fd_user_look (fd_del t i) j = (if j = i then None else fd_user_look t j)"
    using fd_close_get[OF n, of i j] by (auto simp: fd_user_look_def fd_del_def)
  show "fd_inv (fd_del t i)" using fd_close_inv[OF n] by (auto simp: fd_inv_def fd_del_def)
qed

section \<open>Runs\<close>

datatype fd_op = FdAlloc FdKind u32 | FdClose u8

fun fd_run :: "fd_op list \<Rightarrow> FileDescriptorTable \<Rightarrow> FileDescriptorTable \<times> u8 list" where
  "fd_run [] t = (t, [])"
| "fd_run (FdAlloc k f # ops) t =
     (case FdTable_alloc t k f of
        None \<Rightarrow> fd_run ops t
      | Some (t1, fd) \<Rightarrow> (case fd_run ops t1 of (t2, out) \<Rightarrow> (t2, fd # out)))"
| "fd_run (FdClose fd # ops) t = fd_run ops (fst (FdTable_close t fd))"

fun alloc_ops :: "fd_op list \<Rightarrow> nat" where
  "alloc_ops [] = 0"
| "alloc_ops (FdAlloc k f # ops) = Suc (alloc_ops ops)"
| "alloc_ops (FdClose fd # ops) = alloc_ops ops"

lemma fd_run_numbers:
  "fd_inv_at n t \<Longrightarrow> \<exists>m. m = min (alloc_ops ops) (253 - n) \<and> map unat (snd (fd_run ops t)) = [3 + n..<3 + n + m] \<and>
     fd_inv_at (n + m) (fst (fd_run ops t))"
proof (induction ops arbitrary: n t)
  case Nil
  then show ?case by simp
next
  case (Cons op ops)
  show ?case
  proof (cases op)
    case (FdAlloc k f)
    show ?thesis
    proof (cases "FdTable_alloc t k f")
      case None
      then have "n = 253" using fd_full[OF Cons.prems] by blast
      with Cons.IH[OF Cons.prems] None FdAlloc show ?thesis by simp
    next
      case (Some r)
      obtain t1 fd where r: "r = (t1, fd)" by fastforce
      note a = fd_alloc_inv[OF Cons.prems Some[unfolded r]]
      from Cons.IH[OF a(3)] have IH: "map unat (snd (fd_run ops t1)) = [3 + Suc n..<3 + Suc n + min (alloc_ops ops) (253 - Suc n)]"
        "fd_inv_at (Suc n + min (alloc_ops ops) (253 - Suc n)) (fst (fd_run ops t1))" by auto
      have m: "min (alloc_ops (op # ops)) (253 - n) = Suc (min (alloc_ops ops) (253 - Suc n))"
        using a(1) FdAlloc by (simp add: min_def) linarith
      have run: "fd_run (op # ops) t = (fst (fd_run ops t1), fd # snd (fd_run ops t1))"
        using Some r FdAlloc by (simp split: prod.splits)
      show ?thesis unfolding m run using IH a(2) by (simp add: upt_conv_Cons add.assoc)
    qed
  next
    case (FdClose fd)
    with Cons.IH[OF fd_close_inv[OF Cons.prems], of fd] show ?thesis by simp
  qed
qed

text \<open>
  Closing the newest descriptor gives back its slot but not its number: the
  slots are those before the allocation and the counter stays one further.
\<close>

lemma fd_put_del:
  assumes "fd_inv t" "fd_put t d = Some (t2, i)"
  shows "fds (fd_del t2 i) = fds t \<and> next_fd (fd_del t2 i) = next_fd t + 1"
proof -
  from assms(1) obtain n where n: "fd_inv_at n t" by (auto simp: fd_inv_def)
  note a = fd_alloc_inv[OF n assms(2)[unfolded fd_put_def]]
  have t2: "fds t2 = (fds t)[unat i := Some (FileDescriptor_new (fd_kind d) (fd_flags d))]" "next_fd t2 = next_fd t + 1"
    using assms(2) by (auto simp: fd_put_def FdTable_alloc_def Let_def split: if_splits)
  have l: "length (fds t) = 256" "fds t ! unat i = None" using n a(1,2) by (auto simp: fd_inv_at_def)
  have "\<not> i < 3" using a(2) by (simp add: word_less_nat_alt)
  then have "fds (fd_del t2 i) = (fds t)[unat i := None]" "next_fd (fd_del t2 i) = next_fd t2"
    using t2(1) l(1) by (simp_all add: fd_del_def FdTable_close_def)
  then show ?thesis using l(2) t2(2) by (metis list_update_id)
qed

section \<open>Properties\<close>

text \<open>
  Claim C23 (descriptor table contract): allocating several descriptors in a
  table gives distinct, previously free descriptors, each resolving to what was
  put there, leaving all other descriptors alone.  Closing a descriptor just
  allocated empties its slot again but does not give its number back: the
  counter stays one further.  So over any sequence of allocations and closes
  on a fresh table the numbers handed out are 3, 4, 5 and so on without reuse,
  and every allocation after the 253rd fails, however many descriptors have
  been closed.
\<close>

theorem fd_table_contract:
  assumes "fd_inv t" "put_many fd_put t ds = Some (t', is)"
  shows "fd_inv t' \<and> distinct is \<and> length is = length ds \<and>
    (\<forall>k < length ds. fd_user_look t (is ! k) = None \<and> fd_user_look t' (is ! k) = Some (ds ! k)) \<and>
    (\<forall>j. j \<notin> set is \<longrightarrow> fd_user_look t' j = fd_user_look t j) \<and>
    (\<forall>d t2 i. fd_put t' d = Some (t2, i) \<longrightarrow>
       fds (fd_del t2 i) = fds t' \<and> next_fd (fd_del t2 i) = next_fd t' + 1) \<and>
    (\<forall>ops. map unat (snd (fd_run ops (FdTable_init FdTable_new))) = [3..<3 + min (alloc_ops ops) 253])"
  using fd_slots.put_many_contract[OF assms] fd_put_del fd_run_numbers[OF fd_inv_at_init] by auto

text \<open>The witness allocates two descriptors, closes the second and goes on with the number after it.\<close>

theorem fd_table_contract_witness:
  "\<exists>t' t2. put_many fd_put (FdTable_init FdTable_new)
        [FileDescriptor_new (File 7 0) 0, FileDescriptor_new (Pipe True 0) 1] = Some (t', [3, 4]) \<and>
     fd_user_look t' 3 = Some (FileDescriptor_new (File 7 0) 0) \<and>
     fd_user_look t' 4 = Some (FileDescriptor_new (Pipe True 0) 1) \<and>
     fd_put t' (FileDescriptor_new (Pipe True 0) 2) = Some (t2, 5) \<and> next_fd t' = 5 \<and> next_fd (fd_del t2 5) = 6"
proof -
  let ?ds = "[FileDescriptor_new (File 7 0) 0, FileDescriptor_new (Pipe True 0) 1]"
  have inv: "fd_inv (FdTable_init FdTable_new)" using fd_inv_at_init by (auto simp: fd_inv_def)
  obtain t' where t': "put_many fd_put (FdTable_init FdTable_new) ?ds = Some (t', [3, 4])" "next_fd t' = 5"
    by (simp add: fd_put_def FdTable_alloc_def FdTable_init_def FdTable_new_def Let_def)
  obtain t2 where t2: "fd_put t' (FileDescriptor_new (Pipe True 0) 2) = Some (t2, 5)"
    using t'(2) by (simp add: fd_put_def FdTable_alloc_def Let_def)
  note c = fd_table_contract[OF inv t'(1)]
  have look: "fd_user_look t' ([3, 4] ! k) = Some (?ds ! k)" if "k < 2" for k
    using c that by simp
  have "next_fd (fd_del t2 5) = 6" using c t2 t'(2) by force
  with look[of 0] look[of 1] t' t2 show ?thesis
    by (intro exI[of _ t'] exI[of _ t2]) simp
qed

end
