(* ===== verification/Process_Table.thy ===== *)
theory Process_Table
  imports Fd_Table
begin

text \<open>
  The process table (\<open>process/table.rs\<close>), the round-robin process scheduler
  over it (\<open>sched/round_robin.rs\<close>) and switching to a process by its number
  (\<open>process/switch.rs\<close>).  Process numbers are 32-bit; they are natural numbers
  here, with the wrap written out where an increment could reach it.  The
  assembly routine that exchanges the registers is outside the model: an
  operation that would call it returns the request it makes.
\<close>

section \<open>Processes\<close>

datatype ProcessState = Ready | Running | Blocked | Zombie | Dead

fun ProcessState_is_runnable :: "ProcessState \<Rightarrow> bool" where
  "ProcessState_is_runnable Ready = True"
| "ProcessState_is_runnable Running = True"
| "ProcessState_is_runnable _ = False"

fun ProcessState_is_alive :: "ProcessState \<Rightarrow> bool" where
  "ProcessState_is_alive Ready = True"
| "ProcessState_is_alive Running = True"
| "ProcessState_is_alive Blocked = True"
| "ProcessState_is_alive _ = False"

record SavedState =
  s_rax :: u64
  s_rbx :: u64
  s_rcx :: u64
  s_rdx :: u64
  s_rsi :: u64
  s_rdi :: u64
  s_rbp :: u64
  s_rsp :: u64
  s_r8 :: u64
  s_r9 :: u64
  s_r10 :: u64
  s_r11 :: u64
  s_r12 :: u64
  s_r13 :: u64
  s_r14 :: u64
  s_r15 :: u64
  s_cr3 :: u64
  s_rflags :: u64
  s_rip :: u64
  s_cs :: u64
  s_ss :: u64
  s_fpu :: "u8 list"

definition SavedState_new :: SavedState where
  "SavedState_new = \<lparr>s_rax = 0, s_rbx = 0, s_rcx = 0, s_rdx = 0, s_rsi = 0, s_rdi = 0, s_rbp = 0, s_rsp = 0,
     s_r8 = 0, s_r9 = 0, s_r10 = 0, s_r11 = 0, s_r12 = 0, s_r13 = 0, s_r14 = 0, s_r15 = 0,
     s_cr3 = 0, s_rflags = 0, s_rip = 0, s_cs = 0, s_ss = 0, s_fpu = replicate 512 0\<rparr>"

definition SavedState_for_userspace :: "u64 \<Rightarrow> u64 \<Rightarrow> u64 \<Rightarrow> SavedState" where
  "SavedState_for_userspace entry user_stack_top cr3 =
     \<lparr>s_rax = 0, s_rbx = 0, s_rcx = 0, s_rdx = 0, s_rsi = 0, s_rdi = 0, s_rbp = 0, s_rsp = user_stack_top,
      s_r8 = 0, s_r9 = 0, s_r10 = 0, s_r11 = 0, s_r12 = 0, s_r13 = 0, s_r14 = 0, s_r15 = 0,
      s_cr3 = cr3, s_rflags = 0x202, s_rip = entry, s_cs = 0x1B, s_ss = 0x23, s_fpu = replicate 512 0\<rparr>"

definition SavedState_for_syscall_return :: "SavedState \<Rightarrow> u64 \<Rightarrow> SavedState" where
  "SavedState_for_syscall_return s ret = s\<lparr>s_rax := ret\<rparr>"

definition MAX_PROCESSES :: nat where "MAX_PROCESSES = 256"

record Process =
  pr_pid :: nat
  pr_ppid :: nat
  pr_state :: ProcessState
  pr_page_table :: u64
  pr_kernel_stack :: u64
  pr_user_stack :: u64
  pr_saved_state :: SavedState
  pr_syscall_ret :: u64
  pr_fd_table :: FileDescriptorTable
  pr_cpu_time :: u64
  pr_sched_time :: u64
  pr_name :: "string option"

definition Process_new :: "nat \<Rightarrow> nat \<Rightarrow> u64 \<Rightarrow> u64 \<Rightarrow> u64 \<Rightarrow> u64 \<Rightarrow> Process" where
  "Process_new pid ppid page_table kernel_stack user_stack entry =
     \<lparr>pr_pid = pid, pr_ppid = ppid, pr_state = Ready, pr_page_table = page_table,
      pr_kernel_stack = kernel_stack, pr_user_stack = user_stack,
      pr_saved_state = SavedState_for_userspace entry user_stack page_table,
      pr_syscall_ret = 0, pr_fd_table = FdTable_init FdTable_new, pr_cpu_time = 0, pr_sched_time = 0, pr_name = None\<rparr>"

definition Process_set_name :: "Process \<Rightarrow> string \<Rightarrow> Process" where
  "Process_set_name p nm = p\<lparr>pr_name := Some nm\<rparr>"

section \<open>The process table\<close>

record ProcessTable =
  processes :: "Process option list"
  pt_current :: "nat option"
  pt_next_pid :: nat

definition ProcessTable_new :: ProcessTable where
  "ProcessTable_new = \<lparr>processes = replicate MAX_PROCESSES None, pt_current = None, pt_next_pid = 1\<rparr>"

definition pt_get :: "ProcessTable \<Rightarrow> nat \<Rightarrow> Process option" where
  "pt_get t pid = (if pid < length (processes t) then processes t ! pid else None)"

text \<open>A change made through \<open>get_mut\<close>.\<close>

definition pt_update :: "ProcessTable \<Rightarrow> nat \<Rightarrow> (Process \<Rightarrow> Process) \<Rightarrow> ProcessTable" where
  "pt_update t pid f =
     (if pid < length (processes t) then t\<lparr>processes := (processes t)[pid := map_option f (processes t ! pid)]\<rparr> else t)"

definition pt_current_process :: "ProcessTable \<Rightarrow> Process option" where
  "pt_current_process t = (case pt_current t of None \<Rightarrow> None | Some pid \<Rightarrow> pt_get t pid)"

function alloc_pid_loop :: "ProcessTable \<Rightarrow> nat \<Rightarrow> ProcessTable \<times> nat option" where
  "alloc_pid_loop t start =
     (if pt_next_pid t \<ge> MAX_PROCESSES then (t, None)
      else let pid = pt_next_pid t; t1 = t\<lparr>pt_next_pid := pt_next_pid t + 1\<rparr> in
        if processes t1 ! pid = None then (t1, Some pid)
        else if pt_next_pid t1 = start then (t1, None)
        else alloc_pid_loop t1 start)"
  by pat_completeness auto
termination by (relation "measure (\<lambda>(t, start). MAX_PROCESSES - pt_next_pid t)") auto

declare alloc_pid_loop.simps [simp del]

definition alloc_pid :: "ProcessTable \<Rightarrow> ProcessTable \<times> nat option" where
  "alloc_pid t = alloc_pid_loop t (pt_next_pid t)"

definition pt_insert :: "ProcessTable \<Rightarrow> Process \<Rightarrow> ProcessTable outcome" where
  "pt_insert t p =
     (let pid = pr_pid p in
      if pid \<ge> MAX_PROCESSES then Panic ''PID out of range''
      else if processes t ! pid \<noteq> None then Panic ''PID already in use''
      else Return (t\<lparr>processes := (processes t)[pid := Some p]\<rparr>))"

definition pt_set_current :: "ProcessTable \<Rightarrow> nat \<Rightarrow> ProcessTable" where
  "pt_set_current t pid = t\<lparr>pt_current := Some pid\<rparr>"

definition pt_remove :: "ProcessTable \<Rightarrow> nat \<Rightarrow> ProcessTable \<times> Process option" where
  "pt_remove t pid =
     (if pid \<ge> MAX_PROCESSES then (t, None)
      else let t1 = (if pt_current t = Some pid then t\<lparr>pt_current := None\<rparr> else t)
           in (t1\<lparr>processes := (processes t1)[pid := None]\<rparr>, processes t1 ! pid))"

definition runnable_at :: "ProcessTable \<Rightarrow> nat \<Rightarrow> bool" where
  "runnable_at t pid = (case pt_get t pid of None \<Rightarrow> False | Some p \<Rightarrow> ProcessState_is_runnable (pr_state p))"

text \<open>
  The loop of \<open>find_next_runnable\<close>; \<open>n\<close> bounds its iterations, and running
  out of them is \<open>Hang\<close>.
\<close>

fun find_runnable_loop :: "nat \<Rightarrow> ProcessTable \<Rightarrow> nat \<Rightarrow> nat \<Rightarrow> nat option outcome" where
  "find_runnable_loop 0 t start pid = Hang"
| "find_runnable_loop (Suc n) t start pid =
     (if runnable_at t pid then Return (Some pid)
      else let pid' = (pid + 1) mod MAX_PROCESSES in
        if pid' = start then Return None else find_runnable_loop n t start pid')"

definition find_next_runnable :: "ProcessTable \<Rightarrow> nat option \<Rightarrow> nat option outcome" where
  "find_next_runnable t current_pid =
     (let start = (case current_pid of None \<Rightarrow> 0 | Some p \<Rightarrow> ((p + 1) mod 2 ^ 32) mod MAX_PROCESSES)
      in find_runnable_loop MAX_PROCESSES t start start)"

definition runnable_pids :: "ProcessTable \<Rightarrow> nat list" where
  "runnable_pids t = filter (\<lambda>pid. case processes t ! pid of
     Some p \<Rightarrow> ProcessState_is_runnable (pr_state p) | None \<Rightarrow> False) [0..<length (processes t)]"

definition pt_count :: "ProcessTable \<Rightarrow> nat" where
  "pt_count t = length (filter (\<lambda>p. p \<noteq> None) (processes t))"

section \<open>The round-robin scheduler\<close>

definition DEFAULT_TIME_SLICE_MS :: u64 where "DEFAULT_TIME_SLICE_MS = 10"

record RoundRobinScheduler =
  rr_current :: "nat option"
  rr_time_slice_ms :: u64
  rr_preemption_enabled :: bool

definition RoundRobinScheduler_new :: RoundRobinScheduler where
  "RoundRobinScheduler_new = \<lparr>rr_current = None, rr_time_slice_ms = DEFAULT_TIME_SLICE_MS, rr_preemption_enabled = True\<rparr>"

type_synonym sched_world = "RoundRobinScheduler \<times> ProcessTable"

definition set_state :: "ProcessState \<Rightarrow> Process \<Rightarrow> Process" where
  "set_state s p = p\<lparr>pr_state := s\<rparr>"

definition ready_if_running :: "Process \<Rightarrow> Process" where
  "ready_if_running p = (if pr_state p = Running then p\<lparr>pr_state := Ready\<rparr> else p)"

definition rr_schedule :: "sched_world \<Rightarrow> (sched_world \<times> nat option) outcome" where
  "rr_schedule w = (case w of (rr, t) \<Rightarrow>
     let t1 = (case rr_current rr of Some c \<Rightarrow> pt_update t c ready_if_running | None \<Rightarrow> t)
     in outcome_bind (find_next_runnable t1 (rr_current rr)) (\<lambda>next.
          case next of
            None \<Rightarrow> Return ((rr, t1), None)
          | Some pid \<Rightarrow>
              Return ((rr\<lparr>rr_current := Some pid\<rparr>, pt_update (pt_set_current t1 pid) pid (set_state Running)), Some pid)))"

text \<open>A request to the assembly routine: the outgoing process, the incoming one, and its page table.\<close>

type_synonym switch_request = "(nat \<times> nat \<times> u64) option"

definition rr_context_switch :: "sched_world \<Rightarrow> (sched_world \<times> switch_request) outcome" where
  "rr_context_switch w =
     outcome_bind (rr_schedule w) (\<lambda>((rr, t), next).
       case (next, rr_current rr) of
         (Some next_pid, Some current_pid) \<Rightarrow>
           if current_pid \<noteq> next_pid then
             let next_cr3 = (case pt_get t next_pid of Some p \<Rightarrow> pr_page_table p | None \<Rightarrow> 0);
                 t1 = pt_update t current_pid (set_state Ready)
             in Return ((rr, t1),
                  if pt_get t1 current_pid \<noteq> None \<and> pt_get t1 next_pid \<noteq> None
                  then Some (current_pid, next_pid, next_cr3) else None)
           else Return ((rr, t), None)
       | _ \<Rightarrow> Return ((rr, t), None))"

definition timer_tick :: "sched_world \<Rightarrow> (sched_world \<times> switch_request) outcome" where
  "timer_tick w = (if \<not> rr_preemption_enabled (fst w) then Return (w, None) else rr_context_switch w)"

definition rr_yield_cpu :: "sched_world \<Rightarrow> (sched_world \<times> switch_request \<times> unit result) outcome" where
  "rr_yield_cpu w = (case w of (rr, t) \<Rightarrow>
     case rr_current rr of
       None \<Rightarrow> Return (w, None, Inl ''No current process'')
     | Some current_pid \<Rightarrow>
         outcome_bind (find_next_runnable t (Some current_pid)) (\<lambda>next.
           case next of
             Some next_pid \<Rightarrow>
               if next_pid \<noteq> current_pid
               then outcome_bind (rr_context_switch w) (\<lambda>(w', req). Return (w', req, Inr ()))
               else Return (w, None, Inr ())
           | None \<Rightarrow> Return (w, None, Inr ())))"

definition get_current_pid :: "sched_world \<Rightarrow> nat option" where
  "get_current_pid w = rr_current (fst w)"

definition get_current_ppid :: "sched_world \<Rightarrow> nat option" where
  "get_current_ppid w =
     (case rr_current (fst w) of None \<Rightarrow> None | Some c \<Rightarrow> map_option pr_ppid (pt_get (snd w) c))"

definition add_process :: "sched_world \<Rightarrow> nat \<Rightarrow> unit result" where
  "add_process w pid =
     (case pt_get (snd w) pid of
        None \<Rightarrow> Inl ''Process not found''
      | Some p \<Rightarrow> if pr_state p \<noteq> Ready then Inl ''Process not in Ready state'' else Inr ())"

definition remove_process :: "sched_world \<Rightarrow> nat \<Rightarrow> sched_world" where
  "remove_process w pid =
     (if rr_current (fst w) = Some pid then ((fst w)\<lparr>rr_current := Some 0\<rparr>, snd w) else w)"

definition switch_to_pid :: "ProcessTable \<Rightarrow> nat \<Rightarrow> ProcessTable \<times> switch_request \<times> unit result" where
  "switch_to_pid t next_pid =
     (case pt_current t of
        None \<Rightarrow> (t, None, Inl ''No current process'')
      | Some current_pid \<Rightarrow>
          if current_pid = next_pid then (t, None, Inr ())
          else case pt_get t next_pid of
            None \<Rightarrow> (t, None, Inl ''Next process not found'')
          | Some next_p \<Rightarrow>
              if \<not> ProcessState_is_runnable (pr_state next_p) then (t, None, Inl ''Next process is not runnable'')
              else case pt_get t current_pid of
                None \<Rightarrow> (t, None, Inl ''Current process not found'')
              | Some _ \<Rightarrow>
                  let t1 = pt_update t current_pid (set_state Ready);
                      t2 = pt_set_current t1 next_pid;
                      t3 = pt_update t2 next_pid (set_state Running)
                  in (t3, Some (current_pid, next_pid, pr_page_table next_p), Inr ()))"

section \<open>Table facts\<close>

definition pt_shape :: "ProcessTable \<Rightarrow> bool" where
  "pt_shape t \<longleftrightarrow> length (processes t) = 256"

lemma pt_get_update: "pt_get (pt_update t i f) j = (if i = j then map_option f (pt_get t j) else pt_get t j)"
  by (auto simp: pt_get_def pt_update_def nth_list_update)

lemma pt_get_set_current [simp]: "pt_get (pt_set_current t c) j = pt_get t j"
  by (simp add: pt_get_def pt_set_current_def)

lemma runnable_at_set_current [simp]: "runnable_at (pt_set_current t c) = runnable_at t"
  by (simp add: fun_eq_iff runnable_at_def)

lemma pt_shape_ops [simp]:
  "pt_shape (pt_update t i f) = pt_shape t" "pt_shape (pt_set_current t c) = pt_shape t"
  by (simp_all add: pt_shape_def pt_update_def pt_set_current_def)

lemma pt_current_ops [simp]:
  "pt_current (pt_update t i f) = pt_current t" "pt_current (pt_set_current t c) = Some c"
  by (simp_all add: pt_update_def pt_set_current_def)

lemma runnable_at_bound: "pt_shape t \<Longrightarrow> runnable_at t p \<Longrightarrow> p < 256"
  by (auto simp: runnable_at_def pt_get_def pt_shape_def split: if_splits)

lemma runnable_at_update:
  assumes "\<And>p. pt_get t i = Some p \<Longrightarrow> ProcessState_is_runnable (pr_state (f p)) = ProcessState_is_runnable (pr_state p)"
  shows "runnable_at (pt_update t i f) = runnable_at t"
  using assms by (auto simp: fun_eq_iff runnable_at_def pt_get_update split: option.splits)

lemma ready_if_running_runnable [simp]:
  "ProcessState_is_runnable (pr_state (ready_if_running p)) = ProcessState_is_runnable (pr_state p)"
  by (simp add: ready_if_running_def)

lemma ready_if_running_state [simp]: "pr_state (ready_if_running p) \<noteq> Running"
  by (simp add: ready_if_running_def)

lemma runnable_atD:
  "runnable_at t i \<Longrightarrow> \<exists>p. pt_get t i = Some p \<and> ProcessState_is_runnable (pr_state p)"
  by (auto simp: runnable_at_def split: option.splits)

section \<open>The search for a runnable process\<close>

text \<open>The search probes \<open>start\<close>, \<open>start + 1\<close>, and so on, once around the table.\<close>

lemma find_runnable_loop_probes:
  assumes "start < 256"
  shows "j < 256 \<Longrightarrow> find_runnable_loop (256 - j) t start ((start + j) mod 256) =
    Return (map_option (\<lambda>i. (start + i) mod 256) (List.find (\<lambda>i. runnable_at t ((start + i) mod 256)) [j..<256]))"
proof (induction "255 - j" arbitrary: j)
  case 0
  then have j: "j = 255" by simp
  have "((start + 255) mod 256 + 1) mod 256 = (start + 256) mod 256" by (simp add: mod_Suc_eq)
  then have "((start + 255) mod 256 + 1) mod 256 = start" using assms by simp
  then show ?case using j by (simp add: MAX_PROCESSES_def upt_conv_Cons)
next
  case (Suc k)
  then have j: "j < 255" "k = 255 - Suc j" "256 - j = Suc (256 - Suc j)" by auto
  have next_probe: "((start + j) mod 256 + 1) mod 256 = (start + Suc j) mod 256" by (simp add: mod_Suc_eq)
  have "(start + Suc j) mod 256 \<noteq> (start + 0) mod 256"
    using ring_index_inj[of start "Suc j" 256 0] j(1) by auto
  then have ne: "(start + Suc j) mod 256 \<noteq> start" using assms by simp
  have "[j..<256] = j # [Suc j..<256]" using j(1) by (simp add: upt_conv_Cons)
  with Suc.hyps(1)[OF j(2)] j(1) ne next_probe show ?case
    by (simp add: j(3) MAX_PROCESSES_def Let_def)
qed

definition scan_start :: "nat option \<Rightarrow> nat" where
  "scan_start c = (case c of None \<Rightarrow> 0 | Some p \<Rightarrow> (p + 1) mod 256)"

lemma find_next_runnable_eq:
  "find_next_runnable t c =
    Return (map_option (\<lambda>i. (scan_start c + i) mod 256)
      (List.find (\<lambda>i. runnable_at t ((scan_start c + i) mod 256)) [0..<256]))"
proof -
  have start: "(case c of None \<Rightarrow> 0 | Some p \<Rightarrow> ((p + 1) mod 2 ^ 32) mod MAX_PROCESSES) = scan_start c"
  proof (cases c)
    case (Some p)
    have "(256 :: nat) dvd 2 ^ 32" by simp
    then have "((p + 1) mod 2 ^ 32) mod 256 = (p + 1) mod 256" by (rule mod_mod_cancel)
    with Some show ?thesis by (simp only: option.case scan_start_def MAX_PROCESSES_def)
  qed (simp add: scan_start_def)
  have lt: "scan_start c < 256" by (simp add: scan_start_def split: option.splits)
  have "find_next_runnable t c = find_runnable_loop MAX_PROCESSES t (scan_start c) (scan_start c)"
    by (simp only: find_next_runnable_def Let_def start)
  with find_runnable_loop_probes[OF lt, of 0 t] lt show ?thesis by (simp add: MAX_PROCESSES_def)
qed

lemma find_least_Some:
  "List.find P [0..<n] = Some i \<longleftrightarrow> i < n \<and> P i \<and> (\<forall>j < i. \<not> P j)"
  by (auto simp: find_Some_iff)

lemma find_least_None: "List.find P [0..<n] = None \<longleftrightarrow> (\<forall>j < n. \<not> P j)"
  by (auto simp: find_None_iff)

text \<open>How many probes after the current process comes process \<open>p\<close>.\<close>

definition probes_to :: "nat option \<Rightarrow> nat \<Rightarrow> nat" where
  "probes_to c p = (p + 256 - scan_start c) mod 256"

lemma probes_to_reaches: "p < 256 \<Longrightarrow> (scan_start c + probes_to c p) mod 256 = p"
proof -
  assume p: "p < 256"
  have "scan_start c < 256" by (simp add: scan_start_def split: option.splits)
  then have "scan_start c + (p + 256 - scan_start c) = p + 256" by simp
  with p show ?thesis by (simp add: probes_to_def mod_add_right_eq)
qed

lemma probes_to_less: "probes_to c p < 256"
  by (simp add: probes_to_def)

lemma probes_after:
  assumes "p < 256" "i < probes_to c p"
  shows "probes_to (Some ((scan_start c + i) mod 256)) p = probes_to c p - Suc i"
proof -
  let ?c = "Some ((scan_start c + i) mod 256)" and ?d = "probes_to c p"
  have "(scan_start ?c + (?d - Suc i)) mod 256 = (scan_start c + i + 1 + (?d - Suc i)) mod 256"
    by (simp add: scan_start_def mod_simps)
  also have "\<dots> = (scan_start c + ?d) mod 256" using assms(2) by simp
  also have "\<dots> = (scan_start ?c + probes_to ?c p) mod 256" using probes_to_reaches[OF assms(1)] by simp
  finally show ?thesis
    using ring_index_inj[of "scan_start ?c" "?d - Suc i" 256 "probes_to ?c p"] probes_to_less[of c p] probes_to_less[of ?c p]
    by simp
qed

section \<open>A scheduling step\<close>

definition demoted :: "sched_world \<Rightarrow> ProcessTable" where
  "demoted w = (case rr_current (fst w) of Some c \<Rightarrow> pt_update (snd w) c ready_if_running | None \<Rightarrow> snd w)"

lemma demoted_runnable [simp]: "runnable_at (demoted w) = runnable_at (snd w)"
  by (auto simp: demoted_def runnable_at_update split: option.splits)

lemma demoted_shape [simp]: "pt_shape (demoted w) = pt_shape (snd w)"
  by (simp add: demoted_def split: option.splits)

lemma rr_schedule_eq:
  "rr_schedule (rr, t) =
    (case List.find (\<lambda>i. runnable_at t ((scan_start (rr_current rr) + i) mod 256)) [0..<256] of
       None \<Rightarrow> Return ((rr, demoted (rr, t)), None)
     | Some i \<Rightarrow> let d = (scan_start (rr_current rr) + i) mod 256 in
         Return ((rr\<lparr>rr_current := Some d\<rparr>, pt_update (pt_set_current (demoted (rr, t)) d) d (set_state Running)), Some d))"
proof -
  have eq: "(case rr_current rr of Some c \<Rightarrow> pt_update t c ready_if_running | None \<Rightarrow> t) = demoted (rr, t)"
    by (simp add: demoted_def split: option.splits)
  show ?thesis
    unfolding rr_schedule_def prod.case Let_def eq find_next_runnable_eq outcome_bind.simps demoted_runnable snd_conv
    by (simp split: option.splits)
qed

lemma rr_schedule_step:
  assumes "pt_shape t" "runnable_at t p"
  shows "\<exists>i d t'. i \<le> probes_to (rr_current rr) p \<and> d = (scan_start (rr_current rr) + i) mod 256 \<and>
    runnable_at t d \<and> (\<forall>j < i. \<not> runnable_at t ((scan_start (rr_current rr) + j) mod 256)) \<and>
    rr_schedule (rr, t) = Return ((rr\<lparr>rr_current := Some d\<rparr>, t'), Some d) \<and>
    t' = pt_update (pt_set_current (demoted (rr, t)) d) d (set_state Running) \<and>
    pt_shape t' \<and> runnable_at t' = runnable_at t"
proof -
  let ?c = "rr_current rr" and ?P = "\<lambda>i. runnable_at t ((scan_start (rr_current rr) + i) mod 256)"
  have p: "p < 256" using runnable_at_bound[OF assms] .
  have hit: "?P (probes_to ?c p)" using probes_to_reaches[OF p] assms(2) by simp
  then obtain i where f: "List.find ?P [0..<256] = Some i"
    using find_least_None[of ?P 256] probes_to_less[of ?c p] by blast
  then have i: "i < 256" "?P i" "\<forall>j < i. \<not> ?P j" by (simp_all add: find_least_Some)
  have le: "i \<le> probes_to ?c p" using i(3) hit not_le by blast
  let ?d = "(scan_start ?c + i) mod 256"
  let ?t = "pt_update (pt_set_current (demoted (rr, t)) ?d) ?d (set_state Running)"
  have run: "rr_schedule (rr, t) = Return ((rr\<lparr>rr_current := Some ?d\<rparr>, ?t), Some ?d)"
    using f by (simp add: rr_schedule_eq Let_def)
  have same: "runnable_at (pt_set_current (demoted (rr, t)) ?d) = runnable_at t"
    using demoted_runnable[of "(rr, t)"] by (simp only: runnable_at_set_current snd_conv)
  then have "runnable_at (pt_set_current (demoted (rr, t)) ?d) ?d" using i(2) by simp
  from runnable_atD[OF this] have "runnable_at ?t = runnable_at (pt_set_current (demoted (rr, t)) ?d)"
    by (intro runnable_at_update) (auto simp: set_state_def)
  then have "runnable_at ?t = runnable_at t" using same by (rule trans)
  then show ?thesis
    using run le i(2,3) assms(1) by (intro exI[of _ i] exI[of _ ?d] exI[of _ ?t] conjI) simp_all
qed

fun rr_iter :: "nat \<Rightarrow> sched_world \<Rightarrow> sched_world outcome" where
  "rr_iter 0 w = Return w"
| "rr_iter (Suc k) w = outcome_bind (rr_schedule w) (\<lambda>(w', _). rr_iter k w')"

lemma rr_iter_reaches:
  assumes "pt_shape t" "runnable_at t p"
  shows "\<exists>k rr' t'. 0 < k \<and> k \<le> Suc (probes_to (rr_current rr) p) \<and> rr_iter k (rr, t) = Return (rr', t') \<and>
    rr_current rr' = Some p \<and> pt_current t' = Some p \<and> map_option pr_state (pt_get t' p) = Some Running"
  using assms
proof (induction "probes_to (rr_current rr) p" arbitrary: rr t rule: less_induct)
  case less
  have p: "p < 256" using runnable_at_bound[OF less.prems] .
  from rr_schedule_step[OF less.prems, of rr] obtain i d t1 where
    i: "i \<le> probes_to (rr_current rr) p" and d: "d = (scan_start (rr_current rr) + i) mod 256" "runnable_at t d"
    and run: "rr_schedule (rr, t) = Return ((rr\<lparr>rr_current := Some d\<rparr>, t1), Some d)"
    and t1: "t1 = pt_update (pt_set_current (demoted (rr, t)) d) d (set_state Running)"
      "pt_shape t1" "runnable_at t1 = runnable_at t" by blast
  show ?case
  proof (cases "i = probes_to (rr_current rr) p")
    case True
    then have "d = p" using d(1) probes_to_reaches[OF p] by simp
    moreover have "runnable_at (demoted (rr, t)) p" using less.prems(2) by simp
    then have "pt_get (demoted (rr, t)) p \<noteq> None" using runnable_atD[of "demoted (rr, t)" p] by auto
    ultimately have "map_option pr_state (pt_get t1 p) = Some Running"
      by (auto simp: t1(1) pt_get_update set_state_def)
    moreover have "pt_current t1 = Some p" using \<open>d = p\<close> by (simp add: t1(1))
    ultimately show ?thesis using run \<open>d = p\<close>
      by (intro exI[of _ "Suc 0"] exI[of _ "rr\<lparr>rr_current := Some d\<rparr>"] exI[of _ t1]) simp
  next
    case False
    with i have lt: "i < probes_to (rr_current rr) p" by simp
    let ?rr = "rr\<lparr>rr_current := Some d\<rparr>"
    have pr: "probes_to (rr_current ?rr) p = probes_to (rr_current rr) p - Suc i"
      using probes_after[OF p lt] d(1) by simp
    then have "probes_to (rr_current ?rr) p < probes_to (rr_current rr) p" using lt by simp
    from less.hyps[OF this t1(2)] less.prems(2) t1(3) obtain k rr' t' where
      k: "0 < k" "k \<le> Suc (probes_to (rr_current ?rr) p)" "rr_iter k (?rr, t1) = Return (rr', t')"
      "rr_current rr' = Some p" "pt_current t' = Some p" "map_option pr_state (pt_get t' p) = Some Running" by auto
    have "Suc k \<le> Suc (probes_to (rr_current rr) p)" using k(2) pr lt by simp
    moreover have "rr_iter (Suc k) (rr, t) = Return (rr', t')" using run k(3) by simp
    ultimately show ?thesis using k(4-6) by (intro exI[of _ "Suc k"] exI[of _ rr'] exI[of _ t']) simp
  qed
qed

text \<open>At most the process the scheduler believes current is marked running.\<close>

definition single_running :: "sched_world \<Rightarrow> bool" where
  "single_running w \<longleftrightarrow> pt_shape (snd w) \<and>
     (\<forall>pid p. pt_get (snd w) pid = Some p \<and> pr_state p = Running \<longrightarrow> rr_current (fst w) = Some pid)"

lemma demoted_none_running:
  assumes "single_running w" "pt_get (demoted w) pid = Some p"
  shows "pr_state p \<noteq> Running"
proof (cases "rr_current (fst w)")
  case None
  with assms show ?thesis by (auto simp: demoted_def single_running_def)
next
  case (Some c)
  show ?thesis
  proof (cases "pid = c")
    case True
    with assms(2) Some show ?thesis by (auto simp: demoted_def pt_get_update)
  next
    case False
    with assms Some show ?thesis by (auto simp: demoted_def pt_get_update single_running_def)
  qed
qed

lemma rr_schedule_single_running:
  assumes "single_running w"
  shows "\<exists>w' r. rr_schedule w = Return (w', r) \<and> single_running w' \<and>
    (\<forall>pid. r = Some pid \<longrightarrow> rr_current (fst w') = Some pid \<and> pt_current (snd w') = Some pid \<and> runnable_at (snd w') pid) \<and>
    (r = None \<longrightarrow> (\<forall>pid. \<not> runnable_at (snd w) pid)) \<and> runnable_at (snd w') = runnable_at (snd w)"
proof -
  obtain rr t where w: "w = (rr, t)" by fastforce
  have sh: "pt_shape t" using assms by (simp add: single_running_def w)
  show ?thesis
  proof (cases "\<exists>p. runnable_at t p")
    case True
    then obtain p where "runnable_at t p" by blast
    from rr_schedule_step[OF sh this, of rr] obtain d t' where
      s: "rr_schedule (rr, t) = Return ((rr\<lparr>rr_current := Some d\<rparr>, t'), Some d)" "runnable_at t d"
        "t' = pt_update (pt_set_current (demoted (rr, t)) d) d (set_state Running)" "pt_shape t'" "runnable_at t' = runnable_at t"
      by blast
    have "single_running (rr\<lparr>rr_current := Some d\<rparr>, t')"
      using s(4) demoted_none_running[OF assms[unfolded w]]
      by (auto simp: single_running_def s(3) pt_get_update split: if_splits)
    with s show ?thesis by (auto simp: w s(3))
  next
    case False
    then have "List.find (\<lambda>i. runnable_at t ((scan_start (rr_current rr) + i) mod 256)) [0..<256] = None"
      by (auto simp: find_least_None)
    then have "rr_schedule (rr, t) = Return ((rr, demoted (rr, t)), None)" by (simp add: rr_schedule_eq)
    moreover have "single_running (rr, demoted (rr, t))"
      using demoted_none_running[OF assms[unfolded w]] sh by (auto simp: single_running_def)
    ultimately show ?thesis using False by (auto simp: w)
  qed
qed

section \<open>Sequences of scheduler calls\<close>

text \<open>
  The calls that the kernel makes of the round-robin scheduler while processes
  run.  \<open>sched_run\<close> also collects the requests to the switching routine.
  \<open>switch_to_pid\<close> and \<open>remove_process\<close> are not among them: nothing calls
  them, and the lemmas below show that they do not keep \<open>single_running\<close>.
\<close>

datatype sched_call = CallSchedule | CallTimerTick | CallYield

fun call_sched :: "sched_call \<Rightarrow> sched_world \<Rightarrow> (sched_world \<times> switch_request) outcome" where
  "call_sched CallSchedule w = outcome_bind (rr_schedule w) (\<lambda>(w', _). Return (w', None))"
| "call_sched CallTimerTick w = timer_tick w"
| "call_sched CallYield w = outcome_bind (rr_yield_cpu w) (\<lambda>(w', req, _). Return (w', req))"

fun sched_run :: "sched_call list \<Rightarrow> sched_world \<Rightarrow> (sched_world \<times> (nat \<times> nat \<times> u64) list) outcome" where
  "sched_run [] w = Return (w, [])"
| "sched_run (c # cs) w =
     outcome_bind (call_sched c w) (\<lambda>(w1, req). outcome_bind (sched_run cs w1) (\<lambda>(w2, reqs).
       Return (w2, (case req of None \<Rightarrow> reqs | Some r \<Rightarrow> r # reqs))))"

text \<open>
  \<open>context_switch\<close> compares the process chosen by \<open>schedule\<close> with a current
  process that \<open>schedule\<close> has just overwritten with that same choice, so it
  never calls the switching routine.
\<close>

lemma rr_context_switch_eq:
  "rr_context_switch w = outcome_bind (rr_schedule w) (\<lambda>(w', _). Return (w', None))"
proof -
  obtain rr t where w: "w = (rr, t)" by fastforce
  show ?thesis by (auto simp: w rr_context_switch_def rr_schedule_eq Let_def split: option.splits)
qed

lemma rr_yield_cpu_cases:
  "(\<exists>r. rr_yield_cpu w = Return (w, None, r)) \<or>
   rr_yield_cpu w = outcome_bind (rr_schedule w) (\<lambda>(w', _). Return (w', None, Inr ()))"
proof -
  obtain rr t where w: "w = (rr, t)" by fastforce
  have "\<exists>x. rr_schedule w = Return x" by (simp add: w rr_schedule_eq Let_def split: option.splits)
  then obtain w1 r1 where s: "rr_schedule w = Return (w1, r1)" by auto
  show ?thesis
    by (auto simp: w rr_yield_cpu_def rr_context_switch_eq s[unfolded w] find_next_runnable_eq split: option.splits)
qed

lemma call_sched_single_running:
  assumes "single_running w"
  shows "\<exists>w'. call_sched c w = Return (w', None) \<and> single_running w' \<and> runnable_at (snd w') = runnable_at (snd w)"
proof -
  from rr_schedule_single_running[OF assms] obtain w1 r where
    s: "rr_schedule w = Return (w1, r)" "single_running w1" "runnable_at (snd w1) = runnable_at (snd w)" by blast
  have "call_sched c w = Return (w, None) \<or> call_sched c w = Return (w1, None)"
    using rr_yield_cpu_cases[of w] s(1) by (cases c) (auto simp: timer_tick_def rr_context_switch_eq)
  then show ?thesis using s(2,3) assms by blast
qed

lemma sched_run_single_running:
  "single_running w \<Longrightarrow>
   \<exists>w'. sched_run cs w = Return (w', []) \<and> single_running w' \<and> runnable_at (snd w') = runnable_at (snd w)"
proof (induction cs arbitrary: w)
  case (Cons c cs)
  from call_sched_single_running[OF Cons.prems, of c] obtain w1 where
    w1: "call_sched c w = Return (w1, None)" "single_running w1" "runnable_at (snd w1) = runnable_at (snd w)" by blast
  with Cons.IH[OF w1(2)] show ?case by auto
qed simp

section \<open>Process numbers\<close>

text \<open>
  \<open>fresh_from\<close>: the slots from the counter on are all empty, as in a table
  that only grew through \<open>alloc_pid\<close> and \<open>insert\<close>.
\<close>

definition fresh_from :: "ProcessTable \<Rightarrow> bool" where
  "fresh_from t \<longleftrightarrow> pt_shape t \<and> 1 \<le> pt_next_pid t \<and> pt_next_pid t \<le> 256 \<and>
     (\<forall>i. pt_next_pid t \<le> i \<and> i < 256 \<longrightarrow> processes t ! i = None)"

definition spawn :: "ProcessTable \<Rightarrow> (nat \<Rightarrow> Process) \<Rightarrow> (ProcessTable \<times> nat option) outcome" where
  "spawn t mk = (case alloc_pid t of
     (t1, None) \<Rightarrow> Return (t1, None)
   | (t1, Some pid) \<Rightarrow> outcome_bind (pt_insert t1 (mk pid)) (\<lambda>t2. Return (t2, Some pid)))"

datatype pt_op = Spawn "nat \<Rightarrow> Process" | Reap nat

fun pt_run :: "pt_op list \<Rightarrow> ProcessTable \<Rightarrow> (ProcessTable \<times> nat list) outcome" where
  "pt_run [] t = Return (t, [])"
| "pt_run (Spawn mk # ops) t =
     outcome_bind (spawn t mk) (\<lambda>(t1, r). outcome_bind (pt_run ops t1) (\<lambda>(t2, out).
       Return (t2, (case r of None \<Rightarrow> out | Some pid \<Rightarrow> pid # out))))"
| "pt_run (Reap pid # ops) t = pt_run ops (fst (pt_remove t pid))"

definition spawns_ok :: "pt_op list \<Rightarrow> bool" where
  "spawns_ok ops \<longleftrightarrow> (\<forall>mk pid. Spawn mk \<in> set ops \<longrightarrow> pr_pid (mk pid) = pid)"

definition spawn_count :: "pt_op list \<Rightarrow> nat" where
  "spawn_count ops = length (filter (\<lambda>op. case op of Spawn _ \<Rightarrow> True | Reap _ \<Rightarrow> False) ops)"

lemma alloc_pid_fresh:
  assumes "fresh_from t"
  shows "alloc_pid t = (if pt_next_pid t = 256 then (t, None)
    else (t\<lparr>pt_next_pid := pt_next_pid t + 1\<rparr>, Some (pt_next_pid t)))"
  using assms by (auto simp: alloc_pid_def alloc_pid_loop.simps MAX_PROCESSES_def fresh_from_def Let_def)

lemma spawn_fresh:
  assumes "fresh_from t" "\<And>pid. pr_pid (mk pid) = pid"
  shows "\<exists>t'. spawn t mk = Return (t', if pt_next_pid t = 256 then None else Some (pt_next_pid t)) \<and> fresh_from t' \<and>
    pt_next_pid t' = min 256 (pt_next_pid t + 1)"
proof (cases "pt_next_pid t = 256")
  case True
  with assms(1) show ?thesis by (simp add: spawn_def alloc_pid_fresh[OF assms(1)])
next
  case False
  let ?n = "pt_next_pid t"
  have n: "?n < 256" "1 \<le> ?n" "length (processes t) = 256" "\<And>i. ?n \<le> i \<Longrightarrow> i < 256 \<Longrightarrow> processes t ! i = None"
    using assms(1) False by (auto simp: fresh_from_def pt_shape_def)
  let ?t' = "t\<lparr>pt_next_pid := ?n + 1, processes := (processes t)[?n := Some (mk ?n)]\<rparr>"
  have "spawn t mk = Return (?t', Some ?n)"
    using n assms(2) False by (simp add: spawn_def alloc_pid_fresh[OF assms(1)] pt_insert_def MAX_PROCESSES_def Let_def)
  moreover have "fresh_from ?t'" using n by (simp add: fresh_from_def pt_shape_def)
  ultimately show ?thesis using False n(1) by (intro exI[of _ ?t']) simp
qed

lemma reap_fresh: "fresh_from t \<Longrightarrow> fresh_from (fst (pt_remove t pid)) \<and> pt_next_pid (fst (pt_remove t pid)) = pt_next_pid t"
proof -
  assume "fresh_from t"
  moreover have "(processes t)[pid := None] ! i = None" if "processes t ! i = None" "i < length (processes t)" for i
    using that by (cases "pid = i") simp_all
  ultimately show ?thesis by (auto simp: fresh_from_def pt_shape_def pt_remove_def Let_def)
qed

lemma pt_run_numbers:
  "fresh_from t \<Longrightarrow> spawns_ok ops \<Longrightarrow>
   \<exists>t'. pt_run ops t = Return (t', [pt_next_pid t..<min 256 (pt_next_pid t + spawn_count ops)]) \<and> fresh_from t'"
proof (induction ops arbitrary: t)
  case Nil
  then show ?case by (auto simp: spawn_count_def fresh_from_def)
next
  case (Cons op ops)
  have ok: "spawns_ok ops" using Cons.prems(2) by (auto simp: spawns_ok_def)
  show ?case
  proof (cases op)
    case (Spawn mk)
    have "\<And>pid. pr_pid (mk pid) = pid" using Cons.prems(2) Spawn by (auto simp: spawns_ok_def)
    from spawn_fresh[OF Cons.prems(1) this] obtain t1 where
      t1: "spawn t mk = Return (t1, if pt_next_pid t = 256 then None else Some (pt_next_pid t))" "fresh_from t1"
        "pt_next_pid t1 = min 256 (pt_next_pid t + 1)" by blast
    from Cons.IH[OF t1(2) ok] obtain t2 where
      t2: "pt_run ops t1 = Return (t2, [pt_next_pid t1..<min 256 (pt_next_pid t1 + spawn_count ops)])" "fresh_from t2" by blast
    have le: "pt_next_pid t \<le> 256" using Cons.prems(1) by (simp add: fresh_from_def)
    have cnt: "spawn_count (op # ops) = Suc (spawn_count ops)" using Spawn by (simp add: spawn_count_def)
    show ?thesis
    proof (cases "pt_next_pid t = 256")
      case True
      with t1 t2 Spawn show ?thesis by simp
    next
      case False
      with le have lt: "pt_next_pid t < 256" by simp
      have "[pt_next_pid t..<min 256 (pt_next_pid t + Suc (spawn_count ops))] =
          pt_next_pid t # [Suc (pt_next_pid t)..<min 256 (Suc (pt_next_pid t) + spawn_count ops)]"
        using lt by (subst upt_conv_Cons) simp_all
      with t1 t2 Spawn False lt cnt show ?thesis by (simp add: min_absorb2)
    qed
  next
    case (Reap pid)
    have "spawn_count (op # ops) = spawn_count ops" using Reap by (simp add: spawn_count_def)
    moreover from reap_fresh[OF Cons.prems(1), of pid]
    have r: "fresh_from (fst (pt_remove t pid))" "pt_next_pid (fst (pt_remove t pid)) = pt_next_pid t" by auto
    ultimately show ?thesis using Cons.IH[OF r(1) ok] Reap by (simp add: r(2))
  qed
qed

section \<open>Properties\<close>

text \<open>
  Claim C24 (process scheduling is fair): in a well-formed table, every runnable
  process becomes the current, running process after at most 256 calls of
  \<open>schedule\<close>; the search for a runnable process always ends.
\<close>

theorem process_schedule_fair:
  assumes "pt_shape t" "runnable_at t p"
  shows "\<exists>k rr' t'. 0 < k \<and> k \<le> 256 \<and> rr_iter k (rr, t) = Return (rr', t') \<and>
    rr_current rr' = Some p \<and> pt_current t' = Some p \<and> map_option pr_state (pt_get t' p) = Some Running"
proof -
  from rr_iter_reaches[OF assms, of rr] obtain k rr' t' where
    k: "0 < k" "k \<le> Suc (probes_to (rr_current rr) p)" "rr_iter k (rr, t) = Return (rr', t')"
    "rr_current rr' = Some p" "pt_current t' = Some p" "map_option pr_state (pt_get t' p) = Some Running" by blast
  moreover have "k \<le> 256" using k(2) probes_to_less[of "rr_current rr" p] by simp
  ultimately show ?thesis by blast
qed

definition sample_processes :: ProcessTable where
  "sample_processes = ProcessTable_new\<lparr>processes :=
     (replicate 256 None)[1 := Some (Process_new 1 0 0x1000 0 0 0x400000), 2 := Some (Process_new 2 1 0x2000 0 0 0x400000)]\<rparr>"

lemma sample_processes_ok: "pt_shape sample_processes" "runnable_at sample_processes 1" "runnable_at sample_processes 2"
  by (simp_all add: sample_processes_def pt_shape_def runnable_at_def pt_get_def Process_new_def)

theorem process_schedule_fair_witness:
  "\<exists>k rr' t'. 0 < k \<and> k \<le> 256 \<and> rr_iter k (RoundRobinScheduler_new, sample_processes) = Return (rr', t') \<and>
    rr_current rr' = Some 2 \<and> pt_current t' = Some 2 \<and> map_option pr_state (pt_get t' 2) = Some Running"
  by (rule process_schedule_fair) (rule sample_processes_ok)+

text \<open>
  Claim C25 (one running process): start from a table in which at most the
  scheduler's current process is marked running.  Any sequence of calls of
  \<open>schedule\<close>, \<open>timer_tick\<close> and \<open>yield_cpu\<close> returns, keeps this, keeps the
  set of runnable processes, and never asks for a context switch.  A further
  \<open>schedule\<close> also returns and keeps it; the process it returns is runnable and
  current both for the scheduler and for the table, and it returns none only if
  no process is runnable.  The two operations that the kernel never calls,
  \<open>switch_to_pid\<close> and \<open>remove_process\<close>, are not among the calls.
\<close>

theorem process_single_running:
  assumes "single_running w"
  shows "\<exists>w1 w' r. sched_run cs w = Return (w1, []) \<and> single_running w1 \<and>
    runnable_at (snd w1) = runnable_at (snd w) \<and> rr_schedule w1 = Return (w', r) \<and> single_running w' \<and>
    (\<forall>pid. r = Some pid \<longrightarrow> rr_current (fst w') = Some pid \<and> pt_current (snd w') = Some pid \<and> runnable_at (snd w') pid) \<and>
    (r = None \<longrightarrow> (\<forall>pid. \<not> runnable_at (snd w) pid)) \<and> runnable_at (snd w') = runnable_at (snd w)"
proof -
  from sched_run_single_running[OF assms] obtain w1 where
    w1: "sched_run cs w = Return (w1, [])" "single_running w1" "runnable_at (snd w1) = runnable_at (snd w)" by blast
  from rr_schedule_single_running[OF w1(2)] w1 show ?thesis by metis
qed

lemma sample_single_running: "single_running (RoundRobinScheduler_new, sample_processes)"
  by (auto simp: single_running_def pt_shape_def sample_processes_def pt_get_def nth_list_update Process_new_def split: if_splits)

theorem process_single_running_witness:
  "\<exists>w1 w' r. sched_run [CallSchedule, CallTimerTick, CallYield] (RoundRobinScheduler_new, sample_processes) = Return (w1, []) \<and>
     single_running w1 \<and> rr_schedule w1 = Return (w', r) \<and> single_running w' \<and> r \<noteq> None"
  using process_single_running[OF sample_single_running, of "[CallSchedule, CallTimerTick, CallYield]"] sample_processes_ok(2)
  by (metis snd_conv)

text \<open>
  \<open>switch_to_pid\<close> moves the table's current process and leaves the scheduler's
  alone, and \<open>remove_process\<close> makes process 0 the scheduler's current one
  while the removed process keeps its state: after either, a process is marked
  running that is not the scheduler's current one, and \<open>schedule\<close> will not
  put it back among the ready ones.
\<close>

lemma switch_to_pid_not_single:
  assumes "pt_current t = Some c" "rr_current rr = Some c" "pt_get t c \<noteq> None" "runnable_at t n" "n \<noteq> c"
  shows "\<exists>t' cr3. switch_to_pid t n = (t', Some (c, n, cr3), Inr ()) \<and> \<not> single_running (rr, t')"
proof -
  from runnable_atD[OF assms(4)] obtain p where p: "pt_get t n = Some p" "ProcessState_is_runnable (pr_state p)" by blast
  let ?t = "pt_update (pt_set_current (pt_update t c (set_state Ready)) n) n (set_state Running)"
  have "switch_to_pid t n = (?t, Some (c, n, pr_page_table p), Inr ())"
    using assms(1,3,5) p by (auto simp: switch_to_pid_def Let_def)
  moreover have "pt_get ?t n = Some (set_state Running p)" using assms(5) p by (simp add: pt_get_update)
  then have "\<not> single_running (rr, ?t)"
    using assms(2,5) by (fastforce simp: single_running_def set_state_def)
  ultimately show ?thesis by blast
qed

lemma remove_process_not_single:
  assumes "rr_current rr = Some c" "c \<noteq> 0" "pt_get t c = Some p" "pr_state p = Running"
  shows "\<not> single_running (remove_process (rr, t) c)"
  using assms by (auto simp: single_running_def remove_process_def)

text \<open>
  Process numbers: spawning through \<open>alloc_pid\<close> and \<open>insert\<close>,
  interleaved with any removals, never panics and numbers the processes 1, 2, 3
  and so on; numbers of removed processes are not used again, so at most 255
  processes can be created before \<open>alloc_pid\<close> fails for good.
\<close>

lemma process_numbers:
  assumes "spawns_ok ops"
  shows "\<exists>t'. pt_run ops ProcessTable_new = Return (t', [1..<min 256 (1 + spawn_count ops)])"
proof -
  have "fresh_from ProcessTable_new" "pt_next_pid ProcessTable_new = 1"
    by (simp_all add: fresh_from_def ProcessTable_new_def pt_shape_def MAX_PROCESSES_def)
  from pt_run_numbers[OF this(1) assms] this(2) show ?thesis by auto
qed

lemma process_numbers_witness:
  "\<exists>t'. pt_run [Spawn (\<lambda>pid. Process_new pid 0 0 0 0 0), Reap 1, Spawn (\<lambda>pid. Process_new pid 0 0 0 0 0)] ProcessTable_new =
    Return (t', [1, 2])"
proof -
  let ?ops = "[Spawn (\<lambda>pid. Process_new pid 0 0 0 0 0), Reap 1, Spawn (\<lambda>pid. Process_new pid 0 0 0 0 0)]"
  have "spawns_ok ?ops" by (auto simp: spawns_ok_def Process_new_def)
  moreover have "spawn_count ?ops = 2" by (simp add: spawn_count_def)
  moreover have "[1..<min 256 (1 + 2)] = [1, 2 :: nat]" by (simp add: upt_conv_Cons)
  ultimately show ?thesis using process_numbers[of ?ops] by (simp only: simp_thms)
qed

end
