(* ===== verification/Keyboard.thy ===== *)
theory Keyboard
  imports Interfaces "HOL-Library.Word"
begin

text \<open>
  The PS/2 keyboard driver: the circular input buffer of
  \<open>drivers/keyboard/ps2.rs\<close>, the scancode tables and their translation in
  \<open>drivers/keyboard/layout.rs\<close>, and the interrupt handler and the reading side
  of \<open>drivers/keyboard/mod.rs\<close>.  What the interrupt handler reads from the two
  ports of the controller is an argument of the model; the initialisation of
  the controller is not modelled.
\<close>

section \<open>Circular buffer\<close>

record 'a CircularBuffer =
  cb_data :: "'a list"
  read_pos :: nat
  write_pos :: nat

definition CircularBuffer_new :: "nat \<Rightarrow> ('a::zero) CircularBuffer" where
  "CircularBuffer_new n = \<lparr>cb_data = replicate n 0, read_pos = 0, write_pos = 0\<rparr>"

abbreviation cb_size :: "'a CircularBuffer \<Rightarrow> nat" where
  "cb_size b \<equiv> length (cb_data b)"

definition cb_write :: "'a CircularBuffer \<Rightarrow> 'a \<Rightarrow> 'a CircularBuffer \<times> bool" where
  "cb_write b value =
     (let next_pos = (write_pos b + 1) mod cb_size b
      in if next_pos = read_pos b then (b, False)
         else (b\<lparr>cb_data := (cb_data b)[write_pos b := value], write_pos := next_pos\<rparr>, True))"

definition cb_read :: "'a CircularBuffer \<Rightarrow> 'a CircularBuffer \<times> 'a option" where
  "cb_read b =
     (if read_pos b = write_pos b then (b, None)
      else (b\<lparr>read_pos := (read_pos b + 1) mod cb_size b\<rparr>, Some (cb_data b ! read_pos b)))"

definition cb_has_data :: "'a CircularBuffer \<Rightarrow> bool" where
  "cb_has_data b \<longleftrightarrow> read_pos b \<noteq> write_pos b"

definition cb_available :: "'a CircularBuffer \<Rightarrow> nat" where
  "cb_available b = (if write_pos b \<ge> read_pos b then write_pos b - read_pos b
     else cb_size b - read_pos b + write_pos b)"

definition cb_is_full :: "'a CircularBuffer \<Rightarrow> bool" where
  "cb_is_full b \<longleftrightarrow> (write_pos b + 1) mod cb_size b = read_pos b"

definition cb_clear :: "'a CircularBuffer \<Rightarrow> 'a CircularBuffer" where
  "cb_clear b = b\<lparr>read_pos := 0, write_pos := 0\<rparr>"

section \<open>Scancodes\<close>

datatype SpecialKey = LeftShift | RightShift | LeftCtrl | RightCtrl | LeftAlt | RightAlt | CapsLock
  | F1 | F2 | F3 | F4 | F5 | F6 | F7 | F8 | F9 | F10 | F11 | F12
  | Escape | Tab | Enter | Backspace | ArrowUp | ArrowDown | ArrowLeft | ArrowRight
  | Home | End | PageUp | PageDown | Insert | Delete | PrintScreen | ScrollLock | Pause

datatype KeyEvent = Ascii u8 | Special SpecialKey | Release u8

definition SCANCODE_TO_ASCII_LOWER :: "u8 list" where
  "SCANCODE_TO_ASCII_LOWER = [
   0, 0, 0x31, 0x32, 0x33, 0x34, 0x35, 0x36, 0x37, 0x38, 0x39, 0x30, 0x2D, 0x3D, 0x08, 0x09,
   0x71, 0x77, 0x65, 0x72, 0x74, 0x79, 0x75, 0x69, 0x6F, 0x70, 0x5B, 0x5D, 0x0A, 0, 0x61, 0x73,
   0x64, 0x66, 0x67, 0x68, 0x6A, 0x6B, 0x6C, 0x3B, 0x27, 0x60, 0, 0x5C, 0x7A, 0x78, 0x63, 0x76,
   0x62, 0x6E, 0x6D, 0x2C, 0x2E, 0x2F, 0, 0x2A, 0, 0x20] @ replicate 70 0"

definition SCANCODE_TO_ASCII_UPPER :: "u8 list" where
  "SCANCODE_TO_ASCII_UPPER = [
   0, 0, 0x21, 0x40, 0x23, 0x24, 0x25, 0x5E, 0x26, 0x2A, 0x28, 0x29, 0x5F, 0x2B, 0x08, 0x09,
   0x51, 0x57, 0x45, 0x52, 0x54, 0x59, 0x55, 0x49, 0x4F, 0x50, 0x7B, 0x7D, 0x0A, 0, 0x41, 0x53,
   0x44, 0x46, 0x47, 0x48, 0x4A, 0x4B, 0x4C, 0x3A, 0x22, 0x7E, 0, 0x7C, 0x5A, 0x58, 0x43, 0x56,
   0x42, 0x4E, 0x4D, 0x3C, 0x3E, 0x3F, 0, 0x2A, 0, 0x20] @ replicate 70 0"

record ModifierState =
  left_shift :: bool
  right_shift :: bool
  left_ctrl :: bool
  right_ctrl :: bool
  left_alt :: bool
  right_alt :: bool
  caps_lock :: bool

definition ModifierState_new :: ModifierState where
  "ModifierState_new = \<lparr>left_shift = False, right_shift = False, left_ctrl = False, right_ctrl = False,
     left_alt = False, right_alt = False, caps_lock = False\<rparr>"

definition mod_shift :: "ModifierState \<Rightarrow> bool" where "mod_shift m \<longleftrightarrow> left_shift m \<or> right_shift m"
definition mod_ctrl :: "ModifierState \<Rightarrow> bool" where "mod_ctrl m \<longleftrightarrow> left_ctrl m \<or> right_ctrl m"
definition mod_alt :: "ModifierState \<Rightarrow> bool" where "mod_alt m \<longleftrightarrow> left_alt m \<or> right_alt m"

text \<open>The keys that the first \<open>match\<close> of the translation returns for.\<close>

definition modifier_event :: "u8 \<Rightarrow> bool \<Rightarrow> bool \<Rightarrow> KeyEvent option" where
  "modifier_event code is_release extended =
     (if code = 0x2A then Some (if is_release then Release 0x2A else Special LeftShift)
      else if code = 0x36 then Some (if is_release then Release 0x36 else Special RightShift)
      else if code = 0x1D then Some (if is_release then Release (if extended then or 0x1D 0x80 else 0x1D)
                                     else Special (if extended then RightCtrl else LeftCtrl))
      else if code = 0x38 then Some (if is_release then Release (if extended then or 0x38 0x80 else 0x38)
                                     else Special (if extended then RightAlt else LeftAlt))
      else if code = 0x3A then Some (Special CapsLock)
      else if code = 0x01 then Some (Special Escape)
      else if code = 0x0E then Some (Special Backspace)
      else if code = 0x0F then Some (Special Tab)
      else if code = 0x1C then Some (Special Enter)
      else None)"

definition extended_event :: "u8 \<Rightarrow> KeyEvent" where
  "extended_event code =
     (if code = 0x48 then Special ArrowUp
      else if code = 0x50 then Special ArrowDown
      else if code = 0x4B then Special ArrowLeft
      else if code = 0x4D then Special ArrowRight
      else if code = 0x47 then Special Home
      else if code = 0x4F then Special End
      else if code = 0x49 then Special PageUp
      else if code = 0x51 then Special PageDown
      else if code = 0x52 then Special Insert
      else if code = 0x53 then Special Delete
      else Special Escape)"

definition ascii_table :: "ModifierState \<Rightarrow> u8 list" where
  "ascii_table m = (if mod_shift m \<noteq> caps_lock m then SCANCODE_TO_ASCII_UPPER else SCANCODE_TO_ASCII_LOWER)"

definition scancode_to_keyevent :: "u8 \<Rightarrow> ModifierState \<Rightarrow> bool \<Rightarrow> KeyEvent" where
  "scancode_to_keyevent scancode modifiers extended =
     (let is_release = (and scancode 0x80 \<noteq> 0); code = and scancode 0x7F
      in case modifier_event code is_release extended of
           Some e \<Rightarrow> e
         | None \<Rightarrow>
             if extended then extended_event code
             else if is_release then Release code
             else let table = ascii_table modifiers
                  in if unat code < length table \<and> table ! unat code \<noteq> 0 then Ascii (table ! unat code)
                     else Special Escape)"

section \<open>Interrupts and reading\<close>

record keyboard =
  input_buffer :: "u8 CircularBuffer"
  modifier_state :: ModifierState
  extended_scancode :: bool

definition INPUT_BUFFER_SIZE :: nat where "INPUT_BUFFER_SIZE = 256"
definition STATUS_OBF :: u8 where "STATUS_OBF = 0x01"
definition STATUS_AUXDATA :: u8 where "STATUS_AUXDATA = 0x20"

text \<open>The state that \<open>init\<close> sets up before it programs the controller.\<close>

definition keyboard_init :: keyboard where
  "keyboard_init = \<lparr>input_buffer = CircularBuffer_new INPUT_BUFFER_SIZE, modifier_state = ModifierState_new,
     extended_scancode = False\<rparr>"

definition buffer_write :: "keyboard \<Rightarrow> u8 \<Rightarrow> keyboard" where
  "buffer_write k c = k\<lparr>input_buffer := fst (cb_write (input_buffer k) c)\<rparr>"

fun special_pressed :: "SpecialKey \<Rightarrow> keyboard \<Rightarrow> keyboard" where
  "special_pressed LeftShift k = k\<lparr>modifier_state := (modifier_state k)\<lparr>left_shift := True\<rparr>\<rparr>"
| "special_pressed RightShift k = k\<lparr>modifier_state := (modifier_state k)\<lparr>right_shift := True\<rparr>\<rparr>"
| "special_pressed LeftCtrl k = k\<lparr>modifier_state := (modifier_state k)\<lparr>left_ctrl := True\<rparr>\<rparr>"
| "special_pressed RightCtrl k = k\<lparr>modifier_state := (modifier_state k)\<lparr>right_ctrl := True\<rparr>\<rparr>"
| "special_pressed LeftAlt k = k\<lparr>modifier_state := (modifier_state k)\<lparr>left_alt := True\<rparr>\<rparr>"
| "special_pressed RightAlt k = k\<lparr>modifier_state := (modifier_state k)\<lparr>right_alt := True\<rparr>\<rparr>"
| "special_pressed CapsLock k = k\<lparr>modifier_state := (modifier_state k)\<lparr>caps_lock := \<not> caps_lock (modifier_state k)\<rparr>\<rparr>"
| "special_pressed Backspace k = buffer_write k 0x08"
| "special_pressed Enter k = buffer_write k 0x0A"
| "special_pressed Tab k = buffer_write k 0x09"
| "special_pressed _ k = k"

definition key_released :: "u8 \<Rightarrow> bool \<Rightarrow> keyboard \<Rightarrow> keyboard" where
  "key_released code extended k =
     (let m = modifier_state k in
      if code = 0x2A then k\<lparr>modifier_state := m\<lparr>left_shift := False\<rparr>\<rparr>
      else if code = 0x36 then k\<lparr>modifier_state := m\<lparr>right_shift := False\<rparr>\<rparr>
      else if code = 0x1D then k\<lparr>modifier_state := (if extended then m\<lparr>right_ctrl := False\<rparr> else m\<lparr>left_ctrl := False\<rparr>)\<rparr>
      else if code = 0x38 then k\<lparr>modifier_state := (if extended then m\<lparr>right_alt := False\<rparr> else m\<lparr>left_alt := False\<rparr>)\<rparr>
      else k)"

text \<open>The part of the interrupt handler after the scancode has been read.\<close>

definition handle_scancode :: "keyboard \<Rightarrow> u8 \<Rightarrow> keyboard" where
  "handle_scancode k scancode =
     (if scancode = 0xE0 then k\<lparr>extended_scancode := True\<rparr>
      else let extended = extended_scancode k;
               k1 = k\<lparr>extended_scancode := False\<rparr>
           in case scancode_to_keyevent scancode (modifier_state k1) extended of
                Ascii a \<Rightarrow> buffer_write k1 a
              | Special s \<Rightarrow> special_pressed s k1
              | Release c \<Rightarrow> key_released c extended k1)"

definition handle_irq :: "keyboard \<Rightarrow> u8 \<Rightarrow> u8 \<Rightarrow> keyboard" where
  "handle_irq k status data =
     (if and status STATUS_OBF = 0 then k
      else if and status STATUS_AUXDATA \<noteq> 0 then k
      else handle_scancode k data)"

definition read_char :: "keyboard \<Rightarrow> keyboard \<times> u8 option" where
  "read_char k = (let (b, r) = cb_read (input_buffer k) in (k\<lparr>input_buffer := b\<rparr>, r))"

definition kbd_has_data :: "keyboard \<Rightarrow> bool" where "kbd_has_data k = cb_has_data (input_buffer k)"
definition kbd_available :: "keyboard \<Rightarrow> nat" where "kbd_available k = cb_available (input_buffer k)"
definition kbd_is_full :: "keyboard \<Rightarrow> bool" where "kbd_is_full k = cb_is_full (input_buffer k)"

text \<open>The loop of \<open>flush\<close>, with a bound on the number of reads.\<close>

fun flush_reads :: "nat \<Rightarrow> keyboard \<Rightarrow> keyboard option" where
  "flush_reads 0 k = None"
| "flush_reads (Suc n) k = (case read_char k of (k1, None) \<Rightarrow> Some k1 | (k1, Some _) \<Rightarrow> flush_reads n k1)"

section \<open>The buffer is a bounded queue\<close>

definition cb_inv :: "nat \<Rightarrow> 'a CircularBuffer \<Rightarrow> bool" where
  "cb_inv n b \<longleftrightarrow> 0 < n \<and> cb_size b = n \<and> read_pos b < n \<and> write_pos b < n"

definition cb_items :: "'a CircularBuffer \<Rightarrow> 'a list" where
  "cb_items b = ring_list (cb_data b) (cb_size b) (read_pos b) (cb_available b)"

lemma length_cb_items [simp]: "length (cb_items b) = cb_available b"
  by (simp add: cb_items_def)

lemma cb_available_pos:
  assumes "cb_inv n b"
  shows "cb_available b < n" and "write_pos b = (read_pos b + cb_available b) mod n"
  using assms by (auto simp: cb_inv_def cb_available_def)

lemma cb_available_eqI:
  assumes "cb_inv n b" "k < n" "write_pos b = (read_pos b + k) mod n"
  shows "cb_available b = k"
  using ring_index_inj[of "read_pos b" "cb_available b" n k] cb_available_pos[OF assms(1)] assms(2,3) by simp

lemma cb_empty_iff: "cb_inv n b \<Longrightarrow> read_pos b = write_pos b \<longleftrightarrow> cb_available b = 0"
  by (auto simp: cb_inv_def cb_available_def)

lemma cb_full_iff:
  assumes "cb_inv n b"
  shows "(write_pos b + 1) mod n = read_pos b \<longleftrightarrow> Suc (cb_available b) = n"
proof -
  note a = cb_available_pos[OF assms]
  have next_pos: "(write_pos b + 1) mod n = (read_pos b + Suc (cb_available b)) mod n"
    by (simp add: a(2) mod_Suc_eq)
  show ?thesis
  proof
    assume "(write_pos b + 1) mod n = read_pos b"
    then have "(read_pos b + Suc (cb_available b)) mod n = (read_pos b + 0) mod n"
      using assms next_pos by (simp add: cb_inv_def)
    then show "Suc (cb_available b) = n" using ring_index_inj[of "read_pos b" "Suc (cb_available b)" n 0] a(1) by fastforce
  next
    assume "Suc (cb_available b) = n"
    then show "(write_pos b + 1) mod n = read_pos b" using next_pos assms by (simp add: cb_inv_def)
  qed
qed

lemma cb_write_items:
  assumes "cb_inv n b" "cb_write b x = (b', r)"
  shows "cb_inv n b' \<and> spec_enq (n - 1) (cb_items b) x = (cb_items b', r)"
proof (cases "Suc (cb_available b) = n")
  case True
  then have "cb_write b x = (b, False)"
    using cb_full_iff[OF assms(1)] assms(1) by (simp add: cb_write_def cb_inv_def Let_def)
  with assms True show ?thesis by (auto simp: spec_enq_def)
next
  case False
  let ?c = "b\<lparr>cb_data := (cb_data b)[write_pos b := x], write_pos := (write_pos b + 1) mod n\<rparr>"
  note a = cb_available_pos[OF assms(1)]
  have room: "Suc (cb_available b) < n" using a(1) False by simp
  have w: "cb_write b x = (?c, True)"
    using cb_full_iff[OF assms(1)] False assms(1) by (simp add: cb_write_def cb_inv_def Let_def)
  have inv: "cb_inv n ?c" using assms(1) by (simp add: cb_inv_def)
  have av: "cb_available ?c = Suc (cb_available b)"
    by (rule cb_available_eqI[OF inv room]) (simp add: a(2) mod_Suc_eq)
  have "cb_items ?c = cb_items b @ [x]"
  proof -
    have "cb_items ?c = ring_list ((cb_data b)[write_pos b := x]) n (read_pos b) (Suc (cb_available b))"
      using assms(1) av by (simp add: cb_items_def cb_inv_def)
    also have "\<dots> = cb_items b @ [x]"
      using ring_list_snoc[of "cb_data b" n "cb_available b" "read_pos b" x] assms(1) a
      by (simp add: cb_items_def cb_inv_def)
    finally show ?thesis .
  qed
  with w assms(2) room inv show ?thesis by (auto simp: spec_enq_def)
qed

lemma cb_read_items:
  assumes "cb_inv n b" "cb_read b = (b', r)"
  shows "cb_inv n b' \<and> spec_deq (cb_items b) = (cb_items b', r)"
proof (cases "cb_available b = 0")
  case True
  then have "cb_items b = []" by (simp add: cb_items_def)
  with True assms cb_empty_iff[OF assms(1)] show ?thesis by (auto simp: cb_read_def spec_deq_def)
next
  case False
  let ?c = "b\<lparr>read_pos := (read_pos b + 1) mod n\<rparr>"
  note a = cb_available_pos[OF assms(1)]
  have w: "cb_read b = (?c, Some (cb_data b ! read_pos b))"
    using cb_empty_iff[OF assms(1)] False assms(1) by (simp add: cb_read_def cb_inv_def)
  have inv: "cb_inv n ?c" using assms(1) by (simp add: cb_inv_def)
  have av: "cb_available ?c = cb_available b - 1"
  proof (rule cb_available_eqI[OF inv])
    have "((read_pos b + 1) mod n + (cb_available b - 1)) mod n = (read_pos b + 1 + (cb_available b - 1)) mod n"
      by (rule mod_add_left_eq)
    also have "\<dots> = (read_pos b + cb_available b) mod n" using False by simp
    finally have "((read_pos b + 1) mod n + (cb_available b - 1)) mod n = (read_pos b + cb_available b) mod n" .
    then show "write_pos ?c = (read_pos ?c + (cb_available b - 1)) mod n" using a(2) by simp
  qed (use a(1) in simp)
  have "cb_items b = cb_data b ! read_pos b # cb_items ?c"
    using ring_list_Cons[of "cb_available b" "cb_data b" n "read_pos b"] False assms(1) av
    by (simp add: cb_items_def cb_inv_def)
  with w assms(2) inv show ?thesis by (simp add: spec_deq_def)
qed

interpretation ring: bounded_fifo cb_write cb_read cb_items "cb_inv n" "n - 1" for n
  by unfold_locales (fact cb_write_items, fact cb_read_items)

lemma cb_inv_new:
  assumes "0 < n"
  shows "cb_inv n (CircularBuffer_new n :: ('a::zero) CircularBuffer) \<and> cb_items (CircularBuffer_new n :: 'a CircularBuffer) = []"
  using assms by (simp add: cb_inv_def CircularBuffer_new_def cb_items_def cb_available_def)

section \<open>Typing\<close>

definition kbd_inv :: "keyboard \<Rightarrow> bool" where
  "kbd_inv k \<longleftrightarrow> cb_inv 256 (input_buffer k)"

abbreviation pending :: "keyboard \<Rightarrow> u8 list" where
  "pending k \<equiv> cb_items (input_buffer k)"

definition handle_irqs :: "u8 \<Rightarrow> u8 list \<Rightarrow> keyboard \<Rightarrow> keyboard" where
  "handle_irqs status codes k = fold (\<lambda>c k. handle_irq k status c) codes k"

fun read_chars :: "nat \<Rightarrow> keyboard \<Rightarrow> keyboard \<times> u8 list" where
  "read_chars 0 k = (k, [])"
| "read_chars (Suc n) k =
     (case read_char k of
        (k1, None) \<Rightarrow> (k1, [])
      | (k1, Some c) \<Rightarrow> let (k2, cs) = read_chars n k1 in (k2, c # cs))"

text \<open>The status of the controller when it has a byte that is not from the mouse.\<close>

definition keyboard_byte :: "u8 \<Rightarrow> bool" where
  "keyboard_byte status \<longleftrightarrow> and status STATUS_OBF \<noteq> 0 \<and> and status STATUS_AUXDATA = 0"

text \<open>Keys that stand for a character, what they stand for, and the codes of pressing and releasing them.\<close>

definition typed_char :: "bool \<Rightarrow> u8 \<Rightarrow> u8" where
  "typed_char shift c = (if shift then SCANCODE_TO_ASCII_UPPER else SCANCODE_TO_ASCII_LOWER) ! unat c"

definition ascii_key :: "bool \<Rightarrow> u8 \<Rightarrow> bool" where
  "ascii_key shift c \<longleftrightarrow> unat c < 58 \<and> modifier_event c False False = None \<and> typed_char shift c \<noteq> 0"

text \<open>
  All keys that carry a character, and what one keystroke delivers: the release
  codes of Backspace, Tab and Enter are taken for presses, so these three keys
  deliver their character twice.
\<close>

definition char_key :: "bool \<Rightarrow> u8 \<Rightarrow> bool" where
  "char_key shift c \<longleftrightarrow> unat c < 58 \<and> typed_char shift c \<noteq> 0"

definition delivered :: "bool \<Rightarrow> u8 \<Rightarrow> u8 list" where
  "delivered shift c = replicate (if c \<in> {0x0E, 0x0F, 0x1C} then 2 else 1) (typed_char shift c)"

definition keystroke :: "bool \<Rightarrow> u8 \<Rightarrow> u8 list" where
  "keystroke shift c = (if shift then [0x2A, c, or c 0x80, 0xAA] else [c, or c 0x80])"

definition at_rest :: "keyboard \<Rightarrow> bool" where
  "at_rest k \<longleftrightarrow> kbd_inv k \<and> \<not> extended_scancode k \<and> modifier_state k = ModifierState_new"

lemma handle_irq_byte [simp]: "keyboard_byte status \<Longrightarrow> handle_irq k status c = handle_scancode k c"
  by (simp add: keyboard_byte_def handle_irq_def)

lemma buffer_write_pending:
  assumes "kbd_inv k"
  shows "kbd_inv (buffer_write k c)"
    and "pending (buffer_write k c) = (if length (pending k) < 255 then pending k @ [c] else pending k)"
    and "modifier_state (buffer_write k c) = modifier_state k" "extended_scancode (buffer_write k c) = extended_scancode k"
proof -
  obtain b r where b: "cb_write (input_buffer k) c = (b, r)" by fastforce
  with cb_write_items[OF assms[unfolded kbd_inv_def] b]
  show "kbd_inv (buffer_write k c)"
    "pending (buffer_write k c) = (if length (pending k) < 255 then pending k @ [c] else pending k)"
    by (auto simp: buffer_write_def kbd_inv_def spec_enq_def split: if_splits)
qed (simp_all add: buffer_write_def)

lemma length_ascii_tables [simp]: "length SCANCODE_TO_ASCII_LOWER = 128" "length SCANCODE_TO_ASCII_UPPER = 128"
  by (simp_all add: SCANCODE_TO_ASCII_LOWER_def SCANCODE_TO_ASCII_UPPER_def)

lemma low_code_bits:
  assumes "unat (c :: u8) < 128"
  shows "and c 0x80 = 0" "and c 0x7F = c" "and (or c 0x80) 0x80 \<noteq> 0" "and (or c 0x80) 0x7F = c"
    "or c 0x80 = 0xE0 \<longleftrightarrow> c = 0x60"
proof -
  have m: "(0x7F :: u8) = mask 7" by (simp add: mask_eq_exp_minus_1)
  have "take_bit 7 c = c" using assms by (simp add: word_unat_eq_iff unsigned_take_bit_eq take_bit_eq_mod unat_mod)
  then show c7F: "and c 0x7F = c" by (simp add: m take_bit_eq_mask)
  have "and (and c 0x7F) 0x80 = 0" by (simp only: and.assoc) simp
  then show c80: "and c 0x80 = 0" by (simp only: c7F)
  show "and (or c 0x80) 0x80 \<noteq> 0" by (simp add: bit.conj_disj_distrib2 c80)
  show r: "and (or c 0x80) 0x7F = c" by (simp add: bit.conj_disj_distrib2 c7F)
  show "or c 0x80 = 0xE0 \<longleftrightarrow> c = 0x60"
  proof
    assume "or c 0x80 = 0xE0"
    with r show "c = 0x60" by auto
  qed simp
qed

lemma no_modifier_key:
  assumes "modifier_event c False False = None"
  shows "modifier_event c r False = None" "c \<noteq> 0x2A" "c \<noteq> 0x36" "c \<noteq> 0x1D" "c \<noteq> 0x38"
  using assms by (auto simp: modifier_event_def split: if_splits)

lemma not_extended [simp]: "\<not> extended_scancode k \<Longrightarrow> k\<lparr>extended_scancode := False\<rparr> = k"
  by (cases k) simp

lemma press_ascii:
  assumes "ascii_key (mod_shift (modifier_state k)) c" "\<not> extended_scancode k" "\<not> caps_lock (modifier_state k)"
  shows "handle_scancode k c = buffer_write k (typed_char (mod_shift (modifier_state k)) c)"
proof -
  have c: "unat c < 58" "modifier_event c False False = None" using assms(1) by (simp_all add: ascii_key_def)
  then have "c \<noteq> 0xE0" by auto
  with c assms low_code_bits(1,2)[of c] show ?thesis
    by (auto simp: handle_scancode_def scancode_to_keyevent_def ascii_table_def ascii_key_def typed_char_def)
qed

lemma release_ascii:
  assumes "ascii_key shift c" "\<not> extended_scancode k"
  shows "handle_scancode k (or c 0x80) = k"
proof -
  have c: "unat c < 58" "modifier_event c False False = None" using assms(1) by (simp_all add: ascii_key_def)
  then have "c \<noteq> 0x60" by auto
  with c assms low_code_bits(3-5)[of c] no_modifier_key[OF c(2)] show ?thesis
    by (simp add: handle_scancode_def scancode_to_keyevent_def key_released_def)
qed

lemma shift_codes:
  assumes "\<not> extended_scancode k"
  shows "handle_scancode k 0x2A = k\<lparr>modifier_state := (modifier_state k)\<lparr>left_shift := True\<rparr>\<rparr>"
    and "handle_scancode k 0xAA = k\<lparr>modifier_state := (modifier_state k)\<lparr>left_shift := False\<rparr>\<rparr>"
  using assms by (simp_all add: handle_scancode_def scancode_to_keyevent_def modifier_event_def key_released_def)

lemma char_key_cases:
  assumes "char_key shift c" "c \<notin> {0x0E, 0x0F, 0x1C}"
  shows "ascii_key shift c"
proof -
  have "typed_char shift d = 0" if "d \<in> {0x2A, 0x36, 0x1D, 0x38, 0x01}" for d
    using that by (auto simp: typed_char_def SCANCODE_TO_ASCII_LOWER_def SCANCODE_TO_ASCII_UPPER_def)
  with assms have "c \<notin> {0x2A, 0x36, 0x1D, 0x38, 0x01}" unfolding char_key_def by blast
  moreover have "c \<noteq> 0x3A" using assms(1) by (auto simp: char_key_def)
  ultimately show ?thesis using assms by (simp add: ascii_key_def char_key_def modifier_event_def)
qed

lemma press_release_twice:
  assumes "c \<in> {0x0E, 0x0F, 0x1C}" "\<not> extended_scancode k"
  shows "handle_scancode k c = buffer_write k (typed_char shift c)"
    "handle_scancode k (or c 0x80) = buffer_write k (typed_char shift c)"
  using assms by (auto simp: handle_scancode_def scancode_to_keyevent_def modifier_event_def key_released_def
    typed_char_def SCANCODE_TO_ASCII_LOWER_def SCANCODE_TO_ASCII_UPPER_def)

lemma press_release_delivers:
  assumes "kbd_inv k" "\<not> extended_scancode k" "mod_shift (modifier_state k) = shift" "\<not> caps_lock (modifier_state k)"
    and "char_key shift c" "length (pending k) + length (delivered shift c) \<le> 255"
  shows "\<exists>k'. handle_scancode (handle_scancode k c) (or c 0x80) = k' \<and> kbd_inv k' \<and>
     pending k' = pending k @ delivered shift c \<and> modifier_state k' = modifier_state k \<and> \<not> extended_scancode k'"
proof -
  let ?ch = "typed_char shift c" and ?b = "buffer_write k (typed_char shift c)"
  note w = buffer_write_pending[OF assms(1), of ?ch]
  have ext: "\<not> extended_scancode ?b" using w(4) assms(2) by simp
  show ?thesis
  proof (cases "c \<in> {0x0E, 0x0F, 0x1C}")
    case True
    then have two: "delivered shift c = [?ch, ?ch]" unfolding delivered_def by (simp add: numeral_2_eq_2)
    have "handle_scancode (handle_scancode k c) (or c 0x80) = buffer_write ?b ?ch"
      using press_release_twice(1)[OF True assms(2), of shift] press_release_twice(2)[OF True ext, of shift] by simp
    with w buffer_write_pending[OF w(1), of ?ch] assms(2,6) two show ?thesis by simp
  next
    case False
    then have one: "delivered shift c = [?ch]" unfolding delivered_def by simp
    note a = char_key_cases[OF assms(5) False]
    have "handle_scancode (handle_scancode k c) (or c 0x80) = ?b"
      using press_ascii[of k c] release_ascii[OF a ext] a assms(2-4) by simp
    with w assms(2,6) one show ?thesis by simp
  qed
qed

lemma keystroke_typed:
  assumes "at_rest k" "char_key shift c" "length (pending k) + length (delivered shift c) \<le> 255" "keyboard_byte status"
  shows "at_rest (handle_irqs status (keystroke shift c) k) \<and>
     pending (handle_irqs status (keystroke shift c) k) = pending k @ delivered shift c"
proof -
  let ?k = "if shift then k\<lparr>modifier_state := (modifier_state k)\<lparr>left_shift := True\<rparr>\<rparr> else k"
  have k: "kbd_inv k" "\<not> extended_scancode k" "modifier_state k = ModifierState_new"
    using assms(1) by (simp_all add: at_rest_def)
  have kk: "kbd_inv ?k" "\<not> extended_scancode ?k" "mod_shift (modifier_state ?k) = shift"
    "\<not> caps_lock (modifier_state ?k)" "pending ?k = pending k"
    using k by (auto simp: kbd_inv_def mod_shift_def ModifierState_new_def)
  from press_release_delivers[OF kk(1-4) assms(2)] assms(3) kk(5) obtain b where
    b: "handle_scancode (handle_scancode ?k c) (or c 0x80) = b" "kbd_inv b"
      "pending b = pending k @ delivered shift c" "modifier_state b = modifier_state ?k" "\<not> extended_scancode b" by auto
  have "handle_irqs status (keystroke shift c) k = (if shift then b\<lparr>modifier_state := ModifierState_new\<rparr> else b)"
    using assms(4) k b(1,4,5) shift_codes[of k] shift_codes(2)[of b]
    by (auto simp: handle_irqs_def keystroke_def ModifierState_new_def)
  then show ?thesis using b k(3) by (auto simp: at_rest_def kbd_inv_def)
qed

lemma handle_irqs_append: "handle_irqs status (xs @ ys) k = handle_irqs status ys (handle_irqs status xs k)"
  by (simp add: handle_irqs_def)

lemma typing_pending:
  assumes "at_rest k" "\<forall>(s, c) \<in> set keys. char_key s c" "keyboard_byte status"
    "length (pending k) + length (concat (map (case_prod delivered) keys)) \<le> 255"
  shows "at_rest (handle_irqs status (concat (map (case_prod keystroke) keys)) k) \<and>
     pending (handle_irqs status (concat (map (case_prod keystroke) keys)) k) = pending k @ concat (map (case_prod delivered) keys)"
  using assms(1,2,4)
proof (induction keys arbitrary: k)
  case Nil
  then show ?case by (simp add: handle_irqs_def)
next
  case (Cons key keys)
  obtain s c where key: "key = (s, c)" by fastforce
  with Cons.prems have "char_key s c" "length (pending k) + length (delivered s c) \<le> 255" by auto
  note t = keystroke_typed[OF Cons.prems(1) this assms(3)]
  note Cons.prems(3)
  with t Cons.IH[of "handle_irqs status (keystroke s c) k"] Cons.prems(2) key show ?case
    by (auto simp: handle_irqs_append)
qed

lemma read_char_pending:
  assumes "kbd_inv k"
  shows "kbd_inv (fst (read_char k))"
    and "spec_deq (pending k) = (pending (fst (read_char k)), snd (read_char k))"
    and "modifier_state (fst (read_char k)) = modifier_state k"
    and "extended_scancode (fst (read_char k)) = extended_scancode k"
  using cb_read_items[OF assms[unfolded kbd_inv_def]]
  by (auto simp: read_char_def kbd_inv_def split: prod.split)

lemma read_chars_pending:
  assumes "kbd_inv k" "n \<le> length (pending k)"
  shows "\<exists>k'. read_chars n k = (k', take n (pending k)) \<and> kbd_inv k' \<and> pending k' = drop n (pending k) \<and>
     modifier_state k' = modifier_state k \<and> extended_scancode k' = extended_scancode k"
  using assms
proof (induction n arbitrary: k)
  case (Suc n)
  obtain k1 r where r: "read_char k = (k1, r)" by fastforce
  obtain c cs where p: "pending k = c # cs" using Suc.prems(2) by (cases "pending k") auto
  have k1: "kbd_inv k1" "pending k1 = cs" "r = Some c" "modifier_state k1 = modifier_state k"
    "extended_scancode k1 = extended_scancode k"
    using read_char_pending[OF Suc.prems(1)] r p by (auto simp: spec_deq_def)
  from Suc.IH[OF k1(1)] Suc.prems(2) k1 p r show ?case by auto
qed simp

section \<open>Properties\<close>

text \<open>
  Claim C34 (the input buffer is a bounded queue): for every buffer size, any
  sequence of writes and reads of the circular buffer gives the results of a
  first-in first-out queue that holds one element less than the buffer has
  cells; a write is refused exactly when the queue is full.
\<close>

theorem keyboard_buffer_queue:
  fixes b :: "('a::zero) CircularBuffer"
  assumes "0 < n" "run_queue_ops cb_write cb_read (CircularBuffer_new n) ops = (b, outs)"
  shows "run_queue_ops (spec_enq (n - 1)) spec_deq [] ops = (cb_items b, outs) \<and>
     cb_available b = length (cb_items b) \<and> (cb_has_data b \<longleftrightarrow> cb_items b \<noteq> []) \<and>
     (cb_is_full b \<longleftrightarrow> length (cb_items b) = n - 1)"
proof -
  note new = cb_inv_new[OF assms(1), where 'a = 'a]
  from ring.run_refines[OF conjunct1[OF new] assms(2)] new
  have r: "cb_inv n b" "run_queue_ops (spec_enq (n - 1)) spec_deq [] ops = (cb_items b, outs)" by simp_all
  have "cb_items b \<noteq> [] \<longleftrightarrow> cb_available b \<noteq> 0" by (simp flip: length_cb_items)
  with r cb_empty_iff[OF r(1)] cb_full_iff[OF r(1)] show ?thesis
    by (auto simp: cb_has_data_def cb_is_full_def cb_inv_def)
qed

theorem keyboard_buffer_queue_witness:
  "\<exists>b. run_queue_ops cb_write cb_read (CircularBuffer_new 3) [Enq (5 :: u8), Enq 6, Enq 7, Deq]
     = (b, [Accepted True, Accepted True, Accepted False, Taken (Some 5)]) \<and> cb_items b = [6]"
proof -
  obtain b outs where r: "run_queue_ops cb_write cb_read (CircularBuffer_new 3) [Enq (5 :: u8), Enq 6, Enq 7, Deq] = (b, outs)"
    by fastforce
  from keyboard_buffer_queue[OF _ r] r show ?thesis by (auto simp: spec_enq_def spec_deq_def)
qed

text \<open>
  Claim C35 (typed text is read back): when the keyboard is at rest with an
  empty buffer, and keys that carry a character are typed, each pressed and
  released, with or without the left shift key held, then reads return the
  characters of the keys in order, as long as they fit into the 255 places of
  the buffer, and leave the buffer empty and the keyboard at rest.  A key
  delivers its character once, except Backspace, Tab and Enter, which deliver
  it twice.
\<close>

theorem keyboard_typing_roundtrip:
  assumes "at_rest k" "pending k = []" "keyboard_byte status" "\<forall>(s, c) \<in> set keys. char_key s c"
    and "cs = concat (map (case_prod delivered) keys)" "length cs \<le> 255"
  shows "\<exists>k'. read_chars (length cs) (handle_irqs status (concat (map (case_prod keystroke) keys)) k) = (k', cs) \<and>
     pending k' = [] \<and> at_rest k'"
proof -
  let ?k = "handle_irqs status (concat (map (case_prod keystroke) keys)) k"
  have t: "at_rest ?k" "pending ?k = cs"
    using typing_pending[OF assms(1,4,3)] assms(2,5,6) by simp_all
  from read_chars_pending[of ?k "length cs"] t show ?thesis by (auto simp: at_rest_def)
qed

text \<open>The witness types a capital H, an i and the Enter key.\<close>

theorem keyboard_typing_roundtrip_witness:
  "\<exists>k'. read_chars 4 (handle_irqs 0x1D [0x2A, 0x23, 0xA3, 0xAA, 0x17, 0x97, 0x1C, 0x9C] keyboard_init)
     = (k', [0x48, 0x69, 0x0A, 0x0A]) \<and> at_rest k'"
proof -
  let ?keys = "[(True, 0x23), (False, 0x17), (False, 0x1C)]"
  have two: "replicate 2 x = [x, x]" for x :: u8 by (simp add: numeral_2_eq_2)
  have ch: "typed_char True 0x23 = 0x48" "typed_char False 0x17 = 0x69" "typed_char False 0x1C = 0x0A"
    by (simp_all add: typed_char_def SCANCODE_TO_ASCII_LOWER_def SCANCODE_TO_ASCII_UPPER_def)
  have "at_rest keyboard_init" "pending keyboard_init = []"
    using cb_inv_new[of 256, where 'a = u8]
    by (simp_all add: at_rest_def kbd_inv_def keyboard_init_def INPUT_BUFFER_SIZE_def)
  moreover have "\<forall>(s, c) \<in> set ?keys. char_key s c"
    and txt_eq: "concat (map (case_prod delivered) ?keys) = [0x48, 0x69, 0x0A, 0x0A]"
    using ch two by (simp_all add: char_key_def delivered_def)
  moreover have "keyboard_byte 0x1D" by (simp add: keyboard_byte_def STATUS_OBF_def STATUS_AUXDATA_def)
  ultimately show ?thesis
    using keyboard_typing_roundtrip[of keyboard_init "0x1D" ?keys, OF _ _ _ _ txt_eq[symmetric]]
    by (auto simp: keystroke_def eval_nat_numeral)
qed

text \<open>
  Releases that are taken for presses: pressing and releasing Enter,
  Backspace or Tab once delivers its character twice; pressing and releasing
  Caps Lock leaves its state as it was, because both codes toggle it; and after
  pressing and releasing the right Ctrl or right Alt key the key still counts
  as held, because the code of the release is not the one that clears it.
\<close>

lemma keyboard_release_handling:
  assumes "at_rest k" "length (pending k) \<le> 253" "keyboard_byte status"
  shows "pending (handle_irqs status [0x1C, 0x9C] k) = pending k @ [0x0A, 0x0A] \<and>
     pending (handle_irqs status [0x0E, 0x8E] k) = pending k @ [0x08, 0x08] \<and>
     pending (handle_irqs status [0x0F, 0x8F] k) = pending k @ [0x09, 0x09] \<and>
     handle_irqs status [0x3A, 0xBA] k = k \<and>
     mod_ctrl (modifier_state (handle_irqs status [0xE0, 0x1D, 0xE0, 0x9D] k)) \<and>
     mod_alt (modifier_state (handle_irqs status [0xE0, 0x38, 0xE0, 0xB8] k))"
proof -
  have k: "kbd_inv k" "\<not> extended_scancode k" using assms(1) by (simp_all add: at_rest_def)
  have two: "pending (buffer_write (buffer_write k c) c) = pending k @ [c, c]" for c
    using buffer_write_pending[OF k(1)] buffer_write_pending(2)[OF buffer_write_pending(1)[OF k(1)]] assms(2) by simp
  show ?thesis
    using k assms(3) two buffer_write_pending(4)[OF k(1)]
    by (simp add: handle_irqs_def handle_scancode_def scancode_to_keyevent_def modifier_event_def key_released_def
        mod_ctrl_def mod_alt_def)
qed

lemma keyboard_release_handling_witness:
  "pending (handle_irqs 1 [0x1C, 0x9C] keyboard_init) = [0x0A, 0x0A] \<and>
     handle_irqs 1 [0x3A, 0xBA] keyboard_init = keyboard_init"
proof -
  have "at_rest keyboard_init" "pending keyboard_init = []"
    using cb_inv_new[of 256, where 'a = u8]
    by (simp_all add: at_rest_def kbd_inv_def keyboard_init_def INPUT_BUFFER_SIZE_def)
  with keyboard_release_handling[of keyboard_init 1] show ?thesis
    by (simp add: keyboard_byte_def STATUS_OBF_def STATUS_AUXDATA_def)
qed



end
