(* ===== verification/Ps2_Controller.thy ===== *)
theory Ps2_Controller
  imports Keyboard
begin

text \<open>
  The port protocol of \<open>drivers/keyboard/ps2.rs\<close> and the driver's \<open>init\<close>.  The
  controller behind the two ports is a parameter: a state and the effect of
  reading and writing each port on it.  The delay loops of \<open>nop\<close> instructions
  are left out.  The lemmas show that every loop ends, whatever the controller
  answers, and which bytes are written in which order.
\<close>

section \<open>Model\<close>

record 'd ports =
  in_status :: "'d \<Rightarrow> u8 \<times> 'd"
  in_data :: "'d \<Rightarrow> u8 \<times> 'd"
  out_cmd :: "u8 \<Rightarrow> 'd \<Rightarrow> 'd"
  out_data :: "u8 \<Rightarrow> 'd \<Rightarrow> 'd"

definition STATUS_IBF :: u8 where "STATUS_IBF = 0x02"
definition CMD_DISABLE_KEYBOARD :: u8 where "CMD_DISABLE_KEYBOARD = 0xAD"
definition CMD_ENABLE_KEYBOARD :: u8 where "CMD_ENABLE_KEYBOARD = 0xAE"
definition CMD_READ_CONFIG :: u8 where "CMD_READ_CONFIG = 0x20"
definition CMD_WRITE_CONFIG :: u8 where "CMD_WRITE_CONFIG = 0x60"
definition KBD_DISABLE_SCANNING :: u8 where "KBD_DISABLE_SCANNING = 0xF5"
definition KBD_ENABLE_SCANNING :: u8 where "KBD_ENABLE_SCANNING = 0xF4"

text \<open>The wait for an empty input buffer, with the remaining value of the counter \<open>timeout\<close>.\<close>

fun wait_input_empty :: "'d ports \<Rightarrow> nat \<Rightarrow> 'd \<Rightarrow> 'd" where
  "wait_input_empty hw 0 d = d"
| "wait_input_empty hw (Suc timeout) d =
     (let (status, d1) = in_status hw d
      in if and status STATUS_IBF = 0 then d1 else wait_input_empty hw timeout d1)"

definition controller_write :: "'d ports \<Rightarrow> u8 \<Rightarrow> 'd \<Rightarrow> 'd" where
  "controller_write hw cmd d = out_cmd hw cmd (wait_input_empty hw 100000 d)"

definition write_data_port :: "'d ports \<Rightarrow> u8 \<Rightarrow> 'd \<Rightarrow> 'd" where
  "write_data_port hw cmd d = out_data hw cmd (wait_input_empty hw 100000 d)"

fun flush_from :: "'d ports \<Rightarrow> nat \<Rightarrow> 'd \<Rightarrow> 'd" where
  "flush_from hw 0 d = snd (in_status hw d)"
| "flush_from hw (Suc n) d =
     (let (status, d1) = in_status hw d
      in if and status STATUS_OBF \<noteq> 0 then flush_from hw n (snd (in_data hw d1)) else d1)"

definition flush_output_buffer :: "'d ports \<Rightarrow> 'd \<Rightarrow> 'd" where
  "flush_output_buffer hw d = flush_from hw 128 d"

fun read_timeout_from :: "'d ports \<Rightarrow> nat \<Rightarrow> 'd \<Rightarrow> u8 option \<times> 'd" where
  "read_timeout_from hw 0 d = (None, d)"
| "read_timeout_from hw (Suc timeout) d =
     (let (status, d1) = in_status hw d
      in if and status STATUS_OBF \<noteq> 0 then (let (b, d2) = in_data hw d1 in (Some b, d2))
         else read_timeout_from hw timeout d1)"

definition keyboard_read_timeout :: "'d ports \<Rightarrow> 'd \<Rightarrow> u8 option \<times> 'd" where
  "keyboard_read_timeout hw d = read_timeout_from hw 100000 d"

text \<open>The additional flush: at most \<open>n\<close> reads, until the buffer is empty.\<close>

fun drain_output :: "'d ports \<Rightarrow> nat \<Rightarrow> 'd \<Rightarrow> 'd" where
  "drain_output hw 0 d = d"
| "drain_output hw (Suc n) d =
     (let (status, d1) = in_status hw d
      in if and status STATUS_OBF = 0 then d1 else drain_output hw n (snd (in_data hw d1)))"

definition ps2_controller_init :: "'d ports \<Rightarrow> 'd \<Rightarrow> 'd" where
  "ps2_controller_init hw d =
     (let d1 = controller_write hw CMD_DISABLE_KEYBOARD d;
          d2 = flush_output_buffer hw d1;
          d3 = controller_write hw CMD_READ_CONFIG d2;
          (r, d4) = keyboard_read_timeout hw d3;
          config = (case r of Some c \<Rightarrow> c | None \<Rightarrow> 0x41);
          new_config = or config 0x01;
          d5 = controller_write hw CMD_WRITE_CONFIG d4;
          d6 = write_data_port hw new_config d5
      in controller_write hw CMD_ENABLE_KEYBOARD d6)"

definition ps2_keyboard_init :: "'d ports \<Rightarrow> 'd \<Rightarrow> 'd" where
  "ps2_keyboard_init hw d =
     (let d1 = write_data_port hw KBD_DISABLE_SCANNING d;
          d2 = snd (keyboard_read_timeout hw d1);
          d3 = flush_output_buffer hw d2;
          d4 = drain_output hw 256 d3;
          d5 = write_data_port hw KBD_ENABLE_SCANNING d4
      in snd (keyboard_read_timeout hw d5))"

definition init_keyboard :: "'d ports \<Rightarrow> 'd \<Rightarrow> keyboard \<times> 'd" where
  "init_keyboard hw d =
     (let d1 = ps2_controller_init hw d;
          d2 = ps2_keyboard_init hw d1;
          d3 = flush_output_buffer hw d2
      in (keyboard_init, drain_output hw 256 d3))"

section \<open>What is written to the controller\<close>

text \<open>The same controller with a log of the writes, to the command port and to the data port.\<close>

datatype port_write = Cmd u8 | Data u8

definition logged :: "'d ports \<Rightarrow> ('d \<times> port_write list) ports" where
  "logged hw = \<lparr>
     in_status = (\<lambda>(d, log). let (s, d1) = in_status hw d in (s, (d1, log))),
     in_data = (\<lambda>(d, log). let (b, d1) = in_data hw d in (b, (d1, log))),
     out_cmd = (\<lambda>c (d, log). (out_cmd hw c d, log @ [Cmd c])),
     out_data = (\<lambda>c (d, log). (out_data hw c d, log @ [Data c]))\<rparr>"

lemma logged_reads [simp]:
  "snd (snd (in_status (logged hw) x)) = snd x" "snd (snd (in_data (logged hw) x)) = snd x"
  by (auto simp: logged_def split: prod.splits)

lemma logged_writes [simp]:
  "snd (out_cmd (logged hw) c x) = snd x @ [Cmd c]" "snd (out_data (logged hw) c x) = snd x @ [Data c]"
  by (auto simp: logged_def split: prod.splits)

lemma wait_input_empty_log [simp]: "snd (wait_input_empty (logged hw) n x) = snd x"
  by (induction n arbitrary: x) (simp_all add: case_prod_unfold Let_def)

lemma flush_from_log [simp]: "snd (flush_from (logged hw) n x) = snd x"
  by (induction n arbitrary: x) (simp_all add: case_prod_unfold Let_def)

lemma read_timeout_log [simp]: "snd (snd (read_timeout_from (logged hw) n x)) = snd x"
  by (induction n arbitrary: x) (simp_all add: case_prod_unfold Let_def)

lemma drain_output_log [simp]: "snd (drain_output (logged hw) n x) = snd x"
  by (induction n arbitrary: x) (simp_all add: case_prod_unfold Let_def)

lemma port_writes_log [simp]:
  "snd (controller_write (logged hw) c x) = snd x @ [Cmd c]" "snd (write_data_port (logged hw) c x) = snd x @ [Data c]"
  "snd (flush_output_buffer (logged hw) x) = snd x" "snd (snd (keyboard_read_timeout (logged hw) x)) = snd x"
  by (simp_all add: controller_write_def write_data_port_def flush_output_buffer_def keyboard_read_timeout_def)

text \<open>
  Whatever the controller answers, the driver writes the same commands in the
  same order, the configuration it writes back has the interrupt bit set, and
  the driver starts with an empty buffer and no modifier held.
\<close>

lemma init_keyboard_writes:
  "\<exists>config. snd (snd (init_keyboard (logged hw) (d, []))) =
     [Cmd 0xAD, Cmd 0x20, Cmd 0x60, Data (or config 1), Cmd 0xAE, Data 0xF5, Data 0xF4] \<and>
     fst (init_keyboard (logged hw) (d, [])) = keyboard_init"
  by (simp add: init_keyboard_def ps2_controller_init_def ps2_keyboard_init_def Let_def case_prod_unfold
      CMD_DISABLE_KEYBOARD_def CMD_READ_CONFIG_def CMD_WRITE_CONFIG_def CMD_ENABLE_KEYBOARD_def
      KBD_DISABLE_SCANNING_def KBD_ENABLE_SCANNING_def) blast

end
