(* ===== verification/Bytes.thy ===== *)
theory Bytes
  imports Prelude
begin

text \<open>
  Little-endian fields in byte images, as the ramdisk and the executable loader
  read them through pointers to packed structures, and reading a window of an
  image: a read that leaves the image has no value.  Memory is a function from
  byte addresses to bytes.
\<close>

section \<open>Little-endian numbers\<close>

fun le_nat :: "u8 list \<Rightarrow> nat" where
  "le_nat [] = 0"
| "le_nat (b # bs) = unat b + 256 * le_nat bs"

fun nat_le :: "nat \<Rightarrow> nat \<Rightarrow> u8 list" where
  "nat_le 0 x = []"
| "nat_le (Suc n) x = of_nat (x mod 256) # nat_le n (x div 256)"

lemma length_nat_le [simp]: "length (nat_le n x) = n"
  by (induction n arbitrary: x) auto

lemma unat_u8_mod [simp]: "unat (of_nat (x mod 256) :: u8) = x mod 256"
  by (simp add: unat_of_nat)

lemma le_nat_nat_le: "le_nat (nat_le n x) = x mod 256 ^ n"
proof (induction n arbitrary: x)
  case (Suc n)
  have "le_nat (nat_le (Suc n) x) = x mod 256 + 256 * (x div 256 mod 256 ^ n)" using Suc by simp
  also have "\<dots> = x mod (256 * 256 ^ n)" by (simp add: mod_mult2_eq)
  finally show ?case by simp
qed simp

lemma le_nat_nat_le_small: "x < 256 ^ n \<Longrightarrow> le_nat (nat_le n x) = x"
  by (simp add: le_nat_nat_le)

lemma unat_u8_bound: "unat (b :: u8) < 256"
  using unsigned_less[of b] by simp

lemma le_nat_less: "le_nat bs < 256 ^ length bs"
proof (induction bs)
  case (Cons b bs)
  have "le_nat (b # bs) < 256 + 256 * le_nat bs" using unat_u8_bound[of b] by simp
  also have "\<dots> = 256 * Suc (le_nat bs)" by simp
  also have "\<dots> \<le> 256 * 256 ^ length bs" using Cons by (intro mult_le_mono2) simp
  finally show ?case by simp
qed simp

lemma nat_le_le_nat: "length bs = n \<Longrightarrow> nat_le n (le_nat bs) = bs"
proof (induction bs arbitrary: n)
  case (Cons b bs)
  then obtain m where m: "n = Suc m" "length bs = m" by (cases n) auto
  have "le_nat (b # bs) mod 256 = unat b" "le_nat (b # bs) div 256 = le_nat bs"
    using unat_u8_bound[of b] by simp_all
  with Cons.IH[OF m(2)] m(1) show ?case by simp
qed simp

section \<open>Windows of an image\<close>

definition window :: "u8 list \<Rightarrow> nat \<Rightarrow> nat \<Rightarrow> u8 list option" where
  "window d off n = (if off + n \<le> length d then Some (take n (drop off d)) else None)"

lemma window_append:
  "length xs = off \<Longrightarrow> length ys = n \<Longrightarrow> window (xs @ ys @ zs) off n = Some ys"
  by (auto simp: window_def)

lemma window_length: "window d off n = Some bs \<Longrightarrow> length bs = n"
  by (auto simp: window_def split: if_splits)

definition read_le :: "nat \<Rightarrow> u8 list \<Rightarrow> nat \<Rightarrow> nat option" where
  "read_le n d off = map_option le_nat (window d off n)"

lemma read_le_append:
  "length xs = off \<Longrightarrow> x < 256 ^ n \<Longrightarrow> read_le n (xs @ nat_le n x @ zs) off = Some x"
  by (simp add: read_le_def window_append[of xs off "nat_le n x" n] le_nat_nat_le)

lemma read_le_bound: "read_le n d off = Some x \<Longrightarrow> x < 256 ^ n"
  using le_nat_less by (auto simp: read_le_def dest!: window_length)

section \<open>Memory\<close>

type_synonym memory = "nat \<Rightarrow> u8"

definition mem_write :: "memory \<Rightarrow> nat \<Rightarrow> u8 list \<Rightarrow> memory" where
  "mem_write m v bs = (\<lambda>a. if v \<le> a \<and> a < v + length bs then bs ! (a - v) else m a)"

definition mem_read :: "memory \<Rightarrow> nat \<Rightarrow> nat \<Rightarrow> u8 list" where
  "mem_read m v n = map (\<lambda>i. m (v + i)) [0..<n]"

lemma mem_read_write_same: "length bs = n \<Longrightarrow> mem_read (mem_write m a bs) a n = bs"
  by (auto simp: mem_read_def mem_write_def intro: nth_equalityI)

lemma mem_read_write_other:
  "a + length bs \<le> b \<or> b + n \<le> a \<Longrightarrow> mem_read (mem_write m a bs) b n = mem_read m b n"
  by (auto simp: mem_read_def mem_write_def)

end
