(* ===== verification/Pmm.thy ===== *)
theory Pmm
  imports Interfaces
begin

text \<open>
  The physical memory manager (\<open>mm/pmm.rs\<close>): arenas of pages with a state per
  page, single-page and contiguous allocation, freeing and reservation, the
  address conversions, and the arena layout that \<open>init.rs\<close> sets up at boot.
  Addresses and sizes are 64-bit words whose arithmetic wraps, as in the
  release profile.  The debug output to port 0xE9 is not modelled.
\<close>

unbundle bit_operations_syntax

section \<open>Page arithmetic\<close>

datatype RxStatus = OK | ERR_INVALID_ARGS | ERR_NO_MEMORY | ERR_NOT_IMPLEMENTED | ERR_ACCESS_DENIED
  | ERR_NOT_FOUND | ERR_BUSY | ERR_IO | ERR_INTERNAL | ERR_NOT_SUPPORTED

definition PAGE_SIZE :: u64 where "PAGE_SIZE = 4096"
definition PAGE_SIZE_SHIFT :: nat where "PAGE_SIZE_SHIFT = 12"
definition PAGE_MASK :: u64 where "PAGE_MASK = PAGE_SIZE - 1"
definition MAX_ARENAS :: nat where "MAX_ARENAS = 8"

definition is_page_aligned :: "u64 \<Rightarrow> bool" where
  "is_page_aligned addr \<longleftrightarrow> (addr AND PAGE_MASK) = 0"

definition align_page_down :: "u64 \<Rightarrow> u64" where
  "align_page_down addr = addr AND NOT PAGE_MASK"

definition align_page_up :: "u64 \<Rightarrow> u64" where
  "align_page_up addr = (addr + PAGE_MASK) AND NOT PAGE_MASK"

definition bytes_to_pages :: "u64 \<Rightarrow> u64" where
  "bytes_to_pages n = (n + PAGE_MASK) div PAGE_SIZE"

definition pages_to_bytes :: "u64 \<Rightarrow> u64" where
  "pages_to_bytes n = push_bit PAGE_SIZE_SHIFT n"

section \<open>Pages and arenas\<close>

datatype PageState = Free | Allocated | Reserved

record ArenaInfo =
  a_name :: "u8 list"
  a_flags :: u32
  a_priority :: u32
  a_base :: u64
  a_size :: u64

definition ArenaInfo_new :: "u8 list \<Rightarrow> u32 \<Rightarrow> u32 \<Rightarrow> u64 \<Rightarrow> u64 \<Rightarrow> ArenaInfo" where
  "ArenaInfo_new name flags prio base sz =
     \<lparr>a_name = take 16 (name @ replicate 16 0), a_flags = flags, a_priority = prio,
      a_base = base, a_size = sz\<rparr>"

definition ArenaInfo_page_count :: "ArenaInfo \<Rightarrow> u64" where
  "ArenaInfo_page_count i = a_size i div PAGE_SIZE"

definition ArenaInfo_end :: "ArenaInfo \<Rightarrow> u64" where
  "ArenaInfo_end i = a_base i + a_size i"

definition ARENA_FLAG_LOW_MEM :: u32 where "ARENA_FLAG_LOW_MEM = 0x1"
definition ARENA_FLAG_HIGH_MEM :: u32 where "ARENA_FLAG_HIGH_MEM = 0x2"
definition ARENA_FLAG_KERNEL :: u32 where "ARENA_FLAG_KERNEL = 0x4"
definition ARENA_FLAG_USER :: u32 where "ARENA_FLAG_USER = 0x8"

definition PMM_ALLOC_FLAG_ANY :: u32 where "PMM_ALLOC_FLAG_ANY = 0x0"
definition PMM_ALLOC_FLAG_LOW_MEM :: u32 where "PMM_ALLOC_FLAG_LOW_MEM = 0x1"
definition PMM_ALLOC_FLAG_KERNEL :: u32 where "PMM_ALLOC_FLAG_KERNEL = 0x4"
definition PMM_ALLOC_FLAG_USER :: u32 where "PMM_ALLOC_FLAG_USER = 0x8"

lemmas pmm_flags = ARENA_FLAG_LOW_MEM_def ARENA_FLAG_HIGH_MEM_def ARENA_FLAG_KERNEL_def
  ARENA_FLAG_USER_def PMM_ALLOC_FLAG_ANY_def PMM_ALLOC_FLAG_LOW_MEM_def
  PMM_ALLOC_FLAG_KERNEL_def PMM_ALLOC_FLAG_USER_def

record Page =
  p_paddr :: u64
  p_state :: PageState
  p_ref_count :: u32
  p_arena_index :: u8
  p_page_index :: u32

definition Page_new :: "u64 \<Rightarrow> u8 \<Rightarrow> u32 \<Rightarrow> Page" where
  "Page_new paddr ai pi =
     \<lparr>p_paddr = paddr, p_state = Free, p_ref_count = 0, p_arena_index = ai, p_page_index = pi\<rparr>"

definition Page_is_free :: "Page \<Rightarrow> bool" where
  "Page_is_free p \<longleftrightarrow> p_state p = Free"

record Arena =
  info :: ArenaInfo
  pages :: "Page list"
  total_count :: u64

definition Arena_init :: "ArenaInfo \<Rightarrow> Page list \<Rightarrow> Arena" where
  "Arena_init i ps = \<lparr>info = i, pages = ps, total_count = of_nat (length ps)\<rparr>"

text \<open>The assignments to \<open>pages[i].state\<close> and \<open>pages[i].ref_count\<close>.\<close>

definition set_page :: "Arena \<Rightarrow> nat \<Rightarrow> PageState \<Rightarrow> u32 \<Rightarrow> Arena" where
  "set_page ar i s rc = ar\<lparr>pages := (pages ar)[i := (pages ar ! i)\<lparr>p_state := s, p_ref_count := rc\<rparr>]\<rparr>"

definition Arena_alloc_page :: "Arena \<Rightarrow> (Arena \<times> u64) option" where
  "Arena_alloc_page ar =
     (case find_index Page_is_free (pages ar) of None \<Rightarrow> None
      | Some i \<Rightarrow>
          Some (set_page ar i Allocated 1, p_paddr (pages ar ! i)))"

definition Arena_free_page :: "Arena \<Rightarrow> u64 \<Rightarrow> Arena \<times> RxStatus" where
  "Arena_free_page ar paddr =
     (let offset = paddr - a_base (info ar) in
      if offset mod PAGE_SIZE \<noteq> 0 then (ar, ERR_INVALID_ARGS)
      else let index = unat (offset div PAGE_SIZE) in
      if index \<ge> unat (total_count ar) then (ar, ERR_INVALID_ARGS)
      else (set_page ar index Free 0, OK))"

definition address_in_arena :: "Arena \<Rightarrow> u64 \<Rightarrow> bool" where
  "address_in_arena ar addr \<longleftrightarrow>
     a_base (info ar) \<le> addr \<and> addr < a_base (info ar) + a_size (info ar)"

definition Arena_count_free_pages :: "Arena \<Rightarrow> nat" where
  "Arena_count_free_pages ar = length (filter Page_is_free (pages ar))"

section \<open>The manager\<close>

text \<open>
  \<open>ARENAS[..NUM_ARENAS]\<close> is the list of active arenas; \<open>NUM_ARENAS\<close> is its
  length.  The page structures of a new arena come from the boot allocator or,
  without one, from the kernel heap: \<open>mem_ok\<close> says that this memory was obtained.
\<close>

type_synonym pmm = "Arena list"

definition new_arena_pages :: "ArenaInfo \<Rightarrow> nat \<Rightarrow> Page list" where
  "new_arena_pages i k =
     map (\<lambda>j. Page_new (a_base i + of_nat j * PAGE_SIZE) (of_nat k) (of_nat j))
       [0..<unat (ArenaInfo_page_count i)]"

definition pmm_add_arena :: "bool \<Rightarrow> pmm \<Rightarrow> ArenaInfo \<Rightarrow> pmm \<times> RxStatus" where
  "pmm_add_arena mem_ok st i =
     (if length st \<ge> MAX_ARENAS then (st, ERR_NO_MEMORY)
      else if ArenaInfo_page_count i = 0 then (st, ERR_INVALID_ARGS)
      else if \<not> mem_ok then (st, ERR_NO_MEMORY)
      else (st @ [Arena_init i (new_arena_pages i (length st))], OK))"

definition pmm_init_early :: "bool \<Rightarrow> pmm \<Rightarrow> u64 \<Rightarrow> u64 \<Rightarrow> u64 option \<Rightarrow> u64 option \<Rightarrow> pmm" where
  "pmm_init_early mem_ok st low_base low_size high_base high_size =
     (let st1 = fst (pmm_add_arena mem_ok st
                  (ArenaInfo_new [0x6c, 0x6f, 0x77, 0x5f, 0x6d, 0x65, 0x6d, 0] ARENA_FLAG_LOW_MEM 0 low_base low_size))
      in case (high_base, high_size) of
           (Some base, Some sz) \<Rightarrow>
             fst (pmm_add_arena mem_ok st1
                  (ArenaInfo_new [0x68, 0x69, 0x67, 0x68, 0x5f, 0x6d, 0x65, 0x6d, 0] ARENA_FLAG_HIGH_MEM 1 base sz))
         | _ \<Rightarrow> st1)"

definition arena_skipped :: "u32 \<Rightarrow> Arena \<Rightarrow> bool" where
  "arena_skipped flags ar \<longleftrightarrow>
     (flags = PMM_ALLOC_FLAG_LOW_MEM \<and> (a_flags (info ar) AND ARENA_FLAG_LOW_MEM) = 0) \<or>
     (flags = PMM_ALLOC_FLAG_KERNEL \<and> (a_flags (info ar) AND ARENA_FLAG_KERNEL) = 0) \<or>
     (flags = PMM_ALLOC_FLAG_USER \<and> (a_flags (info ar) AND ARENA_FLAG_USER) = 0)"

fun alloc_from :: "u32 \<Rightarrow> Arena list \<Rightarrow> (Arena list \<times> u64) option" where
  "alloc_from flags [] = None"
| "alloc_from flags (ar # ars) =
     (if arena_skipped flags ar then map_option (\<lambda>(ars', p). (ar # ars', p)) (alloc_from flags ars)
      else case Arena_alloc_page ar of
        Some (ar', p) \<Rightarrow> Some (ar' # ars, p)
      | None \<Rightarrow> map_option (\<lambda>(ars', p). (ar # ars', p)) (alloc_from flags ars))"

text \<open>On exhaustion the function logs a message and enters \<open>loop {}\<close>: it never returns an error.\<close>

definition pmm_alloc_page :: "pmm \<Rightarrow> u32 \<Rightarrow> (pmm \<times> (RxStatus + u64)) outcome" where
  "pmm_alloc_page st flags =
     (case alloc_from flags st of Some (st', p) \<Rightarrow> Return (st', Inr p) | None \<Rightarrow> Hang)"

definition pmm_alloc_kernel_page :: "pmm \<Rightarrow> (pmm \<times> (RxStatus + u64)) outcome" where
  "pmm_alloc_kernel_page st = pmm_alloc_page st PMM_ALLOC_FLAG_KERNEL"

definition pmm_alloc_user_page :: "pmm \<Rightarrow> (pmm \<times> (RxStatus + u64)) outcome" where
  "pmm_alloc_user_page st = pmm_alloc_page st PMM_ALLOC_FLAG_USER"

function contiguous_start :: "Page list \<Rightarrow> nat \<Rightarrow> nat \<Rightarrow> nat \<Rightarrow> nat option" where
  "contiguous_start ps tot count start =
     (if start + count \<le> tot then
        (case find_index (\<lambda>p. \<not> Page_is_free p) (take count (drop start ps)) of
           None \<Rightarrow> Some start
         | Some k \<Rightarrow> contiguous_start ps tot count (Suc (start + k)))
      else None)"
  by pat_completeness auto
termination
  by (relation "measure (\<lambda>(ps, tot, count, start). Suc tot - start)") auto

declare contiguous_start.simps [simp del]

definition Arena_alloc_contiguous :: "Arena \<Rightarrow> nat \<Rightarrow> (Arena \<times> u64) option" where
  "Arena_alloc_contiguous ar count =
     (case contiguous_start (pages ar) (unat (total_count ar)) count 0 of
        None \<Rightarrow> None
      | Some s \<Rightarrow>
          Some (fold (\<lambda>page_idx a. set_page a page_idx Allocated 1) [s..<s + count] ar,
                a_base (info ar) + of_nat s * PAGE_SIZE))"

fun contiguous_from :: "u32 \<Rightarrow> nat \<Rightarrow> Arena list \<Rightarrow> (Arena list \<times> u64) option" where
  "contiguous_from flags count [] = None"
| "contiguous_from flags count (ar # ars) =
     (if flags = PMM_ALLOC_FLAG_LOW_MEM \<and> (a_flags (info ar) AND ARENA_FLAG_LOW_MEM) = 0
      then map_option (\<lambda>(ars', p). (ar # ars', p)) (contiguous_from flags count ars)
      else case Arena_alloc_contiguous ar count of
        Some (ar', p) \<Rightarrow> Some (ar' # ars, p)
      | None \<Rightarrow> map_option (\<lambda>(ars', p). (ar # ars', p)) (contiguous_from flags count ars))"

definition pmm_alloc_contiguous :: "pmm \<Rightarrow> nat \<Rightarrow> u32 \<Rightarrow> u8 \<Rightarrow> (pmm \<times> (RxStatus + u64)) outcome" where
  "pmm_alloc_contiguous st count flags align_log2 =
     (if count = 0 then Return (st, Inl ERR_INVALID_ARGS)
      else if count = 1 then pmm_alloc_page st flags
      else case contiguous_from flags count st of
        Some (st', p) \<Rightarrow> Return (st', Inr p)
      | None \<Rightarrow> Return (st, Inl ERR_NO_MEMORY))"

fun pmm_free_page :: "pmm \<Rightarrow> u64 \<Rightarrow> pmm \<times> RxStatus" where
  "pmm_free_page [] paddr = ([], ERR_INVALID_ARGS)"
| "pmm_free_page (ar # ars) paddr =
     (if address_in_arena ar paddr
      then let (ar', s) = Arena_free_page ar paddr in (ar' # ars, s)
      else let (ars', s) = pmm_free_page ars paddr in (ar # ars', s))"

definition Arena_free_range :: "Arena \<Rightarrow> u64 \<Rightarrow> nat \<Rightarrow> Arena" where
  "Arena_free_range ar paddr count =
     fold (\<lambda>i a. fst (Arena_free_page a (paddr + of_nat i * PAGE_SIZE))) [0..<count] ar"

fun free_range_from :: "Arena list \<Rightarrow> u64 \<Rightarrow> u64 \<Rightarrow> Arena list \<times> RxStatus" where
  "free_range_from [] paddr count = ([], ERR_INVALID_ARGS)"
| "free_range_from (ar # ars) paddr count =
     (let end_addr = paddr + count * PAGE_SIZE in
      if address_in_arena ar paddr \<and> address_in_arena ar (end_addr - 1)
      then (Arena_free_range ar paddr (unat count) # ars, OK)
      else let (ars', s) = free_range_from ars paddr count in (ar # ars', s))"

definition pmm_free_contiguous :: "pmm \<Rightarrow> u64 \<Rightarrow> u64 \<Rightarrow> pmm \<times> RxStatus" where
  "pmm_free_contiguous st paddr count =
     (if count = 0 then (st, ERR_INVALID_ARGS) else free_range_from st paddr count)"

definition pmm_count_free_pages :: "pmm \<Rightarrow> nat" where
  "pmm_count_free_pages st = sum_list (map Arena_count_free_pages st)"

definition pmm_count_total_pages :: "pmm \<Rightarrow> u64" where
  "pmm_count_total_pages st = sum_list (map total_count st)"

definition pmm_count_total_bytes :: "pmm \<Rightarrow> u64" where
  "pmm_count_total_bytes st = pmm_count_total_pages st * PAGE_SIZE"

definition Arena_reserve_range :: "Arena \<Rightarrow> u64 \<Rightarrow> nat \<Rightarrow> Arena" where
  "Arena_reserve_range ar paddr count =
     fold (\<lambda>i a.
        let index = unat ((paddr + of_nat i * PAGE_SIZE - a_base (info a)) div PAGE_SIZE)
        in if index < unat (total_count a)
           then set_page a index Reserved (p_ref_count (pages a ! index)) else a)
       [0..<count] ar"

fun reserve_from :: "Arena list \<Rightarrow> u64 \<Rightarrow> u64 \<Rightarrow> Arena list \<times> RxStatus" where
  "reserve_from [] paddr count = ([], ERR_INVALID_ARGS)"
| "reserve_from (ar # ars) paddr count =
     (let end_addr = paddr + count * PAGE_SIZE in
      if address_in_arena ar paddr \<and> address_in_arena ar (end_addr - 1)
      then (Arena_reserve_range ar paddr (unat count) # ars, OK)
      else let (ars', s) = reserve_from ars paddr count in (ar # ars', s))"

definition pmm_reserve_pages :: "pmm \<Rightarrow> u64 \<Rightarrow> u64 \<Rightarrow> pmm \<times> RxStatus" where
  "pmm_reserve_pages st paddr count =
     (if count = 0 then (st, ERR_INVALID_ARGS) else reserve_from st paddr count)"

text \<open>The page found, as its arena and page index; \<open>None\<close> is the null pointer.\<close>

fun paddr_to_page_from :: "nat \<Rightarrow> Arena list \<Rightarrow> u64 \<Rightarrow> (nat \<times> nat) option" where
  "paddr_to_page_from k [] paddr = None"
| "paddr_to_page_from k (ar # ars) paddr =
     (let index = unat ((paddr - a_base (info ar)) div PAGE_SIZE) in
      if address_in_arena ar paddr \<and> index < unat (total_count ar) then Some (k, index)
      else paddr_to_page_from (Suc k) ars paddr)"

definition paddr_to_page :: "pmm \<Rightarrow> u64 \<Rightarrow> (nat \<times> nat) option" where
  "paddr_to_page st paddr = paddr_to_page_from 0 st paddr"

definition KERNEL_PHYS_OFFSET :: u64 where "KERNEL_PHYS_OFFSET = 0xffff800000000000"
definition IDENTITY_MAP_LIMIT :: u64 where "IDENTITY_MAP_LIMIT = 0x80000000"

definition paddr_to_vaddr :: "u64 \<Rightarrow> u64" where
  "paddr_to_vaddr paddr = (if paddr < IDENTITY_MAP_LIMIT then paddr else KERNEL_PHYS_OFFSET + paddr)"

definition paddr_to_vaddr_user_zone :: "u64 \<Rightarrow> u64" where
  "paddr_to_vaddr_user_zone paddr =
     (if paddr < IDENTITY_MAP_LIMIT then paddr else KERNEL_PHYS_OFFSET + paddr)"

section \<open>Boot layout\<close>

definition kernel_info :: ArenaInfo where
  "kernel_info = ArenaInfo_new [0x6b, 0x65, 0x72, 0x6e, 0x65, 0x6c]
     (ARENA_FLAG_LOW_MEM OR ARENA_FLAG_KERNEL) 0 0x00200000 (14 * 1024 * 1024)"

definition user_info :: ArenaInfo where
  "user_info = ArenaInfo_new [0x75, 0x73, 0x65, 0x72]
     (ARENA_FLAG_LOW_MEM OR ARENA_FLAG_USER) 1 0x02000000 (96 * 1024 * 1024)"

definition pmm_boot :: "bool \<Rightarrow> pmm" where
  "pmm_boot mem_ok =
     (let st1 = fst (pmm_add_arena mem_ok [] kernel_info);
          st2 = fst (pmm_add_arena mem_ok st1 user_info)
      in fst (pmm_reserve_pages st2 0x00200000 64))"

section \<open>Abstraction and invariant\<close>

text \<open>
  What the manager promises is a map from page addresses to page states, with
  the flags of the arena the page belongs to.
\<close>

definition arena_entries :: "Arena \<Rightarrow> (u64 \<times> PageState \<times> u32) list" where
  "arena_entries ar = map (\<lambda>pg. (p_paddr pg, p_state pg, a_flags (info ar))) (pages ar)"

definition page_entries :: "pmm \<Rightarrow> (u64 \<times> PageState \<times> u32) list" where
  "page_entries st = concat (map arena_entries st)"

definition pmm_abs :: "pmm \<Rightarrow> u64 \<Rightarrow> (PageState \<times> u32) option" where
  "pmm_abs st = map_of (page_entries st)"

definition zone_excludes :: "u32 \<Rightarrow> u32 \<Rightarrow> bool" where
  "zone_excludes flags fl \<longleftrightarrow>
     (flags = PMM_ALLOC_FLAG_LOW_MEM \<and> (fl AND ARENA_FLAG_LOW_MEM) = 0) \<or>
     (flags = PMM_ALLOC_FLAG_KERNEL \<and> (fl AND ARENA_FLAG_KERNEL) = 0) \<or>
     (flags = PMM_ALLOC_FLAG_USER \<and> (fl AND ARENA_FLAG_USER) = 0)"

definition arena_range :: "Arena \<Rightarrow> nat set" where
  "arena_range ar = {unat (a_base (info ar)) ..< unat (a_base (info ar)) + unat (a_size (info ar))}"

definition arena_inv :: "Arena \<Rightarrow> bool" where
  "arena_inv ar \<longleftrightarrow>
     unat (a_base (info ar)) + unat (a_size (info ar)) < 2 ^ 64 \<and>
     length (pages ar) = unat (a_size (info ar)) div 4096 \<and>
     total_count ar = of_nat (length (pages ar)) \<and>
     (\<forall>i < length (pages ar). p_paddr (pages ar ! i) = a_base (info ar) + of_nat i * PAGE_SIZE)"

definition pmm_inv :: "pmm \<Rightarrow> bool" where
  "pmm_inv st \<longleftrightarrow> (\<forall>ar \<in> set st. arena_inv ar) \<and>
     sorted_wrt (\<lambda>a b. arena_range a \<inter> arena_range b = {}) st"

section \<open>Layout facts\<close>

lemma arena_skipped_zone: "arena_skipped flags ar = zone_excludes flags (a_flags (info ar))"
  by (simp add: arena_skipped_def zone_excludes_def)

lemma arena_inv_total: "arena_inv ar \<Longrightarrow> unat (total_count ar) = length (pages ar)"
  by (auto simp: arena_inv_def unat_of_nat)

lemma arena_page_addr:
  assumes "arena_inv ar" "i < length (pages ar)"
  shows "unat (p_paddr (pages ar ! i)) = unat (a_base (info ar)) + i * 4096"
    and "i * 4096 + 4096 \<le> unat (a_size (info ar))"
proof -
  have i: "Suc i \<le> unat (a_size (info ar)) div 4096" using assms by (simp add: arena_inv_def)
  then have "Suc i * 4096 \<le> unat (a_size (info ar)) div 4096 * 4096" by (rule mult_le_mono1)
  also have "\<dots> \<le> unat (a_size (info ar))" by simp
  finally show le: "i * 4096 + 4096 \<le> unat (a_size (info ar))" by simp
  have b: "unat (a_base (info ar)) + unat (a_size (info ar)) < 2 ^ 64"
    using assms by (simp add: arena_inv_def)
  have m: "unat (of_nat i * PAGE_SIZE :: u64) = i * 4096"
    using le b by (simp add: PAGE_SIZE_def unat_word_ariths unat_of_nat)
  have "p_paddr (pages ar ! i) = a_base (info ar) + of_nat i * PAGE_SIZE"
    using assms by (simp add: arena_inv_def)
  then show "unat (p_paddr (pages ar ! i)) = unat (a_base (info ar)) + i * 4096"
    using m le b by (simp add: unat_word_ariths)
qed

lemma arena_page_in_range:
  assumes "arena_inv ar" "i < length (pages ar)"
  shows "unat (p_paddr (pages ar ! i)) \<in> arena_range ar"
  using arena_page_addr[OF assms] by (simp add: arena_range_def)

lemma address_in_arena_range:
  assumes "arena_inv ar"
  shows "address_in_arena ar a \<longleftrightarrow> unat a \<in> arena_range ar"
proof -
  have "unat (a_base (info ar) + a_size (info ar)) = unat (a_base (info ar)) + unat (a_size (info ar))"
    using assms by (simp add: arena_inv_def unat_word_ariths)
  then show ?thesis by (auto simp: address_in_arena_def arena_range_def word_le_nat_alt word_less_nat_alt)
qed

lemma arena_entries_keys: "map fst (arena_entries ar) = map p_paddr (pages ar)"
  by (simp add: arena_entries_def)

lemma arena_keys_range:
  assumes "arena_inv ar" "k \<in> set (map fst (arena_entries ar))"
  shows "unat k \<in> arena_range ar"
  using assms arena_page_in_range by (auto simp: arena_entries_keys in_set_conv_nth)

lemma arena_keys_distinct: "arena_inv ar \<Longrightarrow> distinct (map fst (arena_entries ar))"
  unfolding arena_entries_keys distinct_conv_nth using arena_page_addr(1)
  by (metis (no_types, lifting) add_left_cancel length_map mult_cancel2 nth_map zero_neq_numeral)

lemma page_entries_distinct:
  assumes "pmm_inv st"
  shows "distinct (map fst (page_entries st))"
  using assms
proof (induction st)
  case Nil
  then show ?case by (simp add: page_entries_def)
next
  case (Cons ar st)
  then have inv: "arena_inv ar" "\<forall>b \<in> set st. arena_inv b \<and> arena_range ar \<inter> arena_range b = {}"
    by (auto simp: pmm_inv_def)
  have "distinct (map fst (page_entries st))" using Cons by (simp add: pmm_inv_def)
  moreover have "set (map fst (arena_entries ar)) \<inter> set (map fst (page_entries st)) = {}"
  proof -
    have "k \<notin> set (map fst (page_entries st))" if "k \<in> set (map fst (arena_entries ar))" for k
    proof
      assume "k \<in> set (map fst (page_entries st))"
      then obtain b where "b \<in> set st" "k \<in> set (map fst (arena_entries b))"
        by (auto simp: page_entries_def)
      with inv arena_keys_range that show False by blast
    qed
    then show ?thesis by blast
  qed
  ultimately show ?case
    using arena_keys_distinct[OF inv(1)] by (simp add: page_entries_def)
qed

section \<open>Changing one page\<close>

lemma map_of_replace_mid:
  assumes "distinct (map fst (xs @ (k, v) # ys))"
  shows "map_of (xs @ (k, v') # ys) = (map_of (xs @ (k, v) # ys))(k \<mapsto> v')"
    and "map_of (xs @ (k, v) # ys) k = Some v"
proof -
  have "k \<notin> fst ` set xs" using assms by auto
  then have "map_of xs k = None" by (simp add: map_of_eq_None_iff)
  then show "map_of (xs @ (k, v') # ys) = (map_of (xs @ (k, v) # ys))(k \<mapsto> v')"
    and "map_of (xs @ (k, v) # ys) k = Some v"
    by (auto simp: fun_eq_iff map_add_def split: option.splits)
qed

lemma arena_entries_set_page:
  assumes "i < length (pages ar)"
  shows "arena_entries (set_page ar i s rc)
     = take i (arena_entries ar) @ (p_paddr (pages ar ! i), s, a_flags (info ar)) # drop (Suc i) (arena_entries ar)"
    and "arena_entries ar
     = take i (arena_entries ar) @ (p_paddr (pages ar ! i), p_state (pages ar ! i), a_flags (info ar))
        # drop (Suc i) (arena_entries ar)"
  using assms id_take_nth_drop[of i "arena_entries ar"]
  by (simp_all add: arena_entries_def set_page_def upd_conv_take_nth_drop take_map drop_map)

lemma set_page_inv: "arena_inv ar \<Longrightarrow> arena_inv (set_page ar i s rc)"
proof -
  have "p_paddr ((pages ar)[i := (pages ar ! i)\<lparr>p_state := s, p_ref_count := rc\<rparr>] ! j) = p_paddr (pages ar ! j)"
    if "j < length (pages ar)" for j
    using that by (cases "i = j") simp_all
  then show "arena_inv ar \<Longrightarrow> arena_inv (set_page ar i s rc)"
    by (simp add: arena_inv_def set_page_def)
qed

lemma set_page_range [simp]: "arena_range (set_page ar i s rc) = arena_range ar"
  by (simp add: arena_range_def set_page_def)

lemma pmm_set_page:
  assumes inv: "pmm_inv (A @ ar # B)" and i: "i < length (pages ar)"
  shows "pmm_inv (A @ set_page ar i s rc # B)"
    and "pmm_abs (A @ set_page ar i s rc # B)
       = (pmm_abs (A @ ar # B))(p_paddr (pages ar ! i) \<mapsto> (s, a_flags (info ar)))"
    and "pmm_abs (A @ ar # B) (p_paddr (pages ar ! i)) = Some (p_state (pages ar ! i), a_flags (info ar))"
proof -
  show "pmm_inv (A @ set_page ar i s rc # B)"
    using inv by (auto simp: pmm_inv_def sorted_wrt_append set_page_inv)
  let ?X = "page_entries A @ take i (arena_entries ar)"
  let ?Y = "drop (Suc i) (arena_entries ar) @ page_entries B"
  let ?k = "p_paddr (pages ar ! i)"
  have old: "page_entries (A @ ar # B) = ?X @ (?k, p_state (pages ar ! i), a_flags (info ar)) # ?Y"
    using arena_entries_set_page(2)[OF i] by (simp add: page_entries_def)
  have new: "page_entries (A @ set_page ar i s rc # B) = ?X @ (?k, s, a_flags (info ar)) # ?Y"
    using arena_entries_set_page(1)[OF i] by (simp add: page_entries_def)
  have d: "distinct (map fst (?X @ (?k, p_state (pages ar ! i), a_flags (info ar)) # ?Y))"
    using page_entries_distinct[OF inv] by (simp only: old)
  show "pmm_abs (A @ set_page ar i s rc # B) = (pmm_abs (A @ ar # B))(?k \<mapsto> (s, a_flags (info ar)))"
    and "pmm_abs (A @ ar # B) ?k = Some (p_state (pages ar ! i), a_flags (info ar))"
    using map_of_replace_mid(1)[OF d, of "(s, a_flags (info ar))"] map_of_replace_mid(2)[OF d]
    by (simp_all only: pmm_abs_def old new)
qed

lemma set_page_fields [simp]:
  "length (pages (set_page ar i s rc)) = length (pages ar)"
  "info (set_page ar i s rc) = info ar"
  "total_count (set_page ar i s rc) = total_count ar"
  by (simp_all add: set_page_def)

lemma set_page_paddr [simp]: "p_paddr (pages (set_page ar i s rc) ! j) = p_paddr (pages ar ! j)"
  by (cases "i < length (pages ar)"; cases "i = j") (simp_all add: set_page_def list_update_beyond)

text \<open>Changing a sequence of pages of one arena to the same state.\<close>

lemma fold_set_page:
  fixes s :: PageState and rc :: "Arena \<Rightarrow> nat \<Rightarrow> u32"
  assumes "pmm_inv (A @ ar # B)" "\<forall>i \<in> set is. i < length (pages ar)"
  defines "ar' \<equiv> fold (\<lambda>i a. set_page a i s (rc a i)) is ar"
  shows "pmm_inv (A @ ar' # B) \<and> info ar' = info ar \<and> total_count ar' = total_count ar \<and>
     length (pages ar') = length (pages ar) \<and> (\<forall>j. p_paddr (pages ar' ! j) = p_paddr (pages ar ! j)) \<and>
     pmm_abs (A @ ar' # B) = (\<lambda>q. if q \<in> (\<lambda>i. p_paddr (pages ar ! i)) ` set is
                               then Some (s, a_flags (info ar)) else pmm_abs (A @ ar # B) q)"
  using assms(1,2) unfolding ar'_def
proof (induction "is" arbitrary: ar)
  case Nil
  then show ?case by simp
next
  case (Cons i "is")
  let ?a = "set_page ar i s (rc ar i)"
  have i: "i < length (pages ar)" using Cons.prems by simp
  note step = pmm_set_page(1,2)[OF Cons.prems(1) i, of s "rc ar i"]
  have IH: "pmm_inv (A @ fold (\<lambda>i a. set_page a i s (rc a i)) is ?a # B) \<and>
      info (fold (\<lambda>i a. set_page a i s (rc a i)) is ?a) = info ?a \<and>
      total_count (fold (\<lambda>i a. set_page a i s (rc a i)) is ?a) = total_count ?a \<and>
      length (pages (fold (\<lambda>i a. set_page a i s (rc a i)) is ?a)) = length (pages ?a) \<and>
      (\<forall>j. p_paddr (pages (fold (\<lambda>i a. set_page a i s (rc a i)) is ?a) ! j) = p_paddr (pages ?a ! j)) \<and>
      pmm_abs (A @ fold (\<lambda>i a. set_page a i s (rc a i)) is ?a # B) =
        (\<lambda>q. if q \<in> (\<lambda>i. p_paddr (pages ?a ! i)) ` set is then Some (s, a_flags (info ?a))
             else pmm_abs (A @ ?a # B) q)"
    using Cons.IH[OF step(1)] Cons.prems(2) by simp
  then show ?case using step(2) by (auto simp: fun_eq_iff)
qed

section \<open>Single pages\<close>

lemma alloc_from_SomeD:
  "alloc_from flags st = Some (st', p) \<Longrightarrow>
   \<exists>A ar B i. st = A @ ar # B \<and> \<not> arena_skipped flags ar \<and> i < length (pages ar) \<and>
     Page_is_free (pages ar ! i) \<and> p = p_paddr (pages ar ! i) \<and> st' = A @ set_page ar i Allocated 1 # B"
proof (induction st arbitrary: st')
  case Nil
  then show ?case by simp
next
  case (Cons ar st)
  show ?case
  proof (cases "arena_skipped flags ar \<or> Arena_alloc_page ar = None")
    case True
    with Cons.prems obtain st1 where "alloc_from flags st = Some (st1, p)" "st' = ar # st1"
      by (auto split: if_splits)
    from Cons.IH[OF this(1)] this(2) show ?thesis by (metis append_Cons)
  next
    case False
    with Cons.prems obtain ar' where a: "Arena_alloc_page ar = Some (ar', p)" "st' = ar' # st" by auto
    from a(1) obtain i where i: "find_index Page_is_free (pages ar) = Some i"
      "ar' = set_page ar i Allocated 1" "p = p_paddr (pages ar ! i)"
      by (auto simp: Arena_alloc_page_def split: option.splits)
    with find_index_SomeD[OF i(1)] a(2) False show ?thesis by (metis append_Nil)
  qed
qed

lemma alloc_from_None_iff:
  "alloc_from flags st = None \<longleftrightarrow>
   (\<forall>ar \<in> set st. \<not> arena_skipped flags ar \<longrightarrow> (\<forall>pg \<in> set (pages ar). \<not> Page_is_free pg))"
  by (induction st)
    (auto simp: Arena_alloc_page_def find_index_None_iff split: option.splits
      dest!: find_index_SomeD intro: nth_mem)

lemma pmm_abs_mem:
  "pmm_inv st \<Longrightarrow> pmm_abs st p = Some (s, fl) \<longleftrightarrow>
   (\<exists>ar \<in> set st. \<exists>pg \<in> set (pages ar). p_paddr pg = p \<and> p_state pg = s \<and> a_flags (info ar) = fl)"
  using map_of_eq_Some_iff[OF page_entries_distinct, of st p "(s, fl)"]
  by (auto simp: pmm_abs_def page_entries_def arena_entries_def)

lemma pmm_alloc_page_refines:
  assumes "pmm_inv st" "alloc_from flags st = Some (st', p)"
  shows "pmm_inv st' \<and> (\<exists>fl. pmm_abs st p = Some (Free, fl) \<and> \<not> zone_excludes flags fl \<and>
           pmm_abs st' = (pmm_abs st)(p \<mapsto> (Allocated, fl)))"
  using alloc_from_SomeD[OF assms(2)] pmm_set_page assms(1)
  by (auto simp: arena_skipped_zone Page_is_free_def)

lemma pmm_alloc_page_hangs_iff:
  assumes "pmm_inv st"
  shows "alloc_from flags st = None \<longleftrightarrow>
    (\<forall>p fl. pmm_abs st p = Some (Free, fl) \<longrightarrow> zone_excludes flags fl)"
  unfolding alloc_from_None_iff pmm_abs_mem[OF assms]
  by (auto simp: arena_skipped_zone Page_is_free_def)

lemma Arena_free_page_OK_iff:
  assumes "arena_inv ar" "address_in_arena ar p"
  shows "(\<exists>i < length (pages ar). p = p_paddr (pages ar ! i) \<and> Arena_free_page ar p = (set_page ar i Free 0, OK)) \<or>
         ((\<forall>i < length (pages ar). p \<noteq> p_paddr (pages ar ! i)) \<and> Arena_free_page ar p = (ar, ERR_INVALID_ARGS))"
proof -
  let ?b = "unat (a_base (info ar))"
  let ?o = "unat p - ?b"
  have range: "?b \<le> unat p" "unat p < ?b + unat (a_size (info ar))"
    using assms by (simp_all add: address_in_arena_range arena_range_def)
  have o: "unat (p - a_base (info ar)) = ?o" using range(1) by (simp add: unat_sub word_le_nat_alt)
  have aligned: "(p - a_base (info ar)) mod PAGE_SIZE \<noteq> 0 \<longleftrightarrow> ?o mod 4096 \<noteq> 0"
    using o by (simp add: PAGE_SIZE_def unat_eq_zero[symmetric] unat_mod)
  have index: "unat ((p - a_base (info ar)) div PAGE_SIZE) = ?o div 4096"
    using o by (simp add: PAGE_SIZE_def unat_div)
  have page: "p = p_paddr (pages ar ! i) \<longleftrightarrow> ?o = i * 4096" if "i < length (pages ar)" for i
    using arena_page_addr(1)[OF assms(1) that] range(1) by (auto simp: word_unat_eq_iff)
  show ?thesis
  proof (cases "?o mod 4096 = 0 \<and> ?o div 4096 < length (pages ar)")
    case True
    then have "?o = ?o div 4096 * 4096" by auto
    with True page[of "?o div 4096"] show ?thesis
      by (intro disjI1 exI[of _ "?o div 4096"])
        (auto simp: Arena_free_page_def Let_def aligned index arena_inv_total[OF assms(1)])
  next
    case False
    then have "Arena_free_page ar p = (ar, ERR_INVALID_ARGS)"
      by (auto simp: Arena_free_page_def Let_def aligned index arena_inv_total[OF assms(1)])
    moreover have "p \<noteq> p_paddr (pages ar ! i)" if "i < length (pages ar)" for i
      using False page[OF that] that by auto
    ultimately show ?thesis by blast
  qed
qed

lemma pmm_free_page_split:
  assumes "pmm_inv st"
  shows "(\<exists>A ar B i. st = A @ ar # B \<and> i < length (pages ar) \<and> p = p_paddr (pages ar ! i) \<and>
            pmm_free_page st p = (A @ set_page ar i Free 0 # B, OK)) \<or>
         ((\<forall>ar \<in> set st. \<forall>pg \<in> set (pages ar). p_paddr pg \<noteq> p) \<and> pmm_free_page st p = (st, ERR_INVALID_ARGS))"
  using assms
proof (induction st)
  case Nil
  then show ?case by simp
next
  case (Cons ar st)
  then have inv: "arena_inv ar" "pmm_inv st"
    "\<forall>b \<in> set st. arena_inv b \<and> arena_range ar \<inter> arena_range b = {}" by (auto simp: pmm_inv_def)
  show ?case
  proof (cases "address_in_arena ar p")
    case True
    then have "p_paddr pg \<noteq> p" if "b \<in> set st" "pg \<in> set (pages b)" for b pg
      using inv that arena_page_in_range address_in_arena_range[OF inv(1)]
      by (metis disjoint_iff in_set_conv_nth)
    with Arena_free_page_OK_iff[OF inv(1) True] True show ?thesis
      by (auto simp: in_set_conv_nth intro!: exI[of _ "[]"])
  next
    case False
    then have "p_paddr pg \<noteq> p" if "pg \<in> set (pages ar)" for pg
      using that inv(1) arena_page_in_range address_in_arena_range by (metis in_set_conv_nth)
    with False Cons.IH[OF inv(2)] show ?thesis
    proof (elim disjE, goal_cases)
      case 1
      then obtain A b B i where "st = A @ b # B" "i < length (pages b)" "p = p_paddr (pages b ! i)"
        "pmm_free_page st p = (A @ set_page b i Free 0 # B, OK)" by blast
      with False show ?thesis by (intro disjI1 exI[of _ "ar # A"]) auto
    qed auto
  qed
qed

lemma pmm_free_page_refines:
  assumes "pmm_inv st"
  shows "case pmm_abs st p of
      None \<Rightarrow> pmm_free_page st p = (st, ERR_INVALID_ARGS)
    | Some (s, fl) \<Rightarrow> (\<exists>st'. pmm_free_page st p = (st', OK) \<and> pmm_inv st' \<and>
        pmm_abs st' = (pmm_abs st)(p \<mapsto> (Free, fl)))"
  using pmm_free_page_split[OF assms, of p]
proof (elim disjE, goal_cases)
  case 1
  then obtain A ar B i where *: "st = A @ ar # B" "i < length (pages ar)" "p = p_paddr (pages ar ! i)"
    "pmm_free_page st p = (A @ set_page ar i Free 0 # B, OK)" by blast
  from pmm_set_page(1,2)[of A ar B i Free 0] pmm_set_page(3)[of A ar B i] assms * show ?case by auto
next
  case 2
  with pmm_abs_mem[OF assms, of p] show ?case by (auto split: option.splits prod.splits)
qed

section \<open>Contiguous pages\<close>

lemma find_nonfree_window:
  assumes "start + count \<le> length ps"
  shows "find_index (\<lambda>p. \<not> Page_is_free p) (take count (drop start ps)) = None \<Longrightarrow>
           \<forall>k < count. Page_is_free (ps ! (start + k))"
    and "find_index (\<lambda>p. \<not> Page_is_free p) (take count (drop start ps)) = Some k \<Longrightarrow>
           k < count \<and> \<not> Page_is_free (ps ! (start + k))"
proof -
  have nth: "take count (drop start ps) ! k = ps ! (start + k)" if "k < count" for k
    using that assms by simp
  show "find_index (\<lambda>p. \<not> Page_is_free p) (take count (drop start ps)) = None \<Longrightarrow>
          \<forall>k < count. Page_is_free (ps ! (start + k))"
    using find_index_None_nth[of "\<lambda>p. \<not> Page_is_free p" "take count (drop start ps)"] nth assms
    by simp
  show "find_index (\<lambda>p. \<not> Page_is_free p) (take count (drop start ps)) = Some k \<Longrightarrow>
          k < count \<and> \<not> Page_is_free (ps ! (start + k))"
    using nth assms by (auto dest!: find_index_SomeD)
qed

definition free_window :: "Page list \<Rightarrow> nat \<Rightarrow> nat \<Rightarrow> bool" where
  "free_window ps count s \<longleftrightarrow> (\<forall>k < count. Page_is_free (ps ! (s + k)))"

lemma contiguous_start_least:
  assumes "tot \<le> length ps"
  shows "case contiguous_start ps tot count start of
      None \<Rightarrow> (\<forall>s. start \<le> s \<and> s + count \<le> tot \<longrightarrow> \<not> free_window ps count s)
    | Some s \<Rightarrow> start \<le> s \<and> s + count \<le> tot \<and> free_window ps count s \<and>
        (\<forall>s'. start \<le> s' \<and> s' < s \<longrightarrow> \<not> free_window ps count s')"
  using assms
proof (induction ps tot count start rule: contiguous_start.induct)
  case (1 ps tot count start)
  show ?case
  proof (cases "start + count \<le> tot")
    case False
    then show ?thesis by (subst contiguous_start.simps) auto
  next
    case True
    with 1(2) have le: "start + count \<le> length ps" by simp
    show ?thesis
    proof (cases "find_index (\<lambda>p. \<not> Page_is_free p) (take count (drop start ps))")
      case None
      with True have "contiguous_start ps tot count start = Some start"
        by (subst contiguous_start.simps) simp
      with find_nonfree_window(1)[OF le None] True show ?thesis by (auto simp: free_window_def)
    next
      case (Some k)
      note k = find_nonfree_window(2)[OF le Some]
      have skip: "\<not> free_window ps count s'" if "start \<le> s'" "s' \<le> start + k" for s'
        using k that by (auto simp: free_window_def intro!: exI[of _ "start + k - s'"])
      have eq: "contiguous_start ps tot count start = contiguous_start ps tot count (Suc (start + k))"
        using True Some by (subst contiguous_start.simps) simp
      from 1(1)[OF True Some 1(2)] show ?thesis
        unfolding eq using skip by (fastforce split: option.splits)
    qed
  qed
qed

lemma Arena_alloc_contiguous_refines:
  assumes "pmm_inv (A @ ar # B)" "Arena_alloc_contiguous ar count = Some (ar', p)" "0 < count"
  shows "\<exists>s. s + count \<le> length (pages ar) \<and> p = p_paddr (pages ar ! s) \<and> free_window (pages ar) count s \<and>
     (\<forall>s' < s. \<not> free_window (pages ar) count s') \<and>
     pmm_inv (A @ ar' # B) \<and>
     pmm_abs (A @ ar' # B) = (\<lambda>q. if q \<in> (\<lambda>i. p_paddr (pages ar ! i)) ` {s..<s + count}
                               then Some (Allocated, a_flags (info ar)) else pmm_abs (A @ ar # B) q)"
proof -
  have inv: "arena_inv ar" using assms(1) by (simp add: pmm_inv_def)
  from assms(2) obtain s where s: "contiguous_start (pages ar) (length (pages ar)) count 0 = Some s"
    "ar' = fold (\<lambda>page_idx a. set_page a page_idx Allocated 1) [s..<s + count] ar"
    "p = a_base (info ar) + of_nat s * PAGE_SIZE"
    by (auto simp: Arena_alloc_contiguous_def arena_inv_total[OF inv] split: option.splits)
  from contiguous_start_least[of "length (pages ar)" "pages ar", where count = count and start = 0] s(1)
  have w: "s + count \<le> length (pages ar)" "free_window (pages ar) count s"
    "\<forall>s' < s. \<not> free_window (pages ar) count s'" by auto
  have "p = p_paddr (pages ar ! s)" using inv w(1) assms(3) s(3) by (simp add: arena_inv_def)
  with w fold_set_page[OF assms(1), of "[s..<s + count]" Allocated "\<lambda>_ _. 1"] s(2) show ?thesis
    by auto
qed

lemma contiguous_from_SomeD:
  "contiguous_from flags count st = Some (st', p) \<Longrightarrow>
   \<exists>A ar B ar'. st = A @ ar # B \<and> st' = A @ ar' # B \<and> Arena_alloc_contiguous ar count = Some (ar', p)"
proof (induction st arbitrary: st')
  case Nil
  then show ?case by simp
next
  case (Cons ar st)
  show ?case
  proof (cases "\<exists>st1. contiguous_from flags count st = Some (st1, p) \<and> st' = ar # st1")
    case True
    then obtain st1 where st1: "contiguous_from flags count st = Some (st1, p)" "st' = ar # st1" by blast
    from Cons.IH[OF st1(1)] st1(2) show ?thesis by (metis append_Cons)
  next
    case False
    with Cons.prems obtain ar' where "Arena_alloc_contiguous ar count = Some (ar', p)" "st' = ar' # st"
      by (auto split: if_splits option.splits)
    then show ?thesis by (metis append_Nil)
  qed
qed

section \<open>Adding and reserving\<close>

lemma page_range_index:
  assumes "arena_inv ar" "j + i < length (pages ar)"
  shows "unat ((p_paddr (pages ar ! j) + of_nat i * PAGE_SIZE - a_base (info ar)) div PAGE_SIZE) = j + i"
    and "p_paddr (pages ar ! j) + of_nat i * PAGE_SIZE = p_paddr (pages ar ! (j + i))"
proof -
  show e: "p_paddr (pages ar ! j) + of_nat i * PAGE_SIZE = p_paddr (pages ar ! (j + i))"
    using assms by (simp add: arena_inv_def distrib_right)
  have "unat (p_paddr (pages ar ! (j + i)) - a_base (info ar)) = (j + i) * 4096"
    using arena_page_addr(1)[OF assms] by (simp add: unat_sub word_le_nat_alt)
  then have "unat (p_paddr (pages ar ! (j + i)) - a_base (info ar)) div 4096 = j + i" by simp
  then show "unat ((p_paddr (pages ar ! j) + of_nat i * PAGE_SIZE - a_base (info ar)) div PAGE_SIZE) = j + i"
    by (simp only: e) (simp add: PAGE_SIZE_def unat_div)
qed

lemma Arena_reserve_range_fold:
  assumes "arena_inv ar" "j + n \<le> length (pages ar)"
  shows "Arena_reserve_range ar (p_paddr (pages ar ! j)) n =
     fold (\<lambda>i a. set_page a i Reserved (p_ref_count (pages a ! i))) [j..<j + n] ar \<and>
     arena_inv (Arena_reserve_range ar (p_paddr (pages ar ! j)) n) \<and>
     length (pages (Arena_reserve_range ar (p_paddr (pages ar ! j)) n)) = length (pages ar) \<and>
     p_paddr (pages (Arena_reserve_range ar (p_paddr (pages ar ! j)) n) ! j) = p_paddr (pages ar ! j)"
  using assms(2)
proof (induction n)
  case 0
  then show ?case using assms(1) by (simp add: Arena_reserve_range_def)
next
  case (Suc n)
  define a where "a = Arena_reserve_range ar (p_paddr (pages ar ! j)) n"
  from Suc.prems have "j + n \<le> length (pages ar)" by simp
  from Suc.IH[OF this] have a: "a = fold (\<lambda>i a. set_page a i Reserved (p_ref_count (pages a ! i))) [j..<j + n] ar"
    "arena_inv a" "length (pages a) = length (pages ar)" "p_paddr (pages a ! j) = p_paddr (pages ar ! j)"
    unfolding a_def by blast+
  have idx: "unat ((p_paddr (pages ar ! j) + of_nat n * PAGE_SIZE - a_base (info a)) div PAGE_SIZE) = j + n"
    using page_range_index(1)[OF a(2), of j n] Suc.prems a(3,4) by simp
  have "Arena_reserve_range ar (p_paddr (pages ar ! j)) (Suc n)
      = set_page a (j + n) Reserved (p_ref_count (pages a ! (j + n)))"
    using idx Suc.prems a(3) arena_inv_total[OF a(2)]
    by (simp add: Arena_reserve_range_def a_def Let_def)
  then show ?case using a set_page_inv by simp
qed

lemma new_arena_inv:
  assumes "unat (a_base i) + unat (a_size i) < 2 ^ 64"
  shows "arena_inv (Arena_init i (new_arena_pages i k))"
  using assms by (simp add: arena_inv_def Arena_init_def new_arena_pages_def ArenaInfo_page_count_def
      PAGE_SIZE_def unat_div Page_new_def)

lemma new_arena_fields [simp]:
  "info (Arena_init i ps) = i" "pages (Arena_init i ps) = ps"
  by (simp_all add: Arena_init_def)

lemma new_arena_page [simp]:
  "j < unat (a_size i) div 4096 \<Longrightarrow> new_arena_pages i k ! j = Page_new (a_base i + of_nat j * PAGE_SIZE) (of_nat k) (of_nat j)"
  "length (new_arena_pages i k) = unat (a_size i) div 4096"
  by (simp_all add: new_arena_pages_def ArenaInfo_page_count_def PAGE_SIZE_def unat_div)

section \<open>The boot state\<close>

definition kernel_arena :: Arena where
  "kernel_arena = Arena_init kernel_info (new_arena_pages kernel_info 0)"

definition user_arena :: Arena where
  "user_arena = Arena_init user_info (new_arena_pages user_info 1)"

lemma boot_info [simp]:
  "a_base kernel_info = 0x200000" "a_size kernel_info = 0xE00000" "a_flags kernel_info = 5"
  "a_base user_info = 0x2000000" "a_size user_info = 0x6000000" "a_flags user_info = 9"
  by (simp_all add: kernel_info_def user_info_def ArenaInfo_new_def pmm_flags)

lemma boot_arenas_inv: "arena_inv kernel_arena" "arena_inv user_arena"
  unfolding kernel_arena_def user_arena_def by (rule new_arena_inv; simp)+

lemma boot_arena_fields [simp]:
  "info kernel_arena = kernel_info" "info user_arena = user_info"
  "length (pages kernel_arena) = 3584" "length (pages user_arena) = 24576"
  by (simp_all add: kernel_arena_def user_arena_def)

lemma boot_arena_pages:
  "j < 3584 \<Longrightarrow> pages kernel_arena ! j = Page_new (0x200000 + of_nat j * PAGE_SIZE) 0 (of_nat j)"
  "j < 24576 \<Longrightarrow> pages user_arena ! j = Page_new (0x2000000 + of_nat j * PAGE_SIZE) 1 (of_nat j)"
  by (simp_all add: kernel_arena_def user_arena_def)

lemma boot_two_arenas_inv: "pmm_inv [kernel_arena, user_arena]"
  by (auto simp: pmm_inv_def boot_arenas_inv arena_range_def)

lemma pmm_boot_eq:
  "pmm_boot True = [fold (\<lambda>i a. set_page a i Reserved (p_ref_count (pages a ! i))) [0..<64] kernel_arena, user_arena]"
proof -
  have pc: "ArenaInfo_page_count kernel_info \<noteq> 0" "ArenaInfo_page_count user_info \<noteq> 0"
    by (simp_all add: ArenaInfo_page_count_def PAGE_SIZE_def)
  have "p_paddr (pages kernel_arena ! 0) = 0x200000" by (simp add: boot_arena_pages Page_new_def)
  with Arena_reserve_range_fold[OF boot_arenas_inv(1), of 0 64] have r:
    "Arena_reserve_range kernel_arena 0x200000 64 =
      fold (\<lambda>i a. set_page a i Reserved (p_ref_count (pages a ! i))) [0..<64] kernel_arena"
    by (simp del: upt_rec_numeral)
  have in_k: "address_in_arena kernel_arena 0x200000" "address_in_arena kernel_arena (0x200000 + 64 * PAGE_SIZE - 1)"
    by (simp_all add: address_in_arena_def PAGE_SIZE_def)
  have "fst (pmm_add_arena True [] kernel_info) = [kernel_arena]"
    "fst (pmm_add_arena True [kernel_arena] user_info) = [kernel_arena, user_arena]"
    using pc by (simp_all add: pmm_add_arena_def MAX_ARENAS_def kernel_arena_def user_arena_def)
  then have "pmm_boot True = fst (reserve_from [kernel_arena, user_arena] 0x200000 64)"
    by (simp add: pmm_boot_def pmm_reserve_pages_def Let_def)
  also have "\<dots> = [Arena_reserve_range kernel_arena 0x200000 64, user_arena]"
    using in_k by (simp add: Let_def)
  finally show ?thesis by (simp only: r)
qed

lemma pmm_boot_inv: "pmm_inv (pmm_boot True)"
  and pmm_boot_abs: "pmm_abs (pmm_boot True) = (\<lambda>q. if q \<in> (\<lambda>i. p_paddr (pages kernel_arena ! i)) ` {0..<64}
      then Some (Reserved, 5) else pmm_abs [kernel_arena, user_arena] q)"
  using fold_set_page[of "[]" kernel_arena "[user_arena]" "[0..<64]" Reserved "\<lambda>a i. p_ref_count (pages a ! i)"]
    boot_two_arenas_inv
  by (simp_all add: pmm_boot_eq fun_eq_iff del: upt_rec_numeral fold_simps)

lemma boot_abs_cases:
  assumes "pmm_abs (pmm_boot True) q = Some (s, fl)"
  shows "fl = 5 \<and> (\<exists>j < 3584. q = 0x200000 + of_nat j * PAGE_SIZE \<and> s = (if j < 64 then Reserved else Free)) \<or>
         fl = 9 \<and> (\<exists>j < 24576. q = 0x2000000 + of_nat j * PAGE_SIZE \<and> s = Free)"
proof (cases "q \<in> (\<lambda>i. p_paddr (pages kernel_arena ! i)) ` {0..<64}")
  case True
  then obtain j where "j < 64" "q = p_paddr (pages kernel_arena ! j)" by auto
  with assms True show ?thesis
    by (intro disjI1) (auto simp: pmm_boot_abs boot_arena_pages Page_new_def intro!: exI[of _ j])
next
  case False
  with assms have "pmm_abs [kernel_arena, user_arena] q = Some (s, fl)" by (simp add: pmm_boot_abs)
  then obtain ar pg where "ar \<in> set [kernel_arena, user_arena]" "pg \<in> set (pages ar)" "p_paddr pg = q"
    "p_state pg = s" "a_flags (info ar) = fl" by (simp only: pmm_abs_mem[OF boot_two_arenas_inv]) blast
  with False show ?thesis
    by (fastforce simp: in_set_conv_nth boot_arena_pages Page_new_def)
qed

lemma boot_addr_bounds:
  "j < 3584 \<Longrightarrow> unat (0x200000 + of_nat j * PAGE_SIZE :: u64) = 0x200000 + j * 4096"
  "j < 24576 \<Longrightarrow> unat (0x2000000 + of_nat j * PAGE_SIZE :: u64) = 0x2000000 + j * 4096"
  by (simp_all add: PAGE_SIZE_def unat_word_ariths unat_of_nat)

lemma boot_zone:
  assumes "pmm_abs (pmm_boot True) q = Some (s, fl)"
  shows "unat q mod 4096 = 0 \<and> (fl = 5 \<and> 0x200000 \<le> unat q \<and> unat q < 0x1000000 \<and> (unat q < 0x240000 \<longrightarrow> s = Reserved) \<or>
         fl = 9 \<and> 0x2000000 \<le> unat q \<and> unat q < 0x8000000)"
  using boot_abs_cases[OF assms] by (auto simp: boot_addr_bounds mod_simps)

section \<open>Sequences of operations\<close>

datatype pmm_op = PAlloc u32 u64 | PFree u64

inductive pmm_step :: "pmm \<Rightarrow> pmm_op \<Rightarrow> pmm \<Rightarrow> bool" where
  step_alloc: "pmm_alloc_page st flags = Return (st', Inr p) \<Longrightarrow> pmm_step st (PAlloc flags p) st'"
| step_free: "pmm_free_page st p = (st', r) \<Longrightarrow> pmm_step st (PFree p) st'"

inductive pmm_steps :: "pmm \<Rightarrow> pmm_op list \<Rightarrow> pmm \<Rightarrow> bool" where
  none: "pmm_steps st [] st"
| more: "pmm_steps st ops st1 \<Longrightarrow> pmm_step st1 op st2 \<Longrightarrow> pmm_steps st (ops @ [op]) st2"

inductive_simps pmm_step_alloc_iff: "pmm_step st (PAlloc flags p) st'"
inductive_simps pmm_step_free_iff: "pmm_step st (PFree p) st'"

fun live_after :: "u64 set \<Rightarrow> pmm_op \<Rightarrow> u64 set" where
  "live_after L (PAlloc flags p) = insert p L"
| "live_after L (PFree p) = L - {p}"

text \<open>The pages handed out by a sequence of operations and not freed since.\<close>

definition live_pages :: "pmm_op list \<Rightarrow> u64 set" where
  "live_pages ops = foldl live_after {} ops"

lemma pmm_alloc_page_Return:
  "pmm_alloc_page st flags = Return (st', r) \<longleftrightarrow> (\<exists>p. r = Inr p \<and> alloc_from flags st = Some (st', p))"
  by (auto simp: pmm_alloc_page_def split: option.splits)

lemma pmm_steps_sound:
  assumes "pmm_steps st ops st'" "pmm_inv st"
  shows "pmm_inv st' \<and> (\<forall>q. map_option snd (pmm_abs st' q) = map_option snd (pmm_abs st q)) \<and>
     (\<forall>q \<in> live_pages ops. \<exists>fl. pmm_abs st' q = Some (Allocated, fl)) \<and>
     (\<forall>q fl. pmm_abs st q = Some (Reserved, fl) \<and> PFree q \<notin> set ops \<longrightarrow> pmm_abs st' q = Some (Reserved, fl))"
  using assms
proof (induction rule: pmm_steps.induct)
  case (none st)
  then show ?case by (simp add: live_pages_def)
next
  case (more st ops st1 op st2)
  from more.IH[OF more.prems] have inv: "pmm_inv st1"
    and fl: "\<And>q. map_option snd (pmm_abs st1 q) = map_option snd (pmm_abs st q)"
    and live: "\<And>q. q \<in> live_pages ops \<Longrightarrow> \<exists>fl. pmm_abs st1 q = Some (Allocated, fl)"
    and res: "\<And>q fl. pmm_abs st q = Some (Reserved, fl) \<Longrightarrow> PFree q \<notin> set ops \<Longrightarrow> pmm_abs st1 q = Some (Reserved, fl)"
    by blast+
  show ?case
  proof (cases op)
    case (PAlloc flags p)
    then have "alloc_from flags st1 = Some (st2, p)"
      using more.hyps(2) by (simp add: pmm_step_alloc_iff pmm_alloc_page_Return)
    from pmm_alloc_page_refines[OF inv this] obtain f where r: "pmm_inv st2"
      "pmm_abs st1 p = Some (Free, f)" "pmm_abs st2 = (pmm_abs st1)(p \<mapsto> (Allocated, f))" by blast
    have "map_option snd (pmm_abs st2 q) = map_option snd (pmm_abs st q)" for q
      using fl[of q] r by (cases "q = p") simp_all
    moreover have "\<exists>f. pmm_abs st2 q = Some (Allocated, f)" if "q \<in> live_pages (ops @ [op])" for q
      using that live[of q] r(3) PAlloc by (auto simp: live_pages_def)
    moreover have "pmm_abs st2 q = Some (Reserved, g)"
      if "pmm_abs st q = Some (Reserved, g)" "PFree q \<notin> set (ops @ [op])" for q g
      using res[of q g] that r by auto
    ultimately show ?thesis using r(1) by blast
  next
    case (PFree p)
    then obtain rr where f: "pmm_free_page st1 p = (st2, rr)"
      using more.hyps(2) by (auto simp: pmm_step_free_iff)
    show ?thesis
    proof (cases "pmm_abs st1 p")
      case None
      with pmm_free_page_refines[OF inv, of p] f have "st2 = st1" by simp
      then show ?thesis using inv fl live res PFree by (auto simp: live_pages_def)
    next
      case (Some a)
      then obtain s0 f0 where a: "pmm_abs st1 p = Some (s0, f0)" by (cases a) simp
      with pmm_free_page_refines[OF inv, of p] f have r: "pmm_inv st2"
        "pmm_abs st2 = (pmm_abs st1)(p \<mapsto> (Free, f0))" by auto
      have "map_option snd (pmm_abs st2 q) = map_option snd (pmm_abs st q)" for q
        using fl[of q] r a by (cases "q = p") simp_all
      moreover have "\<exists>f. pmm_abs st2 q = Some (Allocated, f)" if "q \<in> live_pages (ops @ [op])" for q
        using that live[of q] r(2) PFree by (auto simp: live_pages_def)
      moreover have "pmm_abs st2 q = Some (Reserved, g)"
        if "pmm_abs st q = Some (Reserved, g)" "PFree q \<notin> set (ops @ [op])" for q g
        using res[of q g] that r PFree by auto
      ultimately show ?thesis using r(1) by blast
    qed
  qed
qed

section \<open>The user and kernel zones as page sources\<close>

definition zone_avail :: "u32 \<Rightarrow> pmm \<Rightarrow> u64 set" where
  "zone_avail flags st = {p. \<exists>fl. pmm_abs st p = Some (Free, fl) \<and> \<not> zone_excludes flags fl}"

interpretation zone: page_source "alloc_from flags" "zone_avail flags" pmm_inv for flags
proof (unfold_locales, goal_cases)
  case (1 s s' p)
  from pmm_alloc_page_refines[OF 1] show ?case by (auto simp: zone_avail_def split: if_splits)
next
  case (2 s)
  with pmm_alloc_page_hangs_iff[OF 2(1), of flags] show ?case by (auto simp: zone_avail_def)
qed

lemma boot_abs_user:
  assumes "j < 24576"
  shows "pmm_abs (pmm_boot True) (0x2000000 + of_nat j * PAGE_SIZE) = Some (Free, 9)"
proof -
  let ?q = "0x2000000 + of_nat j * PAGE_SIZE :: u64"
  have "?q \<notin> (\<lambda>i. p_paddr (pages kernel_arena ! i)) ` {0..<64}"
  proof
    assume "?q \<in> (\<lambda>i. p_paddr (pages kernel_arena ! i)) ` {0..<64}"
    then obtain i where "i < 64" "?q = 0x200000 + of_nat i * PAGE_SIZE"
      by (auto simp: boot_arena_pages Page_new_def)
    then have "unat ?q = 0x200000 + i * 4096" using boot_addr_bounds(1)[of i] by (simp only:)
    with boot_addr_bounds(2)[OF assms] \<open>i < 64\<close> show False by simp
  qed
  moreover have "pmm_abs [kernel_arena, user_arena] ?q = Some (Free, 9)"
    unfolding pmm_abs_mem[OF boot_two_arenas_inv]
    using assms nth_mem[of j "pages user_arena"]
    by (intro bexI[of _ user_arena] bexI[of _ "pages user_arena ! j"])
      (simp_all add: boot_arena_pages Page_new_def)
  ultimately show ?thesis by (simp add: pmm_boot_abs)
qed

lemma boot_user_avail:
  "zone_avail PMM_ALLOC_FLAG_USER (pmm_boot True) = (\<lambda>j. 0x2000000 + of_nat j * PAGE_SIZE) ` {..<24576}"
proof (intro equalityI subsetI)
  fix p assume "p \<in> zone_avail PMM_ALLOC_FLAG_USER (pmm_boot True)"
  then obtain fl where "pmm_abs (pmm_boot True) p = Some (Free, fl)" "\<not> zone_excludes PMM_ALLOC_FLAG_USER fl"
    by (auto simp: zone_avail_def)
  from boot_abs_cases[OF this(1)] this(2) show "p \<in> (\<lambda>j. 0x2000000 + of_nat j * PAGE_SIZE) ` {..<24576}"
    by (auto simp: zone_excludes_def pmm_flags)
next
  fix p :: u64 assume "p \<in> (\<lambda>j. 0x2000000 + of_nat j * PAGE_SIZE) ` {..<24576}"
  then show "p \<in> zone_avail PMM_ALLOC_FLAG_USER (pmm_boot True)"
    using boot_abs_user by (auto simp: zone_avail_def zone_excludes_def pmm_flags)
qed

lemma boot_user_card: "card (zone_avail PMM_ALLOC_FLAG_USER (pmm_boot True)) = 24576"
proof -
  have "inj_on (\<lambda>j. 0x2000000 + of_nat j * PAGE_SIZE :: u64) {..<24576}"
  proof (rule inj_onI)
    fix i j :: nat
    assume "i \<in> {..<24576}" "j \<in> {..<24576}"
      "0x2000000 + of_nat i * PAGE_SIZE = (0x2000000 + of_nat j * PAGE_SIZE :: u64)"
    then have "0x2000000 + i * 4096 = 0x2000000 + j * 4096"
      using boot_addr_bounds(2)[of i] boot_addr_bounds(2)[of j] by (simp only: lessThan_iff)
    then show "i = j" by simp
  qed
  then show ?thesis unfolding boot_user_avail by (simp add: card_image)
qed

section \<open>Properties\<close>

text \<open>
  Claim C4 (page allocation refines a map of page states): on a well-formed
  manager, a single-page allocation either returns a page that was free and
  whose arena the flags admit, and changes the state of that page only, or it
  never returns, and that exactly when no admissible page is free.  Freeing an
  address that is no page changes nothing and reports an argument error;
  freeing any page, whatever its state, makes it free and changes no other.
\<close>

theorem pmm_page_refinement:
  assumes "pmm_inv st"
  shows "(case pmm_alloc_page st flags of
            Return (st', Inr p) \<Rightarrow> pmm_inv st' \<and> (\<exists>fl. pmm_abs st p = Some (Free, fl) \<and>
               \<not> zone_excludes flags fl \<and> pmm_abs st' = (pmm_abs st)(p \<mapsto> (Allocated, fl)))
          | Hang \<Rightarrow> (\<forall>p fl. pmm_abs st p = Some (Free, fl) \<longrightarrow> zone_excludes flags fl)
          | _ \<Rightarrow> False) \<and>
         (case pmm_abs st q of
            None \<Rightarrow> pmm_free_page st q = (st, ERR_INVALID_ARGS)
          | Some (s, fl) \<Rightarrow> (\<exists>st'. pmm_free_page st q = (st', OK) \<and> pmm_inv st' \<and>
              pmm_abs st' = (pmm_abs st)(q \<mapsto> (Free, fl))))"
proof (intro conjI)
  show "case pmm_abs st q of None \<Rightarrow> pmm_free_page st q = (st, ERR_INVALID_ARGS)
     | Some (s, fl) \<Rightarrow> (\<exists>st'. pmm_free_page st q = (st', OK) \<and> pmm_inv st' \<and>
          pmm_abs st' = (pmm_abs st)(q \<mapsto> (Free, fl)))"
    by (rule pmm_free_page_refines[OF assms])
qed (use pmm_alloc_page_refines[OF assms] pmm_alloc_page_hangs_iff[OF assms] in
    \<open>auto simp: pmm_alloc_page_def split: option.splits\<close>)

theorem pmm_page_refinement_witness:
  "pmm_inv (pmm_boot True) \<and>
   (\<exists>st'. pmm_free_page (pmm_boot True) 0x2001000 = (st', OK) \<and> pmm_abs st' 0x2001000 = Some (Free, 9))"
proof -
  have "pmm_abs (pmm_boot True) 0x2001000 = Some (Free, 9)"
    using boot_abs_user[of 1] by (simp add: PAGE_SIZE_def)
  with conjunct2[OF pmm_page_refinement[OF pmm_boot_inv, of 0 "0x2001000"]] pmm_boot_inv
  show ?thesis by auto
qed

text \<open>
  Claim C5 (zone separation from boot): after the arena layout of \<open>init.rs\<close>
  and any sequence of single-page allocations and frees, a user allocation
  returns a page-aligned address in the user arena and a kernel allocation one
  in the kernel arena, never a page that is still live, and never a page of
  the kernel stack unless that page was passed to the free function.
\<close>

theorem pmm_zone_separation:
  assumes "pmm_steps (pmm_boot True) ops st" "pmm_alloc_page st flags = Return (st', Inr p)"
  shows "unat p mod 4096 = 0 \<and> p \<notin> live_pages ops \<and>
     (flags = PMM_ALLOC_FLAG_USER \<longrightarrow> 0x2000000 \<le> unat p \<and> unat p < 0x8000000) \<and>
     (flags = PMM_ALLOC_FLAG_KERNEL \<longrightarrow> 0x200000 \<le> unat p \<and> unat p < 0x1000000) \<and>
     (PFree p \<notin> set ops \<longrightarrow> \<not> (0x200000 \<le> unat p \<and> unat p < 0x240000))"
proof -
  note sound = pmm_steps_sound[OF assms(1) pmm_boot_inv]
  from assms(2) have "alloc_from flags st = Some (st', p)" by (simp add: pmm_alloc_page_Return)
  from pmm_alloc_page_refines[OF _ this] sound obtain fl where
    p: "pmm_abs st p = Some (Free, fl)" "\<not> zone_excludes flags fl" by blast
  have "map_option snd (pmm_abs (pmm_boot True) p) = Some fl"
    using sound p(1) by (metis map_option_eq_Some snd_conv)
  then obtain s0 where s0: "pmm_abs (pmm_boot True) p = Some (s0, fl)" by auto
  note z = boot_zone[OF s0]
  have live: "p \<notin> live_pages ops" using sound p(1) by fastforce
  have stack: "\<not> (0x200000 \<le> unat p \<and> unat p < 0x240000)" if nf: "PFree p \<notin> set ops"
  proof
    assume "0x200000 \<le> unat p \<and> unat p < 0x240000"
    with z have "s0 = Reserved" by auto
    with sound s0 nf have "pmm_abs st p = Some (Reserved, fl)" by blast
    with p(1) show False by simp
  qed
  have zone: "(flags = PMM_ALLOC_FLAG_USER \<longrightarrow> fl \<noteq> 5) \<and> (flags = PMM_ALLOC_FLAG_KERNEL \<longrightarrow> fl \<noteq> 9)"
    using p(2) by (auto simp: zone_excludes_def pmm_flags)
  from z zone live stack show ?thesis by auto
qed

theorem pmm_zone_separation_witness:
  "\<exists>st q st' p. pmm_steps (pmm_boot True) [PAlloc PMM_ALLOC_FLAG_USER q] st \<and>
     pmm_alloc_page st PMM_ALLOC_FLAG_USER = Return (st', Inr p) \<and> p \<noteq> q \<and>
     0x2000000 \<le> unat p \<and> unat p < 0x8000000 \<and> unat p mod 4096 = 0"
proof -
  let ?U = PMM_ALLOC_FLAG_USER
  have "zone_avail ?U (pmm_boot True) \<noteq> {}" using boot_user_card by fastforce
  then obtain st q where q: "alloc_from ?U (pmm_boot True) = Some (st, q)"
    using zone.alloc_stops[OF pmm_boot_inv] by fastforce
  note t = zone.alloc_takes[OF pmm_boot_inv q]
  then have "card (zone_avail ?U st) = 24575" using boot_user_card by simp
  then have "zone_avail ?U st \<noteq> {}" by fastforce
  then obtain st' p where "alloc_from ?U st = Some (st', p)" using zone.alloc_stops[OF conjunct1[OF t]] by fastforce
  then have a: "pmm_alloc_page st ?U = Return (st', Inr p)" by (simp add: pmm_alloc_page_def)
  have "pmm_step (pmm_boot True) (PAlloc ?U q) st" using q by (simp add: pmm_step_alloc_iff pmm_alloc_page_def)
  from pmm_steps.more[OF pmm_steps.none this] have s: "pmm_steps (pmm_boot True) [PAlloc ?U q] st" by simp
  from pmm_zone_separation[OF s a] have "p \<noteq> q \<and> 0x2000000 \<le> unat p \<and> unat p < 0x8000000 \<and> unat p mod 4096 = 0"
    by (auto simp: live_pages_def)
  with s a show ?thesis by (intro exI[of _ st] exI[of _ q] exI[of _ st'] exI[of _ p]) simp
qed

text \<open>
  Claim C6 (capacity of the user zone): from boot, 24576 user pages can be
  allocated one after the other, all distinct, and the next user allocation
  never returns.
\<close>

theorem pmm_user_capacity:
  "\<exists>st ps. alloc_many (alloc_from PMM_ALLOC_FLAG_USER) (pmm_boot True) 24576 = Some (st, ps) \<and>
     length ps = 24576 \<and> distinct ps \<and> pmm_alloc_user_page st = Hang"
proof -
  let ?avail = "zone_avail PMM_ALLOC_FLAG_USER (pmm_boot True)"
  have fin: "finite ?avail" by (simp add: boot_user_avail)
  obtain st ps where a: "alloc_many (alloc_from PMM_ALLOC_FLAG_USER) (pmm_boot True) 24576 = Some (st, ps)"
    using zone.alloc_many_succeeds[OF pmm_boot_inv fin, of 24576] boot_user_card by fastforce
  note t = zone.alloc_many_takes[OF pmm_boot_inv a]
  then have "card (set ps) = card ?avail" by (simp add: distinct_card boot_user_card)
  with t fin have "set ps = ?avail" by (meson card_subset_eq)
  with t have "zone_avail PMM_ALLOC_FLAG_USER st = {}" by simp
  with pmm_alloc_page_hangs_iff[of st PMM_ALLOC_FLAG_USER] t
  have "alloc_from PMM_ALLOC_FLAG_USER st = None" by (auto simp: zone_avail_def)
  with a t show ?thesis by (simp add: pmm_alloc_user_page_def pmm_alloc_page_def)
qed

text \<open>
  Claim C7 (contiguous allocation): a successful request for two or more pages
  returns the first of that many consecutive pages of one arena, all free
  before and all allocated afterwards, and changes no other page; a request is
  refused only when no arena that the low-memory filter admits has such a run.
\<close>

theorem pmm_contiguous_correct:
  assumes "pmm_inv st" "2 \<le> count"
  shows "case pmm_alloc_contiguous st count flags al of
      Return (st', Inr p) \<Rightarrow> pmm_inv st' \<and> (\<exists>fl.
         (\<forall>i < count. pmm_abs st (p + of_nat i * PAGE_SIZE) = Some (Free, fl)) \<and>
         pmm_abs st' = (\<lambda>q. if \<exists>i < count. q = p + of_nat i * PAGE_SIZE
                            then Some (Allocated, fl) else pmm_abs st q))
    | Return (st', Inl e) \<Rightarrow> e = ERR_NO_MEMORY \<and> st' = st \<and>
         (\<forall>ar \<in> set st. flags = PMM_ALLOC_FLAG_LOW_MEM \<and> (a_flags (info ar) AND ARENA_FLAG_LOW_MEM) = 0 \<or>
            (\<forall>s. s + count \<le> length (pages ar) \<longrightarrow> \<not> free_window (pages ar) count s))
    | _ \<Rightarrow> False"
proof (cases "contiguous_from flags count st")
  case None
  have "\<forall>ar \<in> set st. flags = PMM_ALLOC_FLAG_LOW_MEM \<and> (a_flags (info ar) AND ARENA_FLAG_LOW_MEM) = 0 \<or>
          Arena_alloc_contiguous ar count = None"
    using None by (induction st) (auto split: if_splits option.splits)
  moreover have "\<forall>s. s + count \<le> length (pages ar) \<longrightarrow> \<not> free_window (pages ar) count s"
    if "ar \<in> set st" "Arena_alloc_contiguous ar count = None" for ar
  proof -
    have "arena_inv ar" using assms(1) that(1) by (simp add: pmm_inv_def)
    with that(2) have "contiguous_start (pages ar) (length (pages ar)) count 0 = None"
      by (simp add: Arena_alloc_contiguous_def arena_inv_total split: option.splits)
    with contiguous_start_least[of "length (pages ar)" "pages ar", where count = count and start = 0]
    show ?thesis by simp
  qed
  ultimately show ?thesis using assms(2) None by (auto simp: pmm_alloc_contiguous_def)
next
  case (Some r)
  then obtain st' p where r: "contiguous_from flags count st = Some (st', p)" by (cases r) simp
  from contiguous_from_SomeD[OF r] obtain A ar B ar' where
    s: "st = A @ ar # B" "st' = A @ ar' # B" "Arena_alloc_contiguous ar count = Some (ar', p)" by blast
  have inv: "arena_inv ar" using assms(1) s(1) by (simp add: pmm_inv_def)
  from Arena_alloc_contiguous_refines[of A ar B count ar' p] assms s obtain j where
    j: "j + count \<le> length (pages ar)" "p = p_paddr (pages ar ! j)" "free_window (pages ar) count j"
    "pmm_inv st'" "pmm_abs st' = (\<lambda>q. if q \<in> (\<lambda>i. p_paddr (pages ar ! i)) ` {j..<j + count}
        then Some (Allocated, a_flags (info ar)) else pmm_abs st q)" by auto
  have addr: "p + of_nat i * PAGE_SIZE = p_paddr (pages ar ! (j + i))" if "i < count" for i
    using page_range_index(2)[OF inv, of j i] j(1,2) that by simp
  have free: "pmm_abs st (p + of_nat i * PAGE_SIZE) = Some (Free, a_flags (info ar))" if "i < count" for i
    using pmm_set_page(3)[of A ar B "j + i"] j(1,3) that assms(1) s(1)
    by (auto simp: addr[OF that] free_window_def Page_is_free_def)
  have "q \<in> (\<lambda>i. p_paddr (pages ar ! i)) ` {j..<j + count} \<longleftrightarrow> (\<exists>i < count. q = p + of_nat i * PAGE_SIZE)" for q
  proof
    assume "q \<in> (\<lambda>i. p_paddr (pages ar ! i)) ` {j..<j + count}"
    then obtain k where "j \<le> k" "k < j + count" "q = p_paddr (pages ar ! k)" by auto
    then show "\<exists>i < count. q = p + of_nat i * PAGE_SIZE" using addr[of "k - j"] by (intro exI[of _ "k - j"]) auto
  next
    assume "\<exists>i < count. q = p + of_nat i * PAGE_SIZE"
    then show "q \<in> (\<lambda>i. p_paddr (pages ar ! i)) ` {j..<j + count}" using addr by force
  qed
  with j(4,5) free r assms(2) show ?thesis by (auto simp: pmm_alloc_contiguous_def)
qed

lemma boot_kernel_page_state:
  assumes "j < 3584"
  shows "Page_is_free (pages (hd (pmm_boot True)) ! j) \<longleftrightarrow> 64 \<le> j"
    and "p_paddr (pages (hd (pmm_boot True)) ! j) = 0x200000 + of_nat j * PAGE_SIZE"
proof -
  let ?k = "hd (pmm_boot True)"
  have split: "pmm_boot True = [] @ ?k # [user_arena]" by (simp add: pmm_boot_eq del: upt_rec_numeral)
  note f = fold_set_page[of "[]" kernel_arena "[user_arena]" "[0..<64]" Reserved "\<lambda>a i. p_ref_count (pages a ! i)"]
  have k: "length (pages ?k) = 3584" "p_paddr (pages ?k ! j) = p_paddr (pages kernel_arena ! j)"
    using f boot_two_arenas_inv by (simp_all add: pmm_boot_eq del: upt_rec_numeral)
  show addr: "p_paddr (pages ?k ! j) = 0x200000 + of_nat j * PAGE_SIZE"
    using k(2) assms by (simp add: boot_arena_pages Page_new_def)
  have "pmm_abs (pmm_boot True) (p_paddr (pages ?k ! j)) = Some (p_state (pages ?k ! j), a_flags (info ?k))"
    using pmm_set_page(3)[of "[]" ?k "[user_arena]" j, folded split] pmm_boot_inv k(1) assms by simp
  from boot_abs_cases[OF this] show "Page_is_free (pages ?k ! j) \<longleftrightarrow> 64 \<le> j"
  proof (elim disjE conjE exE, goal_cases)
    case (1 i)
    then have "0x200000 + i * 4096 = 0x200000 + j * 4096"
      using boot_addr_bounds(1)[of i] boot_addr_bounds(1)[OF assms] addr by (simp only:)
    with 1 show ?thesis by (simp add: Page_is_free_def)
  next
    case (2 i)
    then have "0x2000000 + i * 4096 = 0x200000 + j * 4096"
      using boot_addr_bounds(2)[of i] boot_addr_bounds(1)[OF assms] addr by (simp only:)
    with assms show ?thesis by simp
  qed
qed

theorem pmm_contiguous_correct_witness:
  "pmm_inv [user_arena] \<and>
   (\<exists>st' p. pmm_alloc_contiguous [user_arena] 3 PMM_ALLOC_FLAG_USER 0 = Return (st', Inr p) \<and>
      (\<forall>i < 3. pmm_abs st' (p + of_nat i * PAGE_SIZE) = Some (Allocated, 9)))"
proof -
  have inv: "pmm_inv [user_arena]" by (simp add: pmm_inv_def boot_arenas_inv)
  have "free_window (pages user_arena) 3 0"
    by (auto simp: free_window_def boot_arena_pages Page_is_free_def Page_new_def)
  with pmm_contiguous_correct[OF inv, of 3 PMM_ALLOC_FLAG_USER 0]
  obtain st' p fl where r: "pmm_alloc_contiguous [user_arena] 3 PMM_ALLOC_FLAG_USER 0 = Return (st', Inr p)"
    "\<forall>i < 3. pmm_abs [user_arena] (p + of_nat i * PAGE_SIZE) = Some (Free, fl)"
    "pmm_abs st' = (\<lambda>q. if \<exists>i < 3. q = p + of_nat i * PAGE_SIZE then Some (Allocated, fl) else pmm_abs [user_arena] q)"
    by (auto simp: pmm_flags split: outcome.splits sum.splits prod.splits)
  have "fl = 9" using r(2)[rule_format, of 0] by (auto simp: pmm_abs_mem[OF inv])
  with r inv show ?thesis by (intro conjI exI[of _ st'] exI[of _ p]) auto
qed

text \<open>
  Contiguous allocation ignores the zones: with the boot layout, a
  request for two contiguous pages with the user-zone flag is served from the
  kernel arena, right behind the kernel stack.
\<close>

lemma pmm_contiguous_ignores_zone:
  "\<exists>st'. pmm_alloc_contiguous (pmm_boot True) 2 PMM_ALLOC_FLAG_USER 0 = Return (st', Inr 0x240000) \<and>
     pmm_abs st' 0x240000 = Some (Allocated, ARENA_FLAG_LOW_MEM OR ARENA_FLAG_KERNEL)"
proof -
  let ?k = "hd (pmm_boot True)"
  have split: "pmm_boot True = [] @ ?k # [user_arena]" by (simp add: pmm_boot_eq del: upt_rec_numeral)
  note f = fold_set_page[of "[]" kernel_arena "[user_arena]" "[0..<64]" Reserved "\<lambda>a i. p_ref_count (pages a ! i)"]
  have k: "length (pages ?k) = 3584" "info ?k = kernel_info" "arena_inv ?k"
    using f boot_two_arenas_inv pmm_boot_inv
    by (simp_all add: pmm_boot_eq pmm_inv_def del: upt_rec_numeral)
  have w: "free_window (pages ?k) 2 s \<longleftrightarrow> 64 \<le> s" if "s + 2 \<le> 3584" for s
    using that boot_kernel_page_state(1)[of s] boot_kernel_page_state(1)[of "Suc s"]
    by (auto simp: free_window_def less_2_cases_iff)
  note least = contiguous_start_least[of 3584 "pages ?k", where count = 2 and start = 0]
  have "contiguous_start (pages ?k) 3584 2 0 = Some 64"
  proof (cases "contiguous_start (pages ?k) 3584 2 0")
    case None
    with least k(1) w[of 64] show ?thesis by simp
  next
    case (Some s)
    with least k(1) have s: "s + 2 \<le> 3584" "free_window (pages ?k) 2 s"
      "\<forall>s' < s. \<not> free_window (pages ?k) 2 s'" by simp_all
    have "64 \<le> s" using w[OF s(1)] s(2) by simp
    moreover have "\<not> 64 < s" using s(3) w[of 64] by auto
    ultimately show ?thesis using Some by simp
  qed
  then obtain ar' where a: "Arena_alloc_contiguous ?k 2 = Some (ar', 0x240000)"
    using k by (simp add: Arena_alloc_contiguous_def arena_inv_total PAGE_SIZE_def)
  then have r: "pmm_alloc_contiguous (pmm_boot True) 2 PMM_ALLOC_FLAG_USER 0 = Return ([ar', user_arena], Inr 0x240000)"
    by (subst split) (simp add: pmm_alloc_contiguous_def pmm_flags)
  from Arena_alloc_contiguous_refines[of "[]" ?k "[user_arena]" 2 ar' "0x240000", folded split] a pmm_boot_inv
  obtain s where s: "s + 2 \<le> 3584" "0x240000 = p_paddr (pages ?k ! s)"
    "pmm_abs [ar', user_arena] = (\<lambda>q. if q \<in> (\<lambda>i. p_paddr (pages ?k ! i)) ` {s..<s + 2}
        then Some (Allocated, a_flags (info ?k)) else pmm_abs (pmm_boot True) q)" using k(1) by auto
  then have "pmm_abs [ar', user_arena] 0x240000 = Some (Allocated, 5)" using k(2) by auto
  with r show ?thesis by (simp add: pmm_flags)
qed

end
