(* ===== verification/Vmo.thy ===== *)
theory Vmo
  imports Pmm Handles Bytes
begin

text \<open>
  Virtual memory objects (\<open>object/vmo.rs\<close>): creation, resizing, and reading,
  writing and cloning page by page over pages taken from the user zone of the
  physical memory manager.  The page map, a \<open>BTreeMap\<close>, is an association list
  kept in key order; memory is a function from byte addresses to bytes.
\<close>

unbundle bit_operations_syntax

section \<open>Ordered maps\<close>

fun btree_insert :: "nat \<Rightarrow> 'v \<Rightarrow> (nat \<times> 'v) list \<Rightarrow> (nat \<times> 'v) list" where
  "btree_insert k v [] = [(k, v)]"
| "btree_insert k v ((k', v') # xs) =
     (if k < k' then (k, v) # (k', v') # xs
      else if k = k' then (k, v) # xs
      else (k', v') # btree_insert k v xs)"

text \<open>\<open>entry(k).or_insert(v)\<close>: an existing entry is kept.\<close>

definition btree_or_insert :: "nat \<Rightarrow> 'v \<Rightarrow> (nat \<times> 'v) list \<Rightarrow> (nat \<times> 'v) list" where
  "btree_or_insert k v xs = (if map_of xs k = None then btree_insert k v xs else xs)"

section \<open>Objects\<close>

definition VMO_RESIZABLE :: u32 where "VMO_RESIZABLE = 0x01"
definition VMO_COW :: u32 where "VMO_COW = 0x02"

definition vmo_flags_is_resizable :: "u32 \<Rightarrow> bool" where
  "vmo_flags_is_resizable f \<longleftrightarrow> (f AND VMO_RESIZABLE) \<noteq> 0"

definition vmo_flags_is_cow :: "u32 \<Rightarrow> bool" where
  "vmo_flags_is_cow f \<longleftrightarrow> (f AND VMO_COW) \<noteq> 0"

datatype CachePolicy = CacheDefault | Uncached | WriteCombining | WriteThrough

definition CachePolicy_from_raw :: "u32 \<Rightarrow> CachePolicy" where
  "CachePolicy_from_raw raw =
     (if raw = 1 then Uncached else if raw = 2 then WriteCombining
      else if raw = 3 then WriteThrough else CacheDefault)"

fun CachePolicy_into_raw :: "CachePolicy \<Rightarrow> u32" where
  "CachePolicy_into_raw CacheDefault = 0"
| "CachePolicy_into_raw Uncached = 1"
| "CachePolicy_into_raw WriteCombining = 2"
| "CachePolicy_into_raw WriteThrough = 3"

record PageMapEntry =
  pm_paddr :: u64
  pm_present :: bool
  pm_writable :: bool

record Vmo =
  vmo_base :: KernelObjectBase
  vmo_id :: u64
  vmo_size :: u64
  vmo_flags :: u32
  vmo_cache :: CachePolicy
  vmo_pages :: "(nat \<times> PageMapEntry) list"
  vmo_parent :: "u64 option"

record vworld =
  phys :: pmm
  memory :: memory
  next_vmo_id :: u64

definition alloc_vmo_id :: "vworld \<Rightarrow> vworld \<times> u64" where
  "alloc_vmo_id w = (w\<lparr>next_vmo_id := next_vmo_id w + 1\<rparr>, next_vmo_id w)"

definition Vmo_create :: "vworld \<Rightarrow> u64 \<Rightarrow> u32 \<Rightarrow> vworld \<times> Vmo result" where
  "Vmo_create w sz flags =
     (if sz = 0 then (w, Inl ''size cannot be zero'')
      else let size_aligned = (sz + 4096 - 1) div 4096 * 4096; (w', i) = alloc_vmo_id w in
        (w', Inr \<lparr>vmo_base = KernelObjectBase_new VmoT, vmo_id = i, vmo_size = size_aligned,
                  vmo_flags = flags, vmo_cache = CacheDefault, vmo_pages = [], vmo_parent = None\<rparr>))"

definition Vmo_resize :: "Vmo \<Rightarrow> u64 \<Rightarrow> Vmo \<times> unit result" where
  "Vmo_resize v new_size =
     (if \<not> vmo_flags_is_resizable (vmo_flags v) then (v, Inl ''VMO not resizable'')
      else (v\<lparr>vmo_size := (new_size + 4096 - 1) div 4096 * 4096\<rparr>, Inr ()))"

section \<open>Writing\<close>

text \<open>
  The number of bytes of the current step: the rest of the data or of the page.
  The position \<open>offset + d\<close> wraps at 64 bits, which leaves its offset in the
  page alone and changes the key of its page.
\<close>

definition chunk_len :: "nat \<Rightarrow> nat \<Rightarrow> nat \<Rightarrow> nat" where
  "chunk_len offset n d = min (n - d) (4096 - (offset + d) mod 4096)"

definition page_key :: "nat \<Rightarrow> nat" where
  "page_key i = i div 4096 * 4096"

lemma chunk_len_pos: "d < n \<Longrightarrow> 0 < chunk_len offset n d"
  by (simp add: chunk_len_def)

function missing_keys :: "(nat \<times> PageMapEntry) list \<Rightarrow> nat \<Rightarrow> nat \<Rightarrow> nat \<Rightarrow> nat list" where
  "missing_keys ps offset n d =
     (if d < n then
        (let key = page_key ((offset + d) mod 2 ^ 64) in if map_of ps key = None then [key] else [])
        @ missing_keys ps offset n (d + chunk_len offset n d)
      else [])"
  by pat_completeness auto
termination
  by (relation "measure (\<lambda>(ps, offset, n, d). n - d)") (auto simp: chunk_len_pos diff_less_mono2)

declare missing_keys.simps [simp del]

fun commit_pages ::
  "nat list \<Rightarrow> pmm \<Rightarrow> (nat \<times> PageMapEntry) list \<Rightarrow> (pmm \<times> (nat \<times> PageMapEntry) list \<times> unit result) outcome"
where
  "commit_pages [] st ps = Return (st, ps, Inr ())"
| "commit_pages (key # keys) st ps =
     outcome_bind (pmm_alloc_user_page st) (\<lambda>(st', r).
       case r of
         Inl e \<Rightarrow> Return (st', ps, Inl ''Failed to allocate user page'')
       | Inr paddr \<Rightarrow> commit_pages keys st'
           (btree_or_insert key \<lparr>pm_paddr = paddr, pm_present = True, pm_writable = True\<rparr> ps))"

definition page_vaddr :: "PageMapEntry \<Rightarrow> nat \<Rightarrow> nat" where
  "page_vaddr e page_offset = unat (paddr_to_vaddr_user_zone (pm_paddr e) + of_nat page_offset)"

function write_loop ::
  "(nat \<times> PageMapEntry) list \<Rightarrow> nat \<Rightarrow> u8 list \<Rightarrow> nat \<Rightarrow> memory \<Rightarrow> nat \<Rightarrow> (memory \<times> nat result) outcome"
where
  "write_loop ps offset bs d m written =
     (if d < length bs then
        (case map_of ps (page_key ((offset + d) mod 2 ^ 64)) of
           None \<Rightarrow> Panic ''called `Option::unwrap()` on a `None` value''
         | Some e \<Rightarrow>
             if \<not> pm_present e then Return (m, Inl ''page not present (allocation failed)'')
             else
               let to_copy = chunk_len offset (length bs) d;
                   vaddr = page_vaddr e ((offset + d) mod 4096)
               in write_loop ps offset bs (d + to_copy)
                    (mem_write m vaddr (take to_copy (drop d bs))) (written + to_copy))
      else Return (m, Inr written))"
  by pat_completeness auto
termination
  by (relation "measure (\<lambda>(ps, offset, bs, d, m, written). length bs - d)")
    (auto simp: chunk_len_pos diff_less_mono2)

declare write_loop.simps [simp del]

text \<open>
  Both \<open>offset + data.len()\<close> and \<open>end - offset\<close> wrap at 64 bits, so a range
  that runs over the end of the offsets is not cut at the size: the slice bound
  comes out as \<open>data.len()\<close>, and the loops go on at the offsets from zero.
\<close>

definition Vmo_write :: "vworld \<Rightarrow> Vmo \<Rightarrow> nat \<Rightarrow> u8 list \<Rightarrow> (vworld \<times> Vmo \<times> nat result) outcome" where
  "Vmo_write w v offset data =
     (let sz = unat (vmo_size v) in
      if offset \<ge> sz then Return (w, v, Inl ''offset out of bounds'')
      else
        let last = min ((offset + length data) mod 2 ^ 64) sz in
        let bound = (last + 2 ^ 64 - offset) mod 2 ^ 64 in
        if bound > length data then Panic ''range end index out of range for slice''
        else
          let to_write = take bound data;
              keys = missing_keys (vmo_pages v) offset (length to_write) 0
          in outcome_bind (commit_pages keys (phys w) (vmo_pages v)) (\<lambda>(st, ps, r).
               case r of
                 Inl e \<Rightarrow> Return (w\<lparr>phys := st\<rparr>, v\<lparr>vmo_pages := ps\<rparr>, Inl e)
               | Inr _ \<Rightarrow> outcome_bind (write_loop ps offset to_write 0 (memory w) 0) (\<lambda>(m, n).
                   Return (w\<lparr>phys := st, memory := m\<rparr>, v\<lparr>vmo_pages := ps\<rparr>, n))))"

section \<open>Reading\<close>

function read_loop :: "(nat \<times> PageMapEntry) list \<Rightarrow> memory \<Rightarrow> nat \<Rightarrow> nat \<Rightarrow> nat \<Rightarrow> u8 list \<Rightarrow> u8 list" where
  "read_loop ps m offset to_read bytes_read buf =
     (if bytes_read < to_read then
        let to_copy = chunk_len offset to_read bytes_read;
            chunk = (case map_of ps (page_key ((offset + bytes_read) mod 2 ^ 64)) of
                       None \<Rightarrow> replicate to_copy 0
                     | Some e \<Rightarrow> mem_read m (page_vaddr e ((offset + bytes_read) mod 4096)) to_copy)
        in read_loop ps m offset to_read (bytes_read + to_copy)
             (take bytes_read buf @ chunk @ drop (bytes_read + to_copy) buf)
      else buf)"
  by pat_completeness auto
termination
  by (relation "measure (\<lambda>(ps, m, offset, to_read, bytes_read, buf). to_read - bytes_read)")
    (auto simp: chunk_len_pos diff_less_mono2)

declare read_loop.simps [simp del]

definition Vmo_read :: "vworld \<Rightarrow> Vmo \<Rightarrow> nat \<Rightarrow> u8 list \<Rightarrow> (u8 list \<times> nat result) outcome" where
  "Vmo_read w v offset buf =
     (let sz = unat (vmo_size v) in
      if offset \<ge> sz then Return (buf, Inl ''offset out of bounds'')
      else
        let last = min ((offset + length buf) mod 2 ^ 64) sz in
        let to_read = (last + 2 ^ 64 - offset) mod 2 ^ 64
        in Return (read_loop (vmo_pages v) (memory w) offset to_read 0 buf, Inr to_read))"

section \<open>Cloning\<close>

function copy_page :: "u64 \<Rightarrow> u64 \<Rightarrow> nat \<Rightarrow> memory \<Rightarrow> memory" where
  "copy_page src dst o_in_page m =
     (if o_in_page < 4096 then
        let bytes_to_copy = min 256 (4096 - o_in_page);
            buffer = mem_read m (unat (paddr_to_vaddr_user_zone (src + of_nat o_in_page))) bytes_to_copy
        in copy_page src dst (o_in_page + bytes_to_copy)
             (mem_write m (unat (paddr_to_vaddr_user_zone (dst + of_nat o_in_page))) buffer)
      else m)"
  by pat_completeness auto
termination
  by (relation "measure (\<lambda>(src, dst, o_in_page, m). 4096 - o_in_page)") auto

declare copy_page.simps [simp del]

fun clone_pages ::
  "(nat \<times> PageMapEntry) list \<Rightarrow> vworld \<Rightarrow> (nat \<times> PageMapEntry) list
   \<Rightarrow> (vworld \<times> (nat \<times> PageMapEntry) list \<times> unit result) outcome"
where
  "clone_pages [] w child = Return (w, child, Inr ())"
| "clone_pages ((key, e) # ps) w child =
     (if pm_present e then
        outcome_bind (pmm_alloc_user_page (phys w)) (\<lambda>(st, r).
          case r of
            Inl x \<Rightarrow> Return (w\<lparr>phys := st\<rparr>, child, Inl ''Failed to allocate page for clone'')
          | Inr new_paddr \<Rightarrow>
              clone_pages ps
                (w\<lparr>phys := st, memory := copy_page (pm_paddr e) new_paddr 0 (memory w)\<rparr>)
                (btree_insert key \<lparr>pm_paddr = new_paddr, pm_present = True, pm_writable = True\<rparr> child))
      else clone_pages ps w child)"

definition Vmo_clone :: "vworld \<Rightarrow> Vmo \<Rightarrow> (vworld \<times> Vmo result) outcome" where
  "Vmo_clone w v =
     (case Vmo_create w (vmo_size v) 0 of
        (w1, Inl e) \<Rightarrow> Return (w1, Inl e)
      | (w1, Inr cloned) \<Rightarrow>
          outcome_bind (clone_pages (vmo_pages v) w1 []) (\<lambda>(w2, child, r).
            case r of
              Inl e \<Rightarrow> Return (w2, Inl e)
            | Inr _ \<Rightarrow> Return (w2, Inr (cloned\<lparr>vmo_pages := child\<rparr>))))"

definition Vmo_set_cache_policy :: "Vmo \<Rightarrow> CachePolicy \<Rightarrow> Vmo" where
  "Vmo_set_cache_policy v p = v\<lparr>vmo_cache := p\<rparr>"

section \<open>Well-formed worlds and page maps\<close>

definition user_page :: "pmm \<Rightarrow> PageState \<Rightarrow> u64 \<Rightarrow> bool" where
  "user_page st s p \<longleftrightarrow> (\<exists>fl. pmm_abs st p = Some (s, fl) \<and> \<not> zone_excludes PMM_ALLOC_FLAG_USER fl)"

text \<open>
  Every page of the user zone is page aligned and below the identity-mapped
  limit, as the arena layout of \<open>init.rs\<close> makes it.
\<close>

definition zone_low :: "pmm \<Rightarrow> bool" where
  "zone_low st \<longleftrightarrow> (\<forall>p s fl. pmm_abs st p = Some (s, fl) \<and> \<not> zone_excludes PMM_ALLOC_FLAG_USER fl \<longrightarrow>
     unat p mod 4096 = 0 \<and> unat p < 0x80000000)"

definition page_ok :: "PageMapEntry \<Rightarrow> bool" where
  "page_ok e \<longleftrightarrow> pm_present e \<and> unat (pm_paddr e) mod 4096 = 0 \<and> unat (pm_paddr e) < 0x80000000"

definition pages_ok :: "(nat \<times> PageMapEntry) list \<Rightarrow> bool" where
  "pages_ok ps \<longleftrightarrow> (\<forall>k e. map_of ps k = Some e \<longrightarrow> page_ok e) \<and>
     (\<forall>k k' e e'. map_of ps k = Some e \<and> map_of ps k' = Some e' \<and> pm_paddr e = pm_paddr e' \<longrightarrow> k = k')"

text \<open>The physical pages that a page map owns.\<close>

definition frames :: "(nat \<times> PageMapEntry) list \<Rightarrow> u64 set" where
  "frames ps = {pm_paddr e | k e. map_of ps k = Some e}"

definition vmo_inv :: "vworld \<Rightarrow> Vmo \<Rightarrow> bool" where
  "vmo_inv w v \<longleftrightarrow> pages_ok (vmo_pages v) \<and> distinct (map fst (vmo_pages v)) \<and>
     (\<forall>p \<in> frames (vmo_pages v). user_page (phys w) Allocated p)"

definition world_inv :: "vworld \<Rightarrow> bool" where
  "world_inv w \<longleftrightarrow> pmm_inv (phys w) \<and> zone_low (phys w)"

text \<open>The byte address of byte \<open>i\<close> of an object, and the byte a reader sees there.\<close>

definition loc :: "(nat \<times> PageMapEntry) list \<Rightarrow> nat \<Rightarrow> nat" where
  "loc ps i = page_vaddr (the (map_of ps (page_key i))) (i mod 4096)"

definition byte_at :: "memory \<Rightarrow> (nat \<times> PageMapEntry) list \<Rightarrow> nat \<Rightarrow> u8" where
  "byte_at m ps i = (if map_of ps (page_key i) = None then 0 else m (loc ps i))"

section \<open>Facts about ordered maps\<close>

lemma map_of_btree_insert [simp]: "map_of (btree_insert k v xs) = (map_of xs)(k \<mapsto> v)"
  by (induction k v xs rule: btree_insert.induct) (auto simp: fun_eq_iff)

lemma set_btree_insert_keys: "fst ` set (btree_insert k v xs) = insert k (fst ` set xs)"
  by (induction k v xs rule: btree_insert.induct) auto

lemma distinct_btree_insert:
  "k \<notin> fst ` set xs \<Longrightarrow> distinct (map fst xs) \<Longrightarrow> distinct (map fst (btree_insert k v xs))"
  by (induction k v xs rule: btree_insert.induct) (auto simp: set_btree_insert_keys)

section \<open>Addresses\<close>

lemma page_vaddr_low:
  assumes "page_ok e" "j < 4096"
  shows "page_vaddr e j = unat (pm_paddr e) + j"
proof -
  have "pm_paddr e < IDENTITY_MAP_LIMIT"
    using assms(1) by (simp add: page_ok_def IDENTITY_MAP_LIMIT_def word_less_nat_alt)
  then show ?thesis
    using assms by (simp add: page_vaddr_def paddr_to_vaddr_user_zone_def page_ok_def unat_word_ariths unat_of_nat)
qed

lemma page_key_split: "i = page_key i + i mod 4096"
  by (simp add: page_key_def)

lemma loc_low:
  assumes "pages_ok ps" "map_of ps (page_key i) = Some e"
  shows "loc ps i = unat (pm_paddr e) + i mod 4096"
  using assms page_vaddr_low[of e "i mod 4096"] by (auto simp: loc_def pages_ok_def)

lemma aligned_frame_inj:
  fixes a b i j :: nat
  assumes "a mod 4096 = 0" "b mod 4096 = 0" "i < 4096" "j < 4096" "a + i = b + j"
  shows "a = b \<and> i = j"
proof -
  have "(a + i) mod 4096 = i" "(b + j) mod 4096 = j"
    using assms(1-4) by (metis add.left_neutral mod_add_left_eq mod_less)+
  with assms(5) show ?thesis by simp
qed

lemma loc_inj:
  assumes "pages_ok ps" "map_of ps (page_key i) \<noteq> None" "map_of ps (page_key j) \<noteq> None" "loc ps i = loc ps j"
  shows "i = j"
proof -
  obtain e f where e: "map_of ps (page_key i) = Some e" "map_of ps (page_key j) = Some f"
    using assms(2,3) by auto
  have "page_ok e" "page_ok f" using assms(1) e by (auto simp: pages_ok_def)
  then have "unat (pm_paddr e) = unat (pm_paddr f) \<and> i mod 4096 = j mod 4096"
    using aligned_frame_inj[of "unat (pm_paddr e)" "unat (pm_paddr f)" "i mod 4096" "j mod 4096"]
      loc_low[OF assms(1) e(1)] loc_low[OF assms(1) e(2)] assms(4)
    by (simp add: page_ok_def)
  then have "pm_paddr e = pm_paddr f" "i mod 4096 = j mod 4096" by (simp_all add: word_unat_eq_iff)
  moreover from this(1) have "page_key i = page_key j" using assms(1) e by (auto simp: pages_ok_def)
  ultimately show ?thesis using page_key_split[of i] page_key_split[of j] by simp
qed

lemma page_div_mod:
  "(r :: nat) < 4096 \<Longrightarrow> (r + 4096 * q) div 4096 = q \<and> (r + 4096 * q) mod 4096 = r"
  by simp

lemma chunk_same_page:
  assumes "k < chunk_len offset n d"
  shows "page_key (offset + d + k) = page_key (offset + d)"
    and "(offset + d + k) mod 4096 = (offset + d) mod 4096 + k"
    and "d + k < n"
proof -
  let ?o = "(offset + d) mod 4096"
  have k: "?o + k < 4096" "d + k < n" using assms by (auto simp: chunk_len_def)
  then show "d + k < n" by simp
  have e: "offset + d + k = (?o + k) + 4096 * ((offset + d) div 4096)"
    using div_mult_mod_eq[of "offset + d" 4096] by (simp only: ac_simps)
  have dm: "(offset + d + k) div 4096 = (offset + d) div 4096" "(offset + d + k) mod 4096 = ?o + k"
    unfolding e using page_div_mod[OF k(1), of "(offset + d) div 4096"] by blast+
  then show "page_key (offset + d + k) = page_key (offset + d)" "(offset + d + k) mod 4096 = ?o + k"
    by (simp_all add: page_key_def)
qed

lemma chunk_len_le: "d < n \<Longrightarrow> d + chunk_len offset n d \<le> n"
  by (simp add: chunk_len_def)

lemma chunk_page_bound: "d < n \<Longrightarrow> (offset + d) mod 4096 + chunk_len offset n d \<le> 4096"
  by (simp add: chunk_len_def min_def) (use mod_less_divisor[of 4096 "offset + d"] in linarith)

lemma loc_chunk:
  assumes "pages_ok ps" "map_of ps (page_key (offset + d)) = Some e" "k < chunk_len offset n d"
  shows "loc ps (offset + d + k) = page_vaddr e ((offset + d) mod 4096) + k"
proof -
  note same = chunk_same_page[OF assms(3)]
  have "page_ok e" using assms(1,2) by (auto simp: pages_ok_def)
  have "loc ps (offset + d + k) = unat (pm_paddr e) + (offset + d + k) mod 4096"
    by (rule loc_low[OF assms(1)]) (simp only: same(1) assms(2))
  also have "\<dots> = page_vaddr e ((offset + d) mod 4096) + k"
    using page_vaddr_low[OF \<open>page_ok e\<close>, of "(offset + d) mod 4096"] same(2) by simp
  finally show ?thesis .
qed

section \<open>Reading\<close>

lemma read_chunk:
  fixes offset n d :: nat
  assumes "pages_ok ps"
  defines "c \<equiv> chunk_len offset n d"
  shows "(case map_of ps (page_key (offset + d)) of None \<Rightarrow> replicate c 0
          | Some e \<Rightarrow> mem_read m (page_vaddr e ((offset + d) mod 4096)) c)
       = map (\<lambda>i. byte_at m ps (offset + i)) [d..<d + c]" (is "?chunk = _")
proof (rule nth_equalityI)
  show "length ?chunk = length (map (\<lambda>i. byte_at m ps (offset + i)) [d..<d + c])"
    by (simp add: mem_read_def split: option.splits)
  fix k assume "k < length ?chunk"
  then have k: "k < c" by (simp add: mem_read_def split: option.splits)
  note same = chunk_same_page(1)[OF k[unfolded c_def]]
  show "?chunk ! k = map (\<lambda>i. byte_at m ps (offset + i)) [d..<d + c] ! k"
  proof (cases "map_of ps (page_key (offset + d))")
    case None
    with k same show ?thesis by (simp add: byte_at_def add.assoc)
  next
    case (Some e)
    with loc_chunk[OF assms(1) Some k[unfolded c_def]] k same show ?thesis
      by (simp add: byte_at_def mem_read_def add.assoc)
  qed
qed

lemma read_loop_correct:
  assumes "pages_ok ps"
  shows "br \<le> n \<Longrightarrow> n \<le> length buf \<Longrightarrow> offset + n \<le> 2 ^ 64 \<Longrightarrow> read_loop ps m offset n br buf
       = take br buf @ map (\<lambda>i. byte_at m ps (offset + i)) [br..<n] @ drop n buf"
proof (induction "n - br" arbitrary: br buf rule: less_induct)
  case less
  show ?case
  proof (cases "br < n")
    case False
    with less.prems show ?thesis by (subst read_loop.simps) simp
  next
    case True
    define c where "c = chunk_len offset n br"
    define buf' where "buf' = take br buf @ map (\<lambda>i. byte_at m ps (offset + i)) [br..<br + c] @ drop (br + c) buf"
    have c: "0 < c" "br + c \<le> n" using True by (simp_all add: c_def chunk_len_pos chunk_len_le)
    have "read_loop ps m offset n br buf = read_loop ps m offset n (br + c) buf'"
      using True less.prems(3) read_chunk[OF assms, of offset n br m]
      by (subst read_loop.simps) (simp add: Let_def c_def buf'_def)
    also have "\<dots> = take (br + c) buf' @ map (\<lambda>i. byte_at m ps (offset + i)) [br + c..<n] @ drop n buf'"
      using less.hyps[of "br + c" buf'] c less.prems by (simp add: buf'_def)
    also have "take (br + c) buf' = take br buf @ map (\<lambda>i. byte_at m ps (offset + i)) [br..<br + c]"
      using less.prems c by (simp add: buf'_def)
    also have "drop n buf' = drop n buf"
      using less.prems c by (simp add: buf'_def)
    finally show ?thesis using c upt_add_eq_append[of br "br + c" "n - (br + c)"] by simp
  qed
qed

section \<open>Writing\<close>

lemma missing_keys_cover:
  "d \<le> i \<Longrightarrow> i < n \<Longrightarrow> offset + n \<le> 2 ^ 64 \<Longrightarrow>
   map_of ps (page_key (offset + i)) \<noteq> None \<or> page_key (offset + i) \<in> set (missing_keys ps offset n d)"
proof (induction "n - d" arbitrary: d rule: less_induct)
  case less
  then have d: "d < n" by simp
  define c where "c = chunk_len offset n d"
  have c: "0 < c" using d by (simp add: c_def chunk_len_pos)
  show ?case
  proof (cases "i < d + c")
    case True
    then have "page_key (offset + i) = page_key (offset + d)"
      using chunk_same_page(1)[of "i - d" offset n d] less.prems by (simp add: c_def)
    with d less.prems(3) show ?thesis by (subst missing_keys.simps) auto
  next
    case False
    with less.hyps[of "d + c"] less.prems c d
    have "map_of ps (page_key (offset + i)) \<noteq> None \<or> page_key (offset + i) \<in> set (missing_keys ps offset n (d + c))"
      by simp
    with d less.prems(3) show ?thesis by (subst missing_keys.simps) (auto simp: c_def Let_def)
  qed
qed

lemma write_loop_correct:
  assumes ok: "pages_ok ps" and present: "\<forall>i < length bs. map_of ps (page_key (offset + i)) \<noteq> None"
    and fits: "offset + length bs \<le> 2 ^ 64"
  shows "d \<le> length bs \<Longrightarrow>
    \<exists>m'. write_loop ps offset bs d m wr = Return (m', Inr (wr + (length bs - d))) \<and>
      (\<forall>i. d \<le> i \<and> i < length bs \<longrightarrow> m' (loc ps (offset + i)) = bs ! i) \<and>
      (\<forall>a. (\<forall>i. d \<le> i \<and> i < length bs \<longrightarrow> a \<noteq> loc ps (offset + i)) \<longrightarrow> m' a = m a)"
proof (induction "length bs - d" arbitrary: d m wr rule: less_induct)
  case less
  show ?case
  proof (cases "d < length bs")
    case False
    with less.prems show ?thesis by (subst write_loop.simps) auto
  next
    case True
    then obtain e where e: "map_of ps (page_key (offset + d)) = Some e" using present by auto
    have pe: "pm_present e" using ok e by (auto simp: pages_ok_def page_ok_def)
    define c where "c = chunk_len offset (length bs) d"
    define v where "v = page_vaddr e ((offset + d) mod 4096)"
    define m1 where "m1 = mem_write m v (take c (drop d bs))"
    have c: "0 < c" "d + c \<le> length bs" using True by (simp_all add: c_def chunk_len_pos chunk_len_le)
    have locs: "loc ps (offset + (d + k)) = v + k" if "k < c" for k
      using loc_chunk[OF ok e] that by (simp add: c_def v_def add.assoc)
    have m1: "m1 (v + k) = bs ! (d + k)" if "k < c" for k
      using that c by (simp add: m1_def mem_write_def)
    have step: "write_loop ps offset bs d m wr = write_loop ps offset bs (d + c) m1 (wr + c)"
      using True e pe fits by (subst write_loop.simps) (simp add: Let_def c_def v_def m1_def)
    obtain m' where IH: "write_loop ps offset bs (d + c) m1 (wr + c) = Return (m', Inr (wr + c + (length bs - (d + c))))"
      "\<forall>i. d + c \<le> i \<and> i < length bs \<longrightarrow> m' (loc ps (offset + i)) = bs ! i"
      "\<forall>a. (\<forall>i. d + c \<le> i \<and> i < length bs \<longrightarrow> a \<noteq> loc ps (offset + i)) \<longrightarrow> m' a = m1 a"
    proof -
      have "length bs - (d + c) < length bs - d" using c by simp
      from less.hyps[OF this c(2), of m1 "wr + c"] that show ?thesis by blast
    qed
    have "m' (loc ps (offset + i)) = bs ! i" if i: "d \<le> i" "i < length bs" for i
    proof (cases "d + c \<le> i")
      case False
      then have "i - d < c" using i by simp
      have "loc ps (offset + i) \<noteq> loc ps (offset + j)" if "d + c \<le> j \<and> j < length bs" for j
        using loc_inj[OF ok, of "offset + i" "offset + j"] present i that False by auto
      then have "m' (loc ps (offset + i)) = m1 (loc ps (offset + i))" using IH(3) by blast
      with locs[OF \<open>i - d < c\<close>] m1[OF \<open>i - d < c\<close>] i show ?thesis by simp
    qed (use IH(2) i in blast)
    moreover have "m' a = m a" if a: "\<forall>i. d \<le> i \<and> i < length bs \<longrightarrow> a \<noteq> loc ps (offset + i)" for a
    proof -
      have "m' a = m1 a" using IH(3) a by auto
      moreover have "\<not> (v \<le> a \<and> a < v + c)"
      proof
        assume "v \<le> a \<and> a < v + c"
        then have "a - v < c" "a = v + (a - v)" by auto
        with locs[of "a - v"] a c(2) show False by (metis add_less_cancel_left le_add1 order_less_le_trans)
      qed
      ultimately show ?thesis using c by (simp add: m1_def mem_write_def)
    qed
    ultimately show ?thesis using step IH(1) c by auto
  qed
qed

section \<open>Taking pages from the user zone\<close>

definition user_free :: "pmm \<Rightarrow> nat" where
  "user_free st = card (zone_avail PMM_ALLOC_FLAG_USER st)"

lemma zone_avail_user_page: "p \<in> zone_avail PMM_ALLOC_FLAG_USER st \<longleftrightarrow> user_page st Free p"
  by (simp add: zone_avail_def user_page_def)

lemma finite_zone_avail: "finite (zone_avail flags st)"
proof -
  have "zone_avail flags st \<subseteq> fst ` set (page_entries st)"
    by (auto simp: zone_avail_def pmm_abs_def dest!: map_of_SomeD intro: rev_image_eqI)
  then show ?thesis by (rule finite_subset) simp
qed

text \<open>
  \<open>grows st st'\<close>: pages have only been taken from the free pages of the user
  zone; no page changes its zone, and pages of other zones keep their state.
\<close>

definition grows :: "pmm \<Rightarrow> pmm \<Rightarrow> bool" where
  "grows st st' \<longleftrightarrow> pmm_inv st' \<and> zone_low st' \<and>
     (\<forall>q. user_page st Allocated q \<longrightarrow> user_page st' Allocated q) \<and>
     (\<forall>q. user_page st' Free q \<longrightarrow> user_page st Free q) \<and>
     (\<forall>q. map_option snd (pmm_abs st' q) = map_option snd (pmm_abs st q)) \<and>
     (\<forall>q s fl. zone_excludes PMM_ALLOC_FLAG_USER fl \<longrightarrow>
        (pmm_abs st' q = Some (s, fl)) = (pmm_abs st q = Some (s, fl)))"

lemma grows_refl: "pmm_inv st \<Longrightarrow> zone_low st \<Longrightarrow> grows st st"
  by (simp add: grows_def)

lemma grows_trans: "grows a b \<Longrightarrow> grows b c \<Longrightarrow> grows a c"
  by (auto simp: grows_def)

lemma user_page_not_both: "user_page st Free p \<Longrightarrow> \<not> user_page st Allocated p"
  by (auto simp: user_page_def)

lemma zone_low_user_page: "zone_low st \<Longrightarrow> user_page st s p \<Longrightarrow> unat p mod 4096 = 0 \<and> unat p < 0x80000000"
  by (auto simp: zone_low_def user_page_def)

lemma pmm_alloc_user_page_grows:
  assumes "pmm_inv st" "zone_low st" "pmm_alloc_user_page st = Return (st', r)"
  shows "\<exists>p. r = Inr p \<and> grows st st' \<and> user_page st Free p \<and> user_page st' Allocated p \<and>
           user_free st = Suc (user_free st')"
proof -
  from assms(3) obtain p where p: "r = Inr p" "alloc_from PMM_ALLOC_FLAG_USER st = Some (st', p)"
    by (auto simp: pmm_alloc_user_page_def pmm_alloc_page_Return)
  from pmm_alloc_page_refines[OF assms(1) p(2)] obtain fl where
    f: "pmm_inv st'" "pmm_abs st p = Some (Free, fl)" "\<not> zone_excludes PMM_ALLOC_FLAG_USER fl"
      "pmm_abs st' = (pmm_abs st)(p \<mapsto> (Allocated, fl))" by blast
  have "zone_low st'" using assms(2) f by (auto simp: zone_low_def)
  moreover have "user_page st' Allocated q" if "user_page st Allocated q" for q
    using that f by (auto simp: user_page_def)
  moreover have "user_page st Free q" if "user_page st' Free q" for q
    using that f by (auto simp: user_page_def split: if_splits)
  moreover have "map_option snd (pmm_abs st' q) = map_option snd (pmm_abs st q)" for q using f by simp
  moreover have "(pmm_abs st' q = Some (s, fl')) = (pmm_abs st q = Some (s, fl'))"
    if "zone_excludes PMM_ALLOC_FLAG_USER fl'" for q s fl' using that f by auto
  ultimately have "grows st st'" using f(1) by (simp add: grows_def)
  moreover have "user_free st = Suc (user_free st')"
    using zone.alloc_takes[OF assms(1) p(2)] finite_zone_avail[of PMM_ALLOC_FLAG_USER st]
    unfolding user_free_def by (metis card.remove)
  ultimately show ?thesis using p(1) f by (auto simp: user_page_def)
qed

lemma pmm_alloc_user_page_returns:
  assumes "pmm_inv st" "0 < user_free st"
  shows "\<exists>st' r. pmm_alloc_user_page st = Return (st', r)"
proof -
  have "zone_avail PMM_ALLOC_FLAG_USER st \<noteq> {}" using assms(2) by (auto simp: user_free_def)
  with zone.alloc_stops[OF assms(1), of PMM_ALLOC_FLAG_USER]
  obtain st' p where "alloc_from PMM_ALLOC_FLAG_USER st = Some (st', p)" by fastforce
  then show ?thesis by (simp add: pmm_alloc_user_page_def pmm_alloc_page_def)
qed

lemma frames_ran: "frames ps = pm_paddr ` ran (map_of ps)"
  by (auto simp: frames_def ran_def)

lemma frames_Some: "map_of ps k = Some e \<Longrightarrow> pm_paddr e \<in> frames ps"
  by (auto simp: frames_def)

lemma pages_ok_add:
  assumes "pages_ok ps" "page_ok e" "pm_paddr e \<notin> frames ps"
  shows "pages_ok (btree_insert k e ps)"
  using assms by (auto simp: pages_ok_def frames_def split: if_splits)

lemma frames_add_fresh: "map_of ps k = None \<Longrightarrow> frames (btree_insert k e ps) = insert (pm_paddr e) (frames ps)"
  by (simp add: frames_ran ran_map_upd)

definition owned_pages :: "pmm \<Rightarrow> (nat \<times> PageMapEntry) list \<Rightarrow> bool" where
  "owned_pages st ps \<longleftrightarrow> pages_ok ps \<and> distinct (map fst ps) \<and> (\<forall>p \<in> frames ps. user_page st Allocated p)"

lemma vmo_inv_owned: "vmo_inv w v \<longleftrightarrow> owned_pages (phys w) (vmo_pages v)"
  by (simp add: vmo_inv_def owned_pages_def)

lemma owned_pages_grows: "owned_pages st ps \<Longrightarrow> grows st st' \<Longrightarrow> owned_pages st' ps"
  by (auto simp: owned_pages_def grows_def)

lemma owned_pages_insert:
  assumes "owned_pages st ps" "zone_low st" "grows st st'" "user_page st Free p" "user_page st' Allocated p"
    and "map_of ps k = None"
  shows "owned_pages st' (btree_insert k \<lparr>pm_paddr = p, pm_present = True, pm_writable = True\<rparr> ps)"
proof -
  have "p \<notin> frames ps" using assms(1,4) user_page_not_both by (auto simp: owned_pages_def)
  moreover have "page_ok \<lparr>pm_paddr = p, pm_present = True, pm_writable = True\<rparr>"
    using zone_low_user_page[OF assms(2,4)] by (simp add: page_ok_def)
  moreover have "k \<notin> fst ` set ps" using assms(6) by (simp add: map_of_eq_None_iff)
  ultimately show ?thesis
    using owned_pages_grows[OF assms(1,3)] assms(5,6)
    by (auto simp: owned_pages_def pages_ok_add distinct_btree_insert frames_add_fresh)
qed

lemma commit_pages_correct:
  assumes "pmm_inv st" "zone_low st" "owned_pages st ps" "length keys \<le> user_free st"
  shows "\<exists>st' ps'. commit_pages keys st ps = Return (st', ps', Inr ()) \<and> grows st st' \<and> owned_pages st' ps' \<and>
     (\<forall>k e. map_of ps k = Some e \<longrightarrow> map_of ps' k = Some e) \<and> (\<forall>k \<in> set keys. map_of ps' k \<noteq> None) \<and>
     (\<forall>k e. map_of ps' k = Some e \<longrightarrow> map_of ps k = Some e \<or> k \<in> set keys \<and> user_page st Free (pm_paddr e))"
  using assms
proof (induction keys arbitrary: st ps)
  case Nil
  then show ?case by (simp add: grows_refl)
next
  case (Cons k keys)
  from pmm_alloc_user_page_returns[OF Cons.prems(1)] Cons.prems(4)
  obtain st1 r where a: "pmm_alloc_user_page st = Return (st1, r)" by fastforce
  from pmm_alloc_user_page_grows[OF Cons.prems(1,2) a] obtain p where
    p: "r = Inr p" "grows st st1" "user_page st Free p" "user_page st1 Allocated p"
      "user_free st = Suc (user_free st1)" by blast
  define ps1 where "ps1 = btree_or_insert k \<lparr>pm_paddr = p, pm_present = True, pm_writable = True\<rparr> ps"
  have own: "owned_pages st1 ps1"
    using owned_pages_insert[OF Cons.prems(3,2) p(2-4)] owned_pages_grows[OF Cons.prems(3) p(2)]
    by (simp add: ps1_def btree_or_insert_def)
  have inv1: "pmm_inv st1" "zone_low st1" using p(2) by (simp_all add: grows_def)
  have len: "length keys \<le> user_free st1" using Cons.prems(4) p(5) by simp
  from Cons.IH[OF inv1 own len] obtain st' ps' where
    IH: "commit_pages keys st1 ps1 = Return (st', ps', Inr ())" "grows st1 st'" "owned_pages st' ps'"
      "\<forall>k e. map_of ps1 k = Some e \<longrightarrow> map_of ps' k = Some e" "\<forall>k \<in> set keys. map_of ps' k \<noteq> None"
      "\<forall>k e. map_of ps' k = Some e \<longrightarrow> map_of ps1 k = Some e \<or> k \<in> set keys \<and> user_page st1 Free (pm_paddr e)"
    by blast
  have run: "commit_pages (k # keys) st ps = Return (st', ps', Inr ())"
    using a p(1) IH(1) by (simp add: ps1_def)
  have ps1: "map_of ps1 k' = (if k' = k \<and> map_of ps k = None
       then Some \<lparr>pm_paddr = p, pm_present = True, pm_writable = True\<rparr> else map_of ps k')" for k'
    by (auto simp: ps1_def btree_or_insert_def)
  have "map_of ps' k' = Some e" if "map_of ps k' = Some e" for k' e
  proof -
    have "map_of ps1 k' = Some e" using ps1[of k'] that by (simp split: if_splits) (use that in auto)
    with IH(4) show ?thesis by blast
  qed
  moreover have "map_of ps' k' \<noteq> None" if "k' \<in> set (k # keys)" for k'
  proof (cases "k' = k")
    case True
    then have "map_of ps1 k' \<noteq> None" using ps1[of k] by (auto split: if_splits)
    with IH(4) show ?thesis by fastforce
  qed (use IH(5) that in auto)
  moreover have "map_of ps k' = Some e \<or> k' \<in> set (k # keys) \<and> user_page st Free (pm_paddr e)"
    if "map_of ps' k' = Some e" for k' e
  proof -
    from IH(6) that have "map_of ps1 k' = Some e \<or> k' \<in> set keys \<and> user_page st1 Free (pm_paddr e)" by blast
    then show ?thesis
    proof
      assume "map_of ps1 k' = Some e"
      with ps1[of k'] p(3) show ?thesis by (auto split: if_splits)
    qed (use p(2) in \<open>auto simp: grows_def\<close>)
  qed
  ultimately show ?case using run grows_trans[OF p(2) IH(2)] IH(3) by blast
qed

section \<open>The effect of a write\<close>

lemma loc_disjoint:
  assumes "pages_ok ps" "pages_ok qs" "frames ps \<inter> frames qs = {}"
    and "map_of ps (page_key i) \<noteq> None" "map_of qs (page_key j) \<noteq> None"
  shows "loc ps i \<noteq> loc qs j"
proof
  assume eq: "loc ps i = loc qs j"
  obtain e f where e: "map_of ps (page_key i) = Some e" "map_of qs (page_key j) = Some f"
    using assms(4,5) by auto
  have "page_ok e" "page_ok f" using assms(1,2) e by (auto simp: pages_ok_def)
  then have "unat (pm_paddr e) = unat (pm_paddr f)"
    using aligned_frame_inj[of "unat (pm_paddr e)" "unat (pm_paddr f)" "i mod 4096" "j mod 4096"]
      loc_low[OF assms(1) e(1)] loc_low[OF assms(2) e(2)] eq
    by (simp add: page_ok_def)
  then have "pm_paddr e = pm_paddr f" by (simp add: word_unat_eq_iff)
  with frames_Some[OF e(1)] frames_Some[OF e(2)] assms(3) show False by auto
qed

definition write_len :: "Vmo \<Rightarrow> nat \<Rightarrow> u8 list \<Rightarrow> nat" where
  "write_len v offset data = min (length data) (unat (vmo_size v) - offset)"

text \<open>The hypotheses under which a write is served: in bounds, with enough free pages in the user zone.\<close>

definition write_ready :: "vworld \<Rightarrow> Vmo \<Rightarrow> nat \<Rightarrow> u8 list \<Rightarrow> bool" where
  "write_ready w v offset data \<longleftrightarrow> world_inv w \<and> vmo_inv w v \<and> offset < unat (vmo_size v) \<and>
     offset + length data < 2 ^ 64 \<and>
     length (missing_keys (vmo_pages v) offset (write_len v offset data) 0) \<le> user_free (phys w)"

lemma Vmo_write_effect:
  assumes "write_ready w v offset data"
  defines "n \<equiv> write_len v offset data"
  shows "\<exists>w' v'. Vmo_write w v offset data = Return (w', v', Inr n) \<and> grows (phys w) (phys w') \<and>
     world_inv w' \<and> vmo_inv w' v' \<and> vmo_size v' = vmo_size v \<and>
     (\<forall>i < n. map_of (vmo_pages v') (page_key (offset + i)) \<noteq> None \<and>
              memory w' (loc (vmo_pages v') (offset + i)) = data ! i) \<and>
     (\<forall>a. (\<forall>i < n. a \<noteq> loc (vmo_pages v') (offset + i)) \<longrightarrow> memory w' a = memory w a) \<and>
     (\<forall>k e. map_of (vmo_pages v) k = Some e \<longrightarrow> map_of (vmo_pages v') k = Some e) \<and>
     (\<forall>k e. map_of (vmo_pages v') k = Some e \<longrightarrow> map_of (vmo_pages v) k = Some e \<or> user_page (phys w) Free (pm_paddr e))"
proof -
  let ?ps = "vmo_pages v" and ?sz = "unat (vmo_size v)"
  let ?bs = "take n data" and ?keys = "missing_keys (vmo_pages v) offset n 0"
  have prems: "pmm_inv (phys w)" "zone_low (phys w)" "owned_pages (phys w) ?ps" "offset < ?sz"
    "offset + length data < 2 ^ 64" "length ?keys \<le> user_free (phys w)"
    using assms(1) by (simp_all add: write_ready_def world_inv_def vmo_inv_owned n_def)
  have lim: "min ((offset + length data) mod 2 ^ 64) ?sz = offset + n"
    using prems(4,5) by (auto simp: n_def write_len_def)
  have len: "length ?bs = n" and fits: "offset + n \<le> 2 ^ 64"
    using prems(5) by (simp_all add: n_def write_len_def)
  have bound: "(offset + n + 2 ^ 64 - offset) mod 2 ^ 64 = n" "n \<le> length data"
    using prems(5) by (simp_all add: n_def write_len_def)
  from commit_pages_correct[OF prems(1-3) prems(6)] obtain st ps where
    c: "commit_pages ?keys (phys w) ?ps = Return (st, ps, Inr ())" "grows (phys w) st" "owned_pages st ps"
      "\<forall>k e. map_of ?ps k = Some e \<longrightarrow> map_of ps k = Some e" "\<forall>k \<in> set ?keys. map_of ps k \<noteq> None"
      "\<forall>k e. map_of ps k = Some e \<longrightarrow> map_of ?ps k = Some e \<or> k \<in> set ?keys \<and> user_page (phys w) Free (pm_paddr e)"
    by blast
  have ok: "pages_ok ps" using c(3) by (simp add: owned_pages_def)
  have present: "\<forall>i < length ?bs. map_of ps (page_key (offset + i)) \<noteq> None"
    using missing_keys_cover[of 0 _ n offset ?ps] fits c(4,5) len by fastforce
  from write_loop_correct[OF ok present, of 0 "memory w" 0] fits len obtain m where
    m: "write_loop ps offset ?bs 0 (memory w) 0 = Return (m, Inr n)"
      "\<forall>i < n. m (loc ps (offset + i)) = ?bs ! i"
      "\<forall>a. (\<forall>i < n. a \<noteq> loc ps (offset + i)) \<longrightarrow> m a = memory w a" by auto
  let ?w' = "w\<lparr>phys := st, memory := m\<rparr>" and ?v' = "v\<lparr>vmo_pages := ps\<rparr>"
  have "Vmo_write w v offset data = Return (?w', ?v', Inr n)"
    using prems(4) c(1) m(1) len bound unfolding Vmo_write_def Let_def lim by simp
  moreover have "world_inv ?w'" "vmo_inv ?w' ?v'"
    using c(2,3) by (simp_all add: world_inv_def grows_def vmo_inv_owned)
  ultimately show ?thesis using c m present len
    by (intro exI[of _ ?w'] exI[of _ ?v']) auto
qed

lemma commit_pages_takes:
  "pmm_inv st \<Longrightarrow> zone_low st \<Longrightarrow> commit_pages keys st ps = Return (st', ps', Inr ()) \<Longrightarrow>
   user_free st = user_free st' + length keys"
proof (induction keys arbitrary: st ps)
  case (Cons k keys)
  from Cons.prems(3) obtain st1 r where a: "pmm_alloc_user_page st = Return (st1, r)"
    by (auto simp: outcome_bind_Return_iff)
  from pmm_alloc_user_page_grows[OF Cons.prems(1,2) a] obtain p where
    p: "r = Inr p" "grows st st1" "user_free st = Suc (user_free st1)" by blast
  with Cons.IH[of st1] Cons.prems(3) a show ?case by (auto simp: grows_def)
qed simp

lemma keys_btree_or_insert: "fst ` set (btree_or_insert k e ps) = insert k (fst ` set ps)"
proof (cases "map_of ps k")
  case (Some e')
  then have "k \<in> fst ` set ps" by (metis map_of_eq_None_iff option.distinct(1))
  with Some show ?thesis by (simp add: btree_or_insert_def insert_absorb)
qed (simp add: btree_or_insert_def set_btree_insert_keys)

lemma commit_pages_keys:
  assumes "commit_pages keys st ps = Return (st', ps', Inr ())"
  shows "fst ` set ps' = fst ` set ps \<union> set keys"
  using assms
proof (induction keys arbitrary: st ps)
  case (Cons k keys)
  from Cons.prems obtain st1 r where a: "pmm_alloc_user_page st = Return (st1, r)"
    by (auto simp: outcome_bind_Return_iff)
  with Cons.prems obtain p where p: "r = Inr p" by (cases r) auto
  have "fst ` set ps' =
      fst ` set (btree_or_insert k \<lparr>pm_paddr = p, pm_present = True, pm_writable = True\<rparr> ps) \<union> set keys"
    using Cons.prems a p by (intro Cons.IH) simp
  then show ?case by (simp add: keys_btree_or_insert)
qed simp

lemma Vmo_write_commits:
  assumes "write_ready w v offset data" "Vmo_write w v offset data = Return (w', v', r)"
  shows "commit_pages (missing_keys (vmo_pages v) offset (write_len v offset data) 0) (phys w) (vmo_pages v)
           = Return (phys w', vmo_pages v', Inr ()) \<and> vmo_size v' = vmo_size v"
proof -
  let ?n = "write_len v offset data"
  have prems: "pmm_inv (phys w)" "zone_low (phys w)" "owned_pages (phys w) (vmo_pages v)"
    "offset < unat (vmo_size v)" "offset + length data < 2 ^ 64"
    "length (missing_keys (vmo_pages v) offset ?n 0) \<le> user_free (phys w)"
    using assms(1) by (simp_all add: write_ready_def world_inv_def vmo_inv_owned)
  have lim: "min ((offset + length data) mod 2 ^ 64) (unat (vmo_size v)) = offset + ?n"
    using prems(4,5) by (auto simp: write_len_def)
  have len: "length (take ?n data) = ?n" by (simp add: write_len_def)
  have bound: "(offset + ?n + 2 ^ 64 - offset) mod 2 ^ 64 = ?n" "?n \<le> length data"
    using prems(5) by (simp_all add: write_len_def)
  from commit_pages_correct[OF prems(1-3) prems(6)] obtain st ps where
    c: "commit_pages (missing_keys (vmo_pages v) offset ?n 0) (phys w) (vmo_pages v) = Return (st, ps, Inr ())"
    by blast
  with assms(2) prems(4) len bound show ?thesis
    unfolding Vmo_write_def Let_def lim by (auto simp: outcome_bind_Return_iff)
qed

lemma Vmo_write_isolated:
  assumes "write_ready w v offset data" "Vmo_write w v offset data = Return (w', v', r)"
    and "vmo_inv w u" "frames (vmo_pages u) \<inter> frames (vmo_pages v) = {}"
  shows "vmo_inv w' u \<and> frames (vmo_pages u) \<inter> frames (vmo_pages v') = {} \<and>
     (\<forall>i. byte_at (memory w') (vmo_pages u) i = byte_at (memory w) (vmo_pages u) i)"
proof -
  let ?n = "write_len v offset data"
  from Vmo_write_effect[OF assms(1)] assms(2) have e: "grows (phys w) (phys w')" "vmo_inv w' v'"
    "\<forall>i < ?n. map_of (vmo_pages v') (page_key (offset + i)) \<noteq> None"
    "\<forall>a. (\<forall>i < ?n. a \<noteq> loc (vmo_pages v') (offset + i)) \<longrightarrow> memory w' a = memory w a"
    "\<forall>k e. map_of (vmo_pages v') k = Some e \<longrightarrow> map_of (vmo_pages v) k = Some e \<or> user_page (phys w) Free (pm_paddr e)"
    by auto
  have "p \<notin> frames (vmo_pages v')" if p: "p \<in> frames (vmo_pages u)" for p
  proof
    assume "p \<in> frames (vmo_pages v')"
    then obtain k f where f: "map_of (vmo_pages v') k = Some f" "pm_paddr f = p" by (auto simp: frames_def)
    from e(5) f(1) have "map_of (vmo_pages v) k = Some f \<or> user_page (phys w) Free p" using f(2) by blast
    moreover have "user_page (phys w) Allocated p" using assms(3) p by (simp add: vmo_inv_def)
    ultimately show False using frames_Some f(2) p assms(4) user_page_not_both by blast
  qed
  then have disj: "frames (vmo_pages u) \<inter> frames (vmo_pages v') = {}" by blast
  have "byte_at (memory w') (vmo_pages u) i = byte_at (memory w) (vmo_pages u) i" for i
  proof (cases "map_of (vmo_pages u) (page_key i) = None")
    case False
    have "loc (vmo_pages u) i \<noteq> loc (vmo_pages v') (offset + j)" if "j < ?n" for j
      using loc_disjoint[OF _ _ disj False] e(2,3) that assms(3) by (auto simp: vmo_inv_def)
    with e(4) False show ?thesis by (auto simp: byte_at_def)
  qed (simp add: byte_at_def)
  moreover have "vmo_inv w' u"
    using assms(3) owned_pages_grows e(1) by (auto simp: vmo_inv_owned)
  ultimately show ?thesis using disj by blast
qed

lemma Vmo_write_keeps:
  assumes "write_ready w v offset data" "Vmo_write w v offset data = Return (w', v', r)"
    and i: "map_of (vmo_pages v) (page_key i) \<noteq> None" "\<not> (offset \<le> i \<and> i < offset + write_len v offset data)"
  shows "byte_at (memory w') (vmo_pages v') i = byte_at (memory w) (vmo_pages v) i"
proof -
  let ?n = "write_len v offset data"
  from Vmo_write_effect[OF assms(1)] assms(2) have e: "vmo_inv w' v'"
    "\<forall>i < ?n. map_of (vmo_pages v') (page_key (offset + i)) \<noteq> None"
    "\<forall>a. (\<forall>i < ?n. a \<noteq> loc (vmo_pages v') (offset + i)) \<longrightarrow> memory w' a = memory w a"
    "\<forall>k e. map_of (vmo_pages v) k = Some e \<longrightarrow> map_of (vmo_pages v') k = Some e" by auto
  have p: "map_of (vmo_pages v') (page_key i) = map_of (vmo_pages v) (page_key i)" using e(4) i(1) by auto
  have "loc (vmo_pages v') i \<noteq> loc (vmo_pages v') (offset + j)" if "j < ?n" for j
    using loc_inj[of "vmo_pages v'" i "offset + j"] e(1,2) i p that by (auto simp: vmo_inv_def)
  with e(3) p show ?thesis by (simp add: byte_at_def loc_def)
qed

lemma Vmo_read_bytes:
  assumes "vmo_inv w v" "offset < unat (vmo_size v)" "offset + length buf < 2 ^ 64"
  defines "n \<equiv> min (length buf) (unat (vmo_size v) - offset)"
  shows "Vmo_read w v offset buf =
     Return (map (\<lambda>i. byte_at (memory w) (vmo_pages v) (offset + i)) [0..<n] @ drop n buf, Inr n)"
proof -
  have "min ((offset + length buf) mod 2 ^ 64) (unat (vmo_size v)) = offset + n"
    using assms by (auto simp: n_def)
  with read_loop_correct[of "vmo_pages v" 0 n buf offset "memory w"] assms show ?thesis
    by (simp add: Vmo_read_def Let_def vmo_inv_def)
qed

section \<open>Copying a page\<close>

lemma user_vaddr_low:
  assumes "unat p mod 4096 = 0" "unat p < 0x80000000" "j < 4096"
  shows "unat (paddr_to_vaddr_user_zone (p + of_nat j)) = unat p + j"
proof -
  have a: "unat p div 4096 * 4096 = unat p" using assms(1) by auto
  have "unat p div 4096 < 0x80000" using assms(2) by (simp add: div_less_iff_less_mult)
  then have "unat p + j < 0x80000000" using a assms(3) by linarith
  moreover from this have "unat (p + of_nat j) = unat p + j"
    using assms(3) by (simp add: unat_word_ariths unat_of_nat)
  ultimately show ?thesis
    by (simp add: paddr_to_vaddr_user_zone_def IDENTITY_MAP_LIMIT_def word_less_nat_alt)
qed

lemma copy_page_correct:
  assumes p: "unat src mod 4096 = 0" "unat src < 0x80000000" "unat dst mod 4096 = 0" "unat dst < 0x80000000" "src \<noteq> dst"
  shows "o_in_page \<le> 4096 \<Longrightarrow> o_in_page mod 256 = 0 \<Longrightarrow>
    copy_page src dst o_in_page m = (\<lambda>a. if unat dst + o_in_page \<le> a \<and> a < unat dst + 4096 then m (unat src + (a - unat dst)) else m a)"
proof (induction "4096 - o_in_page" arbitrary: o_in_page m rule: less_induct)
  case less
  show ?case
  proof (cases "o_in_page < 4096")
    case False
    with less.prems show ?thesis by (subst copy_page.simps) (auto simp: fun_eq_iff)
  next
    case True
    have q: "o_in_page + 256 \<le> 4096"
    proof -
      obtain q where "o_in_page = 256 * q" using less.prems(2) by (metis mult_div_mod_eq add.right_neutral)
      with True show ?thesis by simp
    qed
    define m1 where "m1 = mem_write m (unat dst + o_in_page) (mem_read m (unat src + o_in_page) 256)"
    have "min 256 (4096 - o_in_page) = 256" using q by simp
    then have step: "copy_page src dst o_in_page m = copy_page src dst (o_in_page + 256) m1"
      using True user_vaddr_low[OF p(1,2) True] user_vaddr_low[OF p(3,4) True]
      by (subst copy_page.simps) (simp add: m1_def)
    have m1: "m1 a = (if unat dst + o_in_page \<le> a \<and> a < unat dst + o_in_page + 256
        then m (unat src + (a - unat dst)) else m a)" for a
      by (auto simp: m1_def mem_write_def mem_read_def)
    have src: "m1 (unat src + j) = m (unat src + j)" if "j < 4096" for j
    proof -
      have "unat src + j \<noteq> unat dst + k" if "k < 4096" for k
        using aligned_frame_inj[OF p(1,3) \<open>j < 4096\<close> that] p(5) by (auto simp: word_unat_eq_iff)
      then have "\<not> (unat dst \<le> unat src + j \<and> unat src + j < unat dst + 4096)"
        by (metis add_less_cancel_left le_add_diff_inverse)
      then show ?thesis using q by (auto simp: m1)
    qed
    have "copy_page src dst (o_in_page + 256) m1 = (\<lambda>a. if unat dst + (o_in_page + 256) \<le> a \<and> a < unat dst + 4096
        then m1 (unat src + (a - unat dst)) else m1 a)"
      using less.hyps[of "o_in_page + 256" m1] True q less.prems(2) by simp
    also have "\<dots> = (\<lambda>a. if unat dst + o_in_page \<le> a \<and> a < unat dst + 4096 then m (unat src + (a - unat dst)) else m a)"
    proof (rule ext)
      fix a
      show "(if unat dst + (o_in_page + 256) \<le> a \<and> a < unat dst + 4096 then m1 (unat src + (a - unat dst)) else m1 a)
          = (if unat dst + o_in_page \<le> a \<and> a < unat dst + 4096 then m (unat src + (a - unat dst)) else m a)"
      proof (cases "unat dst + (o_in_page + 256) \<le> a \<and> a < unat dst + 4096")
        case True
        then have "a - unat dst < 4096" by auto
        from src[OF this] True show ?thesis by auto
      next
        case False
        then show ?thesis using q unfolding m1 by auto
      qed
    qed
    finally show ?thesis using step by simp
  qed
qed

section \<open>Cloning\<close>

text \<open>
  \<open>child_of m qs m' child\<close>: the pages of \<open>child\<close> are the pages of \<open>qs\<close>, with the
  bytes that \<open>m\<close> holds for \<open>qs\<close> now held by \<open>m'\<close> for \<open>child\<close>.
\<close>

definition child_of :: "memory \<Rightarrow> (nat \<times> PageMapEntry) list \<Rightarrow> memory \<Rightarrow> (nat \<times> PageMapEntry) list \<Rightarrow> bool" where
  "child_of m qs m' child \<longleftrightarrow> dom (map_of child) = dom (map_of qs) \<and>
     (\<forall>k e f j. map_of qs k = Some e \<and> map_of child k = Some f \<and> j < 4096 \<longrightarrow>
        m' (unat (pm_paddr f) + j) = m (unat (pm_paddr e) + j))"

lemma byte_at_low:
  "pages_ok ps \<Longrightarrow> byte_at m ps i =
     (case map_of ps (page_key i) of None \<Rightarrow> 0 | Some e \<Rightarrow> m (unat (pm_paddr e) + i mod 4096))"
  using loc_low by (auto simp: byte_at_def split: option.splits)

lemma child_of_byte_at:
  assumes "child_of m qs m' child" "pages_ok qs" "pages_ok child"
  shows "byte_at m' child i = byte_at m qs i"
proof (cases "map_of qs (page_key i)")
  case None
  then have "map_of child (page_key i) = None" using assms(1) by (metis child_of_def domIff)
  with None show ?thesis by (simp add: byte_at_low assms)
next
  case (Some e)
  then obtain f where "map_of child (page_key i) = Some f"
    using assms(1) by (metis child_of_def domD domI)
  with Some assms show ?thesis by (simp add: byte_at_low child_of_def)
qed

lemma pages_ok_tail:
  assumes "pages_ok ((k, e) # ps)" "distinct (map fst ((k, e) # ps))"
  shows "pages_ok ps" "map_of ps k = None" "page_ok e"
    "frames ((k, e) # ps) = insert (pm_paddr e) (frames ps)"
proof -
  show none: "map_of ps k = None" using assms(2) by (simp add: map_of_eq_None_iff)
  have "\<And>k' e'. map_of ps k' = Some e' \<Longrightarrow> map_of ((k, e) # ps) k' = Some e'" using none by auto
  note ext = this
  have A: "\<And>k' e'. map_of ((k, e) # ps) k' = Some e' \<Longrightarrow> page_ok e'"
    and B: "\<And>k' k'' e' e''. map_of ((k, e) # ps) k' = Some e' \<Longrightarrow> map_of ((k, e) # ps) k'' = Some e'' \<Longrightarrow>
      pm_paddr e' = pm_paddr e'' \<Longrightarrow> k' = k''"
    using assms(1) unfolding pages_ok_def by blast+
  show "page_ok e" using A[of k e] by simp
  show "pages_ok ps" unfolding pages_ok_def using A[OF ext] B[OF ext ext] by blast
  show "frames ((k, e) # ps) = insert (pm_paddr e) (frames ps)"
    using none by (simp add: frames_ran ran_map_upd)
qed

text \<open>One step of the clone: the page it allocates, the bytes it copies, and what is left for the others.\<close>

lemma clone_page_step:
  assumes w: "world_inv w" "owned_pages (phys w) ((k, e) # qs)" "owned_pages (phys w) child"
    and d: "fst ` set ((k, e) # qs) \<inter> fst ` set child = {}" "frames ((k, e) # qs) \<inter> frames child = {}"
    and room: "Suc (length qs) \<le> user_free (phys w)"
  obtains st p where "pmm_alloc_user_page (phys w) = Return (st, Inr p)" "grows (phys w) st"
    "user_page (phys w) Free p" "user_page st Allocated p" "length qs \<le> user_free st"
    "owned_pages st qs" "owned_pages st (btree_insert k \<lparr>pm_paddr = p, pm_present = True, pm_writable = True\<rparr> child)"
    "fst ` set qs \<inter> fst ` set (btree_insert k \<lparr>pm_paddr = p, pm_present = True, pm_writable = True\<rparr> child) = {}"
    "frames qs \<inter> frames (btree_insert k \<lparr>pm_paddr = p, pm_present = True, pm_writable = True\<rparr> child) = {}"
    "\<And>j. j < 4096 \<Longrightarrow> copy_page (pm_paddr e) p 0 (memory w) (unat p + j) = memory w (unat (pm_paddr e) + j)"
    "\<And>x s j. x \<noteq> p \<Longrightarrow> user_page (phys w) s x \<Longrightarrow> j < 4096 \<Longrightarrow>
       copy_page (pm_paddr e) p 0 (memory w) (unat x + j) = memory w (unat x + j)"
proof -
  have inv: "pmm_inv (phys w)" "zone_low (phys w)" using w(1) by (simp_all add: world_inv_def)
  have own: "pages_ok ((k, e) # qs)" "distinct (map fst ((k, e) # qs))"
    "\<forall>p \<in> frames ((k, e) # qs). user_page (phys w) Allocated p" using w(2) by (simp_all add: owned_pages_def)
  note tail = pages_ok_tail[OF own(1,2)]
  from pmm_alloc_user_page_returns[OF inv(1)] room
  obtain st r where a: "pmm_alloc_user_page (phys w) = Return (st, r)" by fastforce
  from pmm_alloc_user_page_grows[OF inv a] obtain p where
    p: "r = Inr p" "grows (phys w) st" "user_page (phys w) Free p" "user_page st Allocated p"
      "user_free (phys w) = Suc (user_free st)" by blast
  let ?c = "btree_insert k \<lparr>pm_paddr = p, pm_present = True, pm_writable = True\<rparr> child"
  have ne: "pm_paddr e \<noteq> p" "p \<notin> frames qs" using own(3) tail(4) p(3) user_page_not_both by auto
  note copy = copy_page_correct[of "pm_paddr e" p 0 "memory w"]
  have mem: "copy_page (pm_paddr e) p 0 (memory w) =
      (\<lambda>a. if unat p \<le> a \<and> a < unat p + 4096 then memory w (unat (pm_paddr e) + (a - unat p)) else memory w a)"
    using copy ne(1) tail(3) zone_low_user_page[OF inv(2) p(3)] by (simp add: page_ok_def)
  have apart: "\<not> (unat p \<le> unat x + j \<and> unat x + j < unat p + 4096)" if "x \<noteq> p" "user_page (phys w) s x" "j < 4096" for x s j
  proof -
    have "unat x + j \<noteq> unat p + i" if "i < 4096" for i
      using aligned_frame_inj[of "unat x" "unat p" j i] zone_low_user_page[OF inv(2)] p(3)
        \<open>user_page (phys w) s x\<close> \<open>j < 4096\<close> that \<open>x \<noteq> p\<close> by (auto simp: word_unat_eq_iff)
    then show ?thesis by (metis add_less_cancel_left le_add_diff_inverse)
  qed
  have none: "map_of child k = None" using d(1) by (auto simp: map_of_eq_None_iff)
  have own1: "owned_pages st qs" "owned_pages st ?c"
    using owned_pages_insert[OF w(3) inv(2) p(2-4) none] owned_pages_grows[OF _ p(2), of qs] own tail
    by (auto simp: owned_pages_def)
  have keys: "fst ` set qs \<inter> fst ` set ?c = {}"
    using d(1) tail(2) by (auto simp: set_btree_insert_keys map_of_eq_None_iff)
  have frs: "frames qs \<inter> frames ?c = {}"
    using d(2) ne(2) tail(4) frames_add_fresh[OF none] by auto
  show ?thesis
    by (rule that[OF a[unfolded p(1)] p(2-4) _ own1 keys frs]) (use room p(5) mem apart in auto)
qed

lemma clone_pages_correct:
  assumes "world_inv w" "owned_pages (phys w) qs" "owned_pages (phys w) child"
    and "fst ` set qs \<inter> fst ` set child = {}" "frames qs \<inter> frames child = {}" "length qs \<le> user_free (phys w)"
  shows "\<exists>w' child'. clone_pages qs w child = Return (w', child', Inr ()) \<and> world_inv w' \<and>
     grows (phys w) (phys w') \<and> owned_pages (phys w') child' \<and>
     (\<forall>k. k \<notin> fst ` set qs \<longrightarrow> map_of child' k = map_of child k) \<and>
     (\<forall>k e. map_of qs k = Some e \<longrightarrow> (\<exists>f. map_of child' k = Some f \<and> user_page (phys w) Free (pm_paddr f) \<and>
        (\<forall>j < 4096. memory w' (unat (pm_paddr f) + j) = memory w (unat (pm_paddr e) + j)))) \<and>
     (\<forall>p j. user_page (phys w) Allocated p \<and> j < 4096 \<longrightarrow> memory w' (unat p + j) = memory w (unat p + j))"
  using assms
proof (induction qs arbitrary: w child)
  case Nil
  then show ?case by (simp add: world_inv_def grows_refl)
next
  case (Cons q qs)
  obtain k e where q: "q = (k, e)" by fastforce
  have own: "pages_ok ((k, e) # qs)" "distinct (map fst ((k, e) # qs))"
    "\<forall>p \<in> frames ((k, e) # qs). user_page (phys w) Allocated p"
    using Cons.prems(2) q by (simp_all add: owned_pages_def)
  note tail = pages_ok_tail[OF own(1,2)]
  obtain st p where a: "pmm_alloc_user_page (phys w) = Return (st, Inr p)" and
    p: "grows (phys w) st" "user_page (phys w) Free p" "user_page st Allocated p" and len: "length qs \<le> user_free st" and
    own1: "owned_pages st qs" "owned_pages st (btree_insert k \<lparr>pm_paddr = p, pm_present = True, pm_writable = True\<rparr> child)" and
    disj: "fst ` set qs \<inter> fst ` set (btree_insert k \<lparr>pm_paddr = p, pm_present = True, pm_writable = True\<rparr> child) = {}"
      "frames qs \<inter> frames (btree_insert k \<lparr>pm_paddr = p, pm_present = True, pm_writable = True\<rparr> child) = {}" and
    copied: "\<And>j. j < 4096 \<Longrightarrow> copy_page (pm_paddr e) p 0 (memory w) (unat p + j) = memory w (unat (pm_paddr e) + j)" and
    keep: "\<And>x s j. x \<noteq> p \<Longrightarrow> user_page (phys w) s x \<Longrightarrow> j < 4096 \<Longrightarrow>
       copy_page (pm_paddr e) p 0 (memory w) (unat x + j) = memory w (unat x + j)"
    by (rule clone_page_step[of w k e qs child]) (use Cons.prems q in auto)
  define f where "f = \<lparr>pm_paddr = p, pm_present = True, pm_writable = True\<rparr>"
  define w1 where "w1 = w\<lparr>phys := st, memory := copy_page (pm_paddr e) p 0 (memory w)\<rparr>"
  define c1 where "c1 = btree_insert k f child"
  have w1: "world_inv w1" "phys w1 = st" "memory w1 = copy_page (pm_paddr e) p 0 (memory w)"
    using p(1) by (simp_all add: world_inv_def w1_def grows_def)
  note c1 = own1(2)[folded f_def, folded c1_def] disj[folded f_def, folded c1_def]
  from Cons.IH[OF w1(1), unfolded w1(2), OF own1(1) c1 len] obtain w' c' where
    IH: "clone_pages qs w1 c1 = Return (w', c', Inr ())" "world_inv w'" "grows st (phys w')" "owned_pages (phys w') c'"
      "\<forall>k. k \<notin> fst ` set qs \<longrightarrow> map_of c' k = map_of c1 k"
      "\<forall>k e. map_of qs k = Some e \<longrightarrow> (\<exists>f. map_of c' k = Some f \<and> user_page st Free (pm_paddr f) \<and>
         (\<forall>j < 4096. memory w' (unat (pm_paddr f) + j) = memory w1 (unat (pm_paddr e) + j)))"
      "\<forall>x j. user_page st Allocated x \<and> j < 4096 \<longrightarrow> memory w' (unat x + j) = memory w1 (unat x + j)"
    by blast
  have pres: "pm_present e" using tail(3) by (simp add: page_ok_def)
  have run: "clone_pages (q # qs) w child = Return (w', c', Inr ())"
    using a IH(1) pres q by (simp add: w1_def c1_def f_def)
  have "map_of c' k' = map_of child k'" if "k' \<notin> fst ` set (q # qs)" for k'
    using IH(5) that q by (simp add: c1_def)
  moreover have "\<exists>f. map_of c' k' = Some f \<and> user_page (phys w) Free (pm_paddr f) \<and>
      (\<forall>j < 4096. memory w' (unat (pm_paddr f) + j) = memory w (unat (pm_paddr e') + j))"
    if e': "map_of (q # qs) k' = Some e'" for k' e'
  proof (cases "k' = k")
    case True
    then have "map_of c' k' = Some f" "e' = e"
      using IH(5) tail(2) q e' by (auto simp: c1_def map_of_eq_None_iff)
    moreover have "memory w' (unat p + j) = memory w (unat (pm_paddr e) + j)" if "j < 4096" for j
      using IH(7) p(3) that copied w1(3) by simp
    ultimately show ?thesis using p(2) by (auto simp: f_def)
  next
    case False
    then have qs: "map_of qs k' = Some e'" using e' q by simp
    with IH(6) obtain g where g: "map_of c' k' = Some g" "user_page st Free (pm_paddr g)"
      "\<forall>j < 4096. memory w' (unat (pm_paddr g) + j) = memory w1 (unat (pm_paddr e') + j)" by blast
    have "user_page (phys w) Allocated (pm_paddr e')" using own(3) tail(4) frames_Some[OF qs] by simp
    moreover from this have "pm_paddr e' \<noteq> p" using p(2) user_page_not_both by blast
    ultimately show ?thesis using g p(1) keep w1(3) by (auto simp: grows_def)
  qed
  moreover have "memory w' (unat x + j) = memory w (unat x + j)"
    if "user_page (phys w) Allocated x" "j < 4096" for x j
  proof -
    have "x \<noteq> p" using that(1) p(2) user_page_not_both by blast
    then show ?thesis using IH(7) keep that p(1) w1(3) by (auto simp: grows_def)
  qed
  ultimately show ?case using run IH(2,4) grows_trans[OF p(1) IH(3)] by blast
qed

section \<open>A concrete world\<close>

definition sample_vworld :: vworld where
  "sample_vworld = \<lparr>phys = pmm_boot True, memory = (\<lambda>a. 0xAA), next_vmo_id = 1\<rparr>"

definition sample_vmo :: Vmo where
  "sample_vmo = \<lparr>vmo_base = KernelObjectBase_new VmoT, vmo_id = 1, vmo_size = 8192, vmo_flags = 0,
     vmo_cache = CacheDefault, vmo_pages = [], vmo_parent = None\<rparr>"

lemma sample_vmo_created: "snd (Vmo_create sample_vworld 5000 0) = Inr sample_vmo"
  by (simp add: Vmo_create_def sample_vworld_def sample_vmo_def alloc_vmo_id_def)

lemma world_inv_sample: "world_inv sample_vworld"
proof -
  have "zone_low (pmm_boot True)"
    unfolding zone_low_def using boot_zone by (fastforce simp: zone_excludes_def pmm_flags)
  then show ?thesis by (simp add: world_inv_def sample_vworld_def pmm_boot_inv)
qed

lemma vmo_inv_sample: "vmo_inv sample_vworld sample_vmo"
  by (simp add: vmo_inv_def pages_ok_def frames_def sample_vmo_def)

lemma user_free_sample: "user_free (phys sample_vworld) = 24576"
  by (simp add: user_free_def sample_vworld_def boot_user_card)

lemma write_ready_sample: "write_ready sample_vworld sample_vmo 4094 [1, 2, 3]"
  by (simp add: write_ready_def world_inv_sample vmo_inv_sample user_free_sample write_len_def)
    (simp add: sample_vmo_def missing_keys.simps page_key_def chunk_len_def)

text \<open>The world and the object after the sample write, which commits both pages.\<close>

lemma sample_write:
  "\<exists>w u. Vmo_write sample_vworld sample_vmo 4094 [1, 2, 3] = Return (w, u, Inr 3) \<and> world_inv w \<and>
     vmo_inv w u \<and> vmo_size u = 8192 \<and> map_of (vmo_pages u) 0 \<noteq> None \<and>
     length (vmo_pages u) \<le> user_free (phys w) \<and> byte_at (memory w) (vmo_pages u) 4094 = 1 \<and>
     write_ready w sample_vmo 4094 [7, 8]"
proof -
  have n: "write_len sample_vmo 4094 [1, 2, 3] = 3" by (simp add: write_len_def sample_vmo_def)
  from Vmo_write_effect[OF write_ready_sample] n obtain w u where
    w: "Vmo_write sample_vworld sample_vmo 4094 [1, 2, 3] = Return (w, u, Inr 3)" "world_inv w" "vmo_inv w u"
      "vmo_size u = vmo_size sample_vmo"
      "\<forall>i < 3. map_of (vmo_pages u) (page_key (4094 + i)) \<noteq> None \<and>
              memory w (loc (vmo_pages u) (4094 + i)) = [1, 2, 3] ! i" by auto
  have ks: "missing_keys (vmo_pages sample_vmo) 4094 3 0 = [0, 4096]"
    by (simp add: sample_vmo_def missing_keys.simps page_key_def chunk_len_def)
  from Vmo_write_commits[OF write_ready_sample w(1)] n ks have
    c: "commit_pages [0, 4096] (phys sample_vworld) [] = Return (phys w, vmo_pages u, Inr ())"
    by (simp add: sample_vmo_def)
  have "user_free (phys w) = 24574"
    using commit_pages_takes[OF _ _ c] world_inv_sample user_free_sample by (simp add: world_inv_def)
  moreover have "length (vmo_pages u) = 2"
    using commit_pages_keys[OF c] w(3) distinct_card[of "map fst (vmo_pages u)"] by (simp add: vmo_inv_def)
  moreover have "vmo_inv w sample_vmo" by (simp add: vmo_inv_def pages_ok_def frames_def sample_vmo_def)
  moreover have "length (missing_keys (vmo_pages sample_vmo) 4094 (Suc (Suc 0)) 0) = 1"
    by (simp add: sample_vmo_def missing_keys.simps page_key_def chunk_len_def)
  moreover have "map_of (vmo_pages u) 0 \<noteq> None" "byte_at (memory w) (vmo_pages u) 4094 = 1"
    using w(5)[rule_format, of 0] by (simp_all add: page_key_def byte_at_def)
  ultimately show ?thesis using w
    by (intro exI[of _ w] exI[of _ u]) (simp add: write_ready_def write_len_def sample_vmo_def)
qed

section \<open>Properties\<close>

text \<open>
  Claim C10 (write then read): a write that starts inside the object and finds
  enough free pages returns the number of bytes that fit into the object.
  Reading at the same offset into a buffer at least that long returns the
  number of bytes that the buffer and the object allow, and the buffer begins
  with exactly the bytes written, page boundaries included.
\<close>

theorem vmo_write_read_roundtrip:
  assumes "write_ready w v offset data" "write_len v offset data \<le> length buf" "offset + length buf < 2 ^ 64"
  shows "\<exists>w' v' buf'. Vmo_write w v offset data = Return (w', v', Inr (write_len v offset data)) \<and>
     Vmo_read w' v' offset buf = Return (buf', Inr (min (length buf) (unat (vmo_size v) - offset))) \<and>
     length buf' = length buf \<and> take (write_len v offset data) buf' = take (write_len v offset data) data"
proof -
  let ?n = "write_len v offset data" and ?k = "min (length buf) (unat (vmo_size v) - offset)"
  from Vmo_write_effect[OF assms(1)] obtain w' v' where
    e: "Vmo_write w v offset data = Return (w', v', Inr ?n)" "vmo_inv w' v'" "vmo_size v' = vmo_size v"
      "\<forall>i < ?n. map_of (vmo_pages v') (page_key (offset + i)) \<noteq> None \<and>
              memory w' (loc (vmo_pages v') (offset + i)) = data ! i" by auto
  let ?buf = "map (\<lambda>i. byte_at (memory w') (vmo_pages v') (offset + i)) [0..<?k] @ drop ?k buf"
  have in_range: "offset < unat (vmo_size v')" using assms(1) e(3) by (simp add: write_ready_def)
  have n: "?n \<le> ?k" "?n \<le> length data" using assms(2) by (simp_all add: write_len_def)
  have "take ?n ?buf = take ?n data"
    using n e(4) by (intro nth_equalityI) (auto simp: byte_at_def nth_append)
  moreover have "Vmo_read w' v' offset buf = Return (?buf, Inr ?k)"
    using Vmo_read_bytes[OF e(2) in_range assms(3)] e(3) by simp
  ultimately show ?thesis using e(1) by (intro exI[of _ w'] exI[of _ v'] exI[of _ ?buf]) simp
qed

theorem vmo_write_read_roundtrip_witness:
  "\<exists>w' v' buf'. Vmo_write sample_vworld sample_vmo 4094 [1, 2, 3] = Return (w', v', Inr 3) \<and>
     Vmo_read w' v' 4094 [0, 0, 0, 0, 0] = Return (buf', Inr 5) \<and> take 3 buf' = [1, 2, 3]"
proof -
  have n: "write_len sample_vmo 4094 [1, 2, 3] = 3" by (simp add: write_len_def sample_vmo_def)
  have "min (length [0, 0, 0, 0, 0 :: u8]) (unat (vmo_size sample_vmo) - 4094) = 5" by (simp add: sample_vmo_def)
  with vmo_write_read_roundtrip[OF write_ready_sample, of "[0, 0, 0, 0, 0]"] n show ?thesis by auto
qed

text \<open>
  Reads see exactly the object: a read in bounds fills the buffer
  with the bytes of the object, zeros for pages never written, leaves the rest
  of the buffer alone and returns the number of bytes that the object and the
  buffer allow.
\<close>

lemma vmo_read_exact:
  assumes "vmo_inv w v" "offset < unat (vmo_size v)" "offset + length buf < 2 ^ 64"
  shows "let n = min (length buf) (unat (vmo_size v) - offset) in
     Vmo_read w v offset buf =
       Return (map (\<lambda>i. byte_at (memory w) (vmo_pages v) (offset + i)) [0..<n] @ drop n buf, Inr n)"
  using Vmo_read_bytes[OF assms] by (simp add: Let_def)

lemma vmo_read_exact_witness:
  "vmo_inv sample_vworld sample_vmo \<and> Vmo_read sample_vworld sample_vmo 8190 [7, 7, 7] = Return ([0, 0, 7], Inr 2)"
proof -
  have "[0..<2] = [0, Suc 0]" by (simp add: upt_rec)
  with vmo_read_exact[OF vmo_inv_sample, of 8190 "[7, 7, 7]"] vmo_inv_sample show ?thesis
    by (simp add: sample_vmo_def Let_def byte_at_def)
qed

text \<open>
  Claim C11 (isolation of objects): a write to one object changes no byte of
  any other object whose pages are disjoint from it, keeps the pages disjoint,
  and changes no byte of the written object outside the written range in pages
  that were already committed.
\<close>

theorem vmo_write_isolation:
  assumes "write_ready w v offset data" "Vmo_write w v offset data = Return (w', v', r)"
    and "vmo_inv w u" "frames (vmo_pages u) \<inter> frames (vmo_pages v) = {}"
  shows "vmo_inv w' u \<and> frames (vmo_pages u) \<inter> frames (vmo_pages v') = {} \<and>
     (\<forall>i. byte_at (memory w') (vmo_pages u) i = byte_at (memory w) (vmo_pages u) i) \<and>
     (\<forall>i. map_of (vmo_pages v) (page_key i) \<noteq> None \<and> \<not> (offset \<le> i \<and> i < offset + write_len v offset data) \<longrightarrow>
        byte_at (memory w') (vmo_pages v') i = byte_at (memory w) (vmo_pages v) i)"
  using Vmo_write_isolated[OF assms] Vmo_write_keeps[OF assms(1,2)] by blast

theorem vmo_write_isolation_witness:
  "\<exists>wA u w' v'. Vmo_write sample_vworld sample_vmo 4094 [1, 2, 3] = Return (wA, u, Inr 3) \<and>
     frames (vmo_pages u) \<noteq> {} \<and> vmo_inv wA u \<and>
     Vmo_write wA sample_vmo 4094 [7, 8] = Return (w', v', Inr 2) \<and>
     vmo_inv w' u \<and> frames (vmo_pages v') \<noteq> {} \<and> frames (vmo_pages u) \<inter> frames (vmo_pages v') = {} \<and>
     byte_at (memory w') (vmo_pages u) 4094 = 1 \<and> byte_at (memory w') (vmo_pages v') 4094 = 7"
proof -
  from sample_write obtain wA u where u: "Vmo_write sample_vworld sample_vmo 4094 [1, 2, 3] = Return (wA, u, Inr 3)"
    "write_ready wA sample_vmo 4094 [7, 8]" "vmo_inv wA u" "map_of (vmo_pages u) 0 \<noteq> None"
    "byte_at (memory wA) (vmo_pages u) 4094 = 1" by blast
  have n: "write_len sample_vmo 4094 [7, 8] = 2" by (simp add: write_len_def sample_vmo_def)
  from Vmo_write_effect[OF u(2)] n obtain w' v' where
    w: "Vmo_write wA sample_vmo 4094 [7, 8] = Return (w', v', Inr 2)"
       "\<forall>i < 2. map_of (vmo_pages v') (page_key (4094 + i)) \<noteq> None \<and>
                memory w' (loc (vmo_pages v') (4094 + i)) = [7, 8] ! i" by auto
  have v': "map_of (vmo_pages v') (page_key 4094) \<noteq> None" "memory w' (loc (vmo_pages v') 4094) = 7"
    using w(2)[rule_format, of 0] by simp_all
  have "frames (vmo_pages sample_vmo) = {}" by (simp add: frames_def sample_vmo_def)
  with vmo_write_isolation[OF u(2) w(1) u(3)] have
    "vmo_inv w' u" "frames (vmo_pages u) \<inter> frames (vmo_pages v') = {}"
    "byte_at (memory w') (vmo_pages u) 4094 = 1" using u(5) by auto
  moreover have "byte_at (memory w') (vmo_pages v') 4094 = 7" using v' by (simp add: byte_at_def)
  moreover have "frames (vmo_pages u) \<noteq> {}" "frames (vmo_pages v') \<noteq> {}"
    using u(4) v'(1) frames_Some by blast+
  ultimately show ?thesis using u(1,3) w(1)
    by (intro exI[of _ wA] exI[of _ u] exI[of _ w'] exI[of _ v']) simp
qed

text \<open>
  Claim C12 (a clone is an independent snapshot): cloning returns an object of
  the same size with the same bytes, backed by pages disjoint from the
  parent's, and leaves the parent unchanged.  The copy is made at once; the
  clone does not carry the copy-on-write flag.
\<close>

theorem vmo_clone_snapshot:
  assumes "world_inv w" "vmo_inv w v" "vmo_size v \<noteq> 0" "unat (vmo_size v) mod 4096 = 0"
    and "unat (vmo_size v) + 4096 < 2 ^ 64" "length (vmo_pages v) \<le> user_free (phys w)"
  shows "\<exists>w' c. Vmo_clone w v = Return (w', Inr c) \<and> vmo_inv w' v \<and> vmo_inv w' c \<and>
     vmo_size c = vmo_size v \<and> \<not> vmo_flags_is_cow (vmo_flags c) \<and>
     frames (vmo_pages c) \<inter> frames (vmo_pages v) = {} \<and>
     (\<forall>i. byte_at (memory w') (vmo_pages c) i = byte_at (memory w) (vmo_pages v) i \<and>
          byte_at (memory w') (vmo_pages v) i = byte_at (memory w) (vmo_pages v) i)"
proof -
  let ?ps = "vmo_pages v"
  have own: "owned_pages (phys w) ?ps" using assms(2) by (simp add: vmo_inv_owned)
  have "unat ((vmo_size v + 4096 - 1) div 4096 * 4096) = unat (vmo_size v)"
  proof -
    obtain q where q: "unat (vmo_size v) = 4096 * q" using assms(4) by auto
    have "unat (vmo_size v + 4096 - 1) = 4096 * q + 4095"
      using assms(5) q by (simp add: unat_word_ariths unat_sub word_le_nat_alt)
    then show ?thesis using assms(5) q by (simp add: unat_word_ariths unat_div)
  qed
  then have sz: "(vmo_size v + 4096 - 1) div 4096 * 4096 = vmo_size v" by (simp only: word_unat_eq_iff)
  define w1 where "w1 = fst (alloc_vmo_id w)"
  have w1: "phys w1 = phys w" "memory w1 = memory w" by (simp_all add: w1_def alloc_vmo_id_def)
  from assms(3) sz obtain c0 where c0: "Vmo_create w (vmo_size v) 0 = (w1, Inr c0)" "vmo_size c0 = vmo_size v" "vmo_flags c0 = 0"
    by (simp add: Vmo_create_def Let_def w1_def alloc_vmo_id_def)
  have "owned_pages (phys w1) []" "world_inv w1"
    using assms(1) by (simp_all add: owned_pages_def pages_ok_def frames_def world_inv_def w1)
  from clone_pages_correct[OF this(2) _ this(1), of ?ps] own assms(6) w1 obtain w' cs where
    c: "clone_pages ?ps w1 [] = Return (w', cs, Inr ())" "grows (phys w) (phys w')" "owned_pages (phys w') cs"
      "\<forall>k. k \<notin> fst ` set ?ps \<longrightarrow> map_of cs k = None"
      "\<forall>k e. map_of ?ps k = Some e \<longrightarrow> (\<exists>f. map_of cs k = Some f \<and> user_page (phys w) Free (pm_paddr f) \<and>
        (\<forall>j < 4096. memory w' (unat (pm_paddr f) + j) = memory w (unat (pm_paddr e) + j)))"
      "\<forall>p j. user_page (phys w) Allocated p \<and> j < 4096 \<longrightarrow> memory w' (unat p + j) = memory w (unat p + j)"
    by (auto simp: frames_def)
  have dom: "map_of cs k \<noteq> None \<longleftrightarrow> map_of ?ps k \<noteq> None" for k
    using c(4,5) by (metis map_of_eq_None_iff not_None_eq)
  have child: "child_of (memory w) ?ps (memory w') cs"
    unfolding child_of_def using c(5) dom by (auto simp: dom_def) fastforce
  have disj: "frames cs \<inter> frames ?ps = {}"
  proof -
    have "user_page (phys w) Free p" if p: "p \<in> frames cs" for p
    proof -
      obtain k f where f: "map_of cs k = Some f" "pm_paddr f = p" using p by (auto simp: frames_def)
      with dom[of k] obtain e where "map_of ?ps k = Some e" by auto
      with c(5) f show ?thesis by fastforce
    qed
    then show ?thesis using own user_page_not_both by (auto simp: owned_pages_def)
  qed
  have ok: "pages_ok ?ps" "pages_ok cs" using own c(3) by (simp_all add: owned_pages_def)
  have "byte_at (memory w') ?ps i = byte_at (memory w) ?ps i" for i
    using c(6) own frames_Some by (auto simp: byte_at_low ok owned_pages_def split: option.splits)
  moreover have "Vmo_clone w v = Return (w', Inr (c0\<lparr>vmo_pages := cs\<rparr>))"
    by (simp add: Vmo_clone_def c0 c(1))
  ultimately show ?thesis
    using child_of_byte_at[OF child ok] disj owned_pages_grows[OF own c(2)] c(3) c0
    by (intro exI[of _ w'] exI[of _ "c0\<lparr>vmo_pages := cs\<rparr>"]) (simp add: vmo_inv_owned vmo_flags_is_cow_def)
qed

theorem vmo_clone_snapshot_witness:
  "\<exists>wA u w' c. Vmo_write sample_vworld sample_vmo 4094 [1, 2, 3] = Return (wA, u, Inr 3) \<and>
     Vmo_clone wA u = Return (w', Inr c) \<and> vmo_size c = 8192 \<and>
     byte_at (memory w') (vmo_pages c) 4094 = 1 \<and> byte_at (memory w') (vmo_pages u) 4094 = 1 \<and>
     frames (vmo_pages c) \<inter> frames (vmo_pages u) = {}"
proof -
  from sample_write obtain wA u where u: "Vmo_write sample_vworld sample_vmo 4094 [1, 2, 3] = Return (wA, u, Inr 3)"
    "world_inv wA" "vmo_inv wA u" "vmo_size u = 8192" "length (vmo_pages u) \<le> user_free (phys wA)"
    "byte_at (memory wA) (vmo_pages u) 4094 = 1" by blast
  from vmo_clone_snapshot[OF u(2,3) _ _ _ u(5)] u(4) obtain w' c where
    "Vmo_clone wA u = Return (w', Inr c)" "vmo_size c = 8192" "frames (vmo_pages c) \<inter> frames (vmo_pages u) = {}"
    "\<forall>i. byte_at (memory w') (vmo_pages c) i = byte_at (memory wA) (vmo_pages u) i \<and>
         byte_at (memory w') (vmo_pages u) i = byte_at (memory wA) (vmo_pages u) i" by auto
  then show ?thesis using u(1,6)
    by (intro exI[of _ wA] exI[of _ u] exI[of _ w'] exI[of _ c]) simp
qed

text \<open>
  Claim C13 (fresh pages are not cleared): a one-byte write at the start of an
  object with no pages leaves the other 4095 bytes of the new page with what
  the physical page held before, although they read as zero before the write.
\<close>

theorem vmo_write_exposes_stale_memory:
  assumes "write_ready w v 0 [b]" "vmo_pages v = []"
  shows "\<exists>w' v' p. Vmo_write w v 0 [b] = Return (w', v', Inr 1) \<and> user_page (phys w) Free p \<and>
     (\<forall>i. 0 < i \<and> i < 4096 \<longrightarrow> byte_at (memory w) (vmo_pages v) i = 0 \<and>
        byte_at (memory w') (vmo_pages v') i = memory w (unat p + i))"
proof -
  have n: "write_len v 0 [b] = 1" using assms(1) by (auto simp: write_len_def write_ready_def)
  from Vmo_write_effect[OF assms(1)] n assms(2) obtain w' v' where
    e: "Vmo_write w v 0 [b] = Return (w', v', Inr 1)" "vmo_inv w' v'" "map_of (vmo_pages v') 0 \<noteq> None"
      "\<forall>a. a \<noteq> loc (vmo_pages v') 0 \<longrightarrow> memory w' a = memory w a"
      "\<forall>k e. map_of (vmo_pages v') k = Some e \<longrightarrow> user_page (phys w) Free (pm_paddr e)"
    by (auto simp: page_key_def)
  from e(3) obtain f where f: "map_of (vmo_pages v') 0 = Some f" by auto
  have ok: "pages_ok (vmo_pages v')" using e(2) by (simp add: vmo_inv_def)
  have l0: "loc (vmo_pages v') 0 = unat (pm_paddr f)" using loc_low[OF ok, of 0 f] f by (simp add: page_key_def)
  have "byte_at (memory w') (vmo_pages v') i = memory w (unat (pm_paddr f) + i)" if "0 < i" "i < 4096" for i
    using that f e(4) l0 by (simp add: byte_at_low[OF ok] page_key_def)
  then show ?thesis using e(1,5) f assms(2) by (intro exI[of _ w'] exI[of _ v'] exI[of _ "pm_paddr f"]) (auto simp: byte_at_def)
qed

theorem vmo_write_exposes_stale_memory_witness:
  "\<exists>w' v'. Vmo_write sample_vworld sample_vmo 0 [1] = Return (w', v', Inr 1) \<and>
     byte_at (memory sample_vworld) (vmo_pages sample_vmo) 9 = 0 \<and> byte_at (memory w') (vmo_pages v') 9 = 0xAA"
proof -
  have r: "write_ready sample_vworld sample_vmo 0 [1]"
    by (simp add: write_ready_def world_inv_sample vmo_inv_sample user_free_sample write_len_def)
      (simp add: sample_vmo_def missing_keys.simps page_key_def chunk_len_def)
  have p: "vmo_pages sample_vmo = []" by (simp add: sample_vmo_def)
  from vmo_write_exposes_stale_memory[OF r p] obtain w' v' q where
    "Vmo_write sample_vworld sample_vmo 0 [1] = Return (w', v', Inr 1)" "user_page (phys sample_vworld) Free q"
    "\<forall>i. 0 < i \<and> i < 4096 \<longrightarrow> byte_at (memory sample_vworld) (vmo_pages sample_vmo) i = 0 \<and>
        byte_at (memory w') (vmo_pages v') i = memory sample_vworld (unat q + i)"
    by (elim exE conjE) (rule that)
  moreover have "memory sample_vworld (unat q + 9) = 0xAA" by (simp add: sample_vworld_def)
  ultimately show ?thesis by (intro exI[of _ w'] exI[of _ v']) simp
qed

end
