(* ===== verification/Vmo_Fill.thy ===== *)
theory Vmo_Fill
  imports Vmo
begin

text \<open>
  Filling a virtual memory object from its start by consecutive writes, as the
  executable loader does: how many pages of the user zone the writes take, and
  that each write extends the filled prefix and leaves other objects alone.
\<close>

section \<open>The pages a write commits\<close>

lemma missing_keys_member:
  "k \<in> set (missing_keys ps offset n d) \<Longrightarrow> offset + n \<le> 2 ^ 64 \<Longrightarrow>
   map_of ps k = None \<and> (\<exists>i. d \<le> i \<and> i < n \<and> k = page_key (offset + i))"
proof (induction ps offset n d rule: missing_keys.induct)
  case (1 ps offset n d)
  have d: "d < n" using 1(2) by (subst (asm) missing_keys.simps) (simp split: if_splits)
  with 1(2,3) have "k = page_key (offset + d) \<and> map_of ps k = None \<or>
      k \<in> set (missing_keys ps offset n (d + chunk_len offset n d))"
    by (subst (asm) missing_keys.simps) (auto simp: Let_def split: if_splits)
  then show ?case
  proof
    assume "k \<in> set (missing_keys ps offset n (d + chunk_len offset n d))"
    with 1(1)[OF d _ 1(3)] show ?thesis by (meson add_leD1)
  qed (use d in auto)
qed

lemma missing_keys_disjoint: "offset + n \<le> 2 ^ 64 \<Longrightarrow> set (missing_keys ps offset n d) \<inter> fst ` set ps = {}"
  by (meson disjoint_iff missing_keys_member map_of_eq_None_iff)

lemma page_key_next_chunk:
  assumes "d < n" "d + chunk_len offset n d \<le> i" "i < n"
  shows "page_key (offset + d) < page_key (offset + i)"
proof -
  have c: "chunk_len offset n d = 4096 - (offset + d) mod 4096"
    using assms by (auto simp: chunk_len_def min_def split: if_splits)
  have "(offset + d) mod 4096 < 4096" by simp
  with c assms(2) have "(offset + d) div 4096 * 4096 + 4096 \<le> offset + i"
    using div_mult_mod_eq[of "offset + d" 4096] by linarith
  then have "(offset + d) div 4096 + 1 \<le> (offset + i) div 4096"
    by (simp add: less_eq_div_iff_mult_less_eq)
  then show ?thesis by (simp add: page_key_def)
qed

lemma missing_keys_distinct: "offset + n \<le> 2 ^ 64 \<Longrightarrow> distinct (missing_keys ps offset n d)"
proof (induction ps offset n d rule: missing_keys.induct)
  case (1 ps offset n d)
  show ?case
  proof (cases "d < n")
    case True
    have "page_key (offset + d) \<notin> set (missing_keys ps offset n (d + chunk_len offset n d))"
      using missing_keys_member[OF _ 1(2)] page_key_next_chunk[OF True] by (metis less_irrefl)
    with 1(1)[OF True 1(2)] 1(2) True show ?thesis by (subst missing_keys.simps) (auto simp: Let_def)
  qed (subst missing_keys.simps, simp)
qed

definition page_count :: "nat \<Rightarrow> nat" where
  "page_count sz = (sz + 4095) div 4096"

text \<open>The keys of a page map are page offsets inside the object.\<close>

definition page_slots :: "nat \<Rightarrow> nat set" where
  "page_slots sz = {k. k mod 4096 = 0 \<and> k < sz}"

definition keys_in :: "(nat \<times> PageMapEntry) list \<Rightarrow> nat \<Rightarrow> bool" where
  "keys_in ps sz \<longleftrightarrow> fst ` set ps \<subseteq> page_slots sz"

lemma page_slots_image: "page_slots sz \<subseteq> (\<lambda>j. j * 4096) ` {..<page_count sz}"
proof
  fix k assume "k \<in> page_slots sz"
  then have k: "k mod 4096 = 0" "k < sz" by (auto simp: page_slots_def)
  then have "k = k div 4096 * 4096" using div_mult_mod_eq[of k 4096] by linarith
  moreover have "Suc (k div 4096) * 4096 \<le> sz + 4095"
    using k(2) \<open>k = k div 4096 * 4096\<close> unfolding mult_Suc by linarith
  then have "Suc (k div 4096) \<le> page_count sz"
    unfolding page_count_def by (simp only: less_eq_div_iff_mult_less_eq zero_less_numeral)
  ultimately show "k \<in> (\<lambda>j. j * 4096) ` {..<page_count sz}" by (metis Suc_le_lessD imageI lessThan_iff)
qed

lemma page_slots_card: "finite (page_slots sz) \<and> card (page_slots sz) \<le> page_count sz"
  using page_slots_image[of sz] finite_subset card_mono[OF _ page_slots_image[of sz]]
    card_image_le[of "{..<page_count sz}" "\<lambda>j. j * 4096"] by fastforce

lemma unat_le_64: "unat (x :: u64) \<le> 2 ^ 64"
  using unsigned_less [of x, where ?'a = nat] by simp

lemma page_key_slot: "i < sz \<Longrightarrow> page_key i \<in> page_slots sz"
  using div_mult_mod_eq[of i 4096] by (simp add: page_slots_def page_key_def)

lemma missing_keys_room:
  assumes "keys_in ps sz" "distinct (map fst ps)" "offset + n \<le> sz" "sz \<le> 2 ^ 64"
  shows "set (missing_keys ps offset n 0) \<subseteq> page_slots sz"
    and "length (missing_keys ps offset n 0) + length ps \<le> page_count sz"
proof -
  let ?ks = "missing_keys ps offset n 0"
  have fits: "offset + n \<le> 2 ^ 64" using assms(3,4) by (rule order_trans)
  show sub: "set ?ks \<subseteq> page_slots sz"
  proof
    fix k assume "k \<in> set ?ks"
    then obtain i where "i < n" "k = page_key (offset + i)" using missing_keys_member fits by blast
    with assms(3) show "k \<in> page_slots sz" by (simp add: page_key_slot)
  qed
  have disj: "set ?ks \<inter> fst ` set ps = {}"
    by (rule missing_keys_disjoint[OF fits])
  have "length ?ks + length ps = card (set ?ks) + card (fst ` set ps)"
    using distinct_card[OF missing_keys_distinct[OF fits]] distinct_card[OF assms(2)] by simp
  also have "\<dots> = card (set ?ks \<union> fst ` set ps)" using disj by (simp add: card_Un_disjoint)
  also have "\<dots> \<le> card (page_slots sz)"
    using sub assms(1) page_slots_card[of sz] by (intro card_mono) (auto simp: keys_in_def)
  finally show "length ?ks + length ps \<le> page_count sz" using page_slots_card[of sz] by simp
qed

section \<open>Objects with room in the user zone\<close>

text \<open>There are free pages for every page of the object that is not committed.\<close>

definition roomy :: "vworld \<Rightarrow> Vmo \<Rightarrow> bool" where
  "roomy w v \<longleftrightarrow> world_inv w \<and> vmo_inv w v \<and> keys_in (vmo_pages v) (unat (vmo_size v)) \<and>
     page_count (unat (vmo_size v)) \<le> user_free (phys w) + length (vmo_pages v)"

lemma write_len_fits: "offset \<le> unat (vmo_size v) \<Longrightarrow> offset + write_len v offset data \<le> unat (vmo_size v)"
  by (simp add: write_len_def)

lemma roomy_write_ready:
  assumes "roomy w v" "offset < unat (vmo_size v)" "offset + length data < 2 ^ 64"
  shows "write_ready w v offset data"
  using assms missing_keys_room(2)[of "vmo_pages v" "unat (vmo_size v)" offset "write_len v offset data"]
    write_len_fits[of offset v data] unat_le_64[of "vmo_size v"]
  by (simp add: roomy_def write_ready_def vmo_inv_def)

lemma roomy_write:
  assumes "roomy w v" "offset < unat (vmo_size v)" "offset + length data < 2 ^ 64"
    and "Vmo_write w v offset data = Return (w', v', r)"
  shows "roomy w' v' \<and> user_free (phys w) + length (vmo_pages v) = user_free (phys w') + length (vmo_pages v')"
proof -
  let ?ks = "missing_keys (vmo_pages v) offset (write_len v offset data) 0" and ?sz = "unat (vmo_size v)"
  note ready = roomy_write_ready[OF assms(1-3)]
  have inv: "world_inv w" "distinct (map fst (vmo_pages v))" "keys_in (vmo_pages v) ?sz"
    using assms(1) by (simp_all add: roomy_def vmo_inv_def)
  have inv': "world_inv w'" "vmo_inv w' v'" using Vmo_write_effect[OF ready] assms(4) by auto
  from Vmo_write_commits[OF ready assms(4)] have
    c: "commit_pages ?ks (phys w) (vmo_pages v) = Return (phys w', vmo_pages v', Inr ())" "vmo_size v' = vmo_size v"
    by simp_all
  have free: "user_free (phys w) = user_free (phys w') + length ?ks"
    using commit_pages_takes[OF _ _ c(1)] inv(1) by (simp add: world_inv_def)
  note keys = commit_pages_keys[OF c(1)]
  have fits: "offset + write_len v offset data \<le> ?sz" using write_len_fits assms(2) by simp
  have sz64: "?sz \<le> 2 ^ 64" by (rule unat_le_64)
  note fits64 = order_trans[OF fits sz64]
  have disj: "fst ` set (vmo_pages v) \<inter> set ?ks = {}"
    using missing_keys_disjoint[OF fits64, of "vmo_pages v"] by (simp add: Int_commute)
  have "length (vmo_pages v') = card (fst ` set (vmo_pages v'))"
    using inv'(2) distinct_card[of "map fst (vmo_pages v')"] by (simp add: vmo_inv_def)
  also have "\<dots> = card (fst ` set (vmo_pages v)) + card (set ?ks)"
    using keys disj by (simp add: card_Un_disjoint)
  also have "\<dots> = length (vmo_pages v) + length ?ks"
    using distinct_card[OF inv(2)] distinct_card[OF missing_keys_distinct[OF fits64]] by simp
  finally have len: "length (vmo_pages v') = length (vmo_pages v) + length ?ks" .
  have "keys_in (vmo_pages v') ?sz"
    using inv(3) keys missing_keys_room(1)[OF inv(3,2) fits sz64] by (auto simp: keys_in_def)
  with inv' free len c(2) assms(1) show ?thesis by (simp add: roomy_def)
qed

section \<open>Filling an object from its start\<close>

text \<open>The first bytes of the object are \<open>bs\<close>, on committed pages.\<close>

definition filled :: "vworld \<Rightarrow> Vmo \<Rightarrow> u8 list \<Rightarrow> bool" where
  "filled w v bs \<longleftrightarrow> roomy w v \<and> length bs \<le> unat (vmo_size v) \<and>
     (\<forall>i < length bs. map_of (vmo_pages v) (page_key i) \<noteq> None \<and> byte_at (memory w) (vmo_pages v) i = bs ! i)"

text \<open>Every other object keeps its pages, its bytes and its separation from the object.\<close>

definition others_kept :: "vworld \<Rightarrow> Vmo \<Rightarrow> vworld \<Rightarrow> Vmo \<Rightarrow> bool" where
  "others_kept w v w' v' \<longleftrightarrow>
     (\<forall>u. vmo_inv w u \<and> frames (vmo_pages u) \<inter> frames (vmo_pages v) = {} \<longrightarrow>
        vmo_inv w' u \<and> frames (vmo_pages u) \<inter> frames (vmo_pages v') = {} \<and>
        (\<forall>i. byte_at (memory w') (vmo_pages u) i = byte_at (memory w) (vmo_pages u) i))"

lemma others_kept_refl: "others_kept w v w v"
  by (simp add: others_kept_def)

lemma others_kept_trans: "others_kept w v w1 v1 \<Longrightarrow> others_kept w1 v1 w2 v2 \<Longrightarrow> others_kept w v w2 v2"
  unfolding others_kept_def by metis

text \<open>Only memory of user pages has been written, and only free user pages have been taken.\<close>

definition user_only :: "vworld \<Rightarrow> vworld \<Rightarrow> bool" where
  "user_only w w' \<longleftrightarrow> grows (phys w) (phys w') \<and>
     (\<forall>a. (\<forall>q s. user_page (phys w') s q \<longrightarrow> \<not> (unat q \<le> a \<and> a < unat q + 4096)) \<longrightarrow> memory w' a = memory w a)"

lemma user_only_refl: "world_inv w \<Longrightarrow> user_only w w"
  by (simp add: user_only_def world_inv_def grows_refl)

lemma user_zone_flags:
  "(\<exists>s. user_page st s q) \<longleftrightarrow> (\<exists>fl. map_option snd (pmm_abs st q) = Some fl \<and> \<not> zone_excludes PMM_ALLOC_FLAG_USER fl)"
  by (auto simp: user_page_def)

lemma grows_user_zone: "grows st st' \<Longrightarrow> (\<exists>s. user_page st' s q) = (\<exists>s. user_page st s q)"
  unfolding user_zone_flags by (simp add: grows_def)

lemma user_only_trans:
  assumes "user_only w w1" "user_only w1 w2"
  shows "user_only w w2"
proof -
  have g: "grows (phys w) (phys w1)" "grows (phys w1) (phys w2)" using assms by (simp_all add: user_only_def)
  have "memory w2 a = memory w a"
    if a: "\<forall>q s. user_page (phys w2) s q \<longrightarrow> \<not> (unat q \<le> a \<and> a < unat q + 4096)" for a
  proof -
    have "\<forall>q s. user_page (phys w1) s q \<longrightarrow> \<not> (unat q \<le> a \<and> a < unat q + 4096)"
      using a grows_user_zone[OF g(2)] by blast
    with a assms show ?thesis by (simp add: user_only_def)
  qed
  with grows_trans[OF g] show ?thesis by (simp add: user_only_def)
qed

lemma Vmo_write_user_only:
  assumes "write_ready w v offset data" "Vmo_write w v offset data = Return (w', v', r)"
  shows "user_only w w'"
proof -
  let ?n = "write_len v offset data"
  from Vmo_write_effect[OF assms(1)] assms(2) have e: "grows (phys w) (phys w')" "vmo_inv w' v'"
    "\<forall>i < ?n. map_of (vmo_pages v') (page_key (offset + i)) \<noteq> None"
    "\<forall>a. (\<forall>i < ?n. a \<noteq> loc (vmo_pages v') (offset + i)) \<longrightarrow> memory w' a = memory w a" by auto
  have "memory w' a = memory w a"
    if a: "\<forall>q s. user_page (phys w') s q \<longrightarrow> \<not> (unat q \<le> a \<and> a < unat q + 4096)" for a
  proof -
    have "a \<noteq> loc (vmo_pages v') (offset + i)" if i: "i < ?n" for i
    proof -
      obtain x where x: "map_of (vmo_pages v') (page_key (offset + i)) = Some x" using e(3) i by auto
      have "user_page (phys w') Allocated (pm_paddr x)"
        using e(2) frames_Some[OF x] by (simp add: vmo_inv_def)
      moreover have "loc (vmo_pages v') (offset + i) = unat (pm_paddr x) + (offset + i) mod 4096"
        using loc_low[OF _ x] e(2) by (simp add: vmo_inv_def)
      ultimately show ?thesis using a by fastforce
    qed
    with e(4) show ?thesis by blast
  qed
  with e(1) show ?thesis by (simp add: user_only_def)
qed

text \<open>One more write at the end of the filled prefix.\<close>

definition fill_step :: "vworld \<Rightarrow> Vmo \<Rightarrow> vworld \<Rightarrow> Vmo \<Rightarrow> u8 list \<Rightarrow> bool" where
  "fill_step w v w' v' bs \<longleftrightarrow> filled w' v' bs \<and> vmo_size v' = vmo_size v \<and> others_kept w v w' v' \<and>
     user_only w w' \<and> user_free (phys w) + length (vmo_pages v) = user_free (phys w') + length (vmo_pages v')"

lemma fill_step_refl: "filled w v bs \<Longrightarrow> fill_step w v w v bs"
  by (simp add: fill_step_def others_kept_refl user_only_refl filled_def roomy_def)

lemma fill_step_trans: "fill_step w v w1 v1 bs \<Longrightarrow> fill_step w1 v1 w2 v2 cs \<Longrightarrow> fill_step w v w2 v2 cs"
  by (auto simp: fill_step_def intro: others_kept_trans user_only_trans)

lemma fill_write:
  assumes "filled w v bs" "length bs + length data \<le> unat (vmo_size v)" "length bs < unat (vmo_size v)"
  shows "\<exists>w' v'. Vmo_write w v (length bs) data = Return (w', v', Inr (length data)) \<and>
     fill_step w v w' v' (bs @ data)"
proof -
  have roomy: "roomy w v" using assms(1) by (simp add: filled_def)
  have bound: "length bs + length data < 2 ^ 64" using assms(2) unat_u64_bound[of "vmo_size v"] by linarith
  note ready = roomy_write_ready[OF roomy assms(3) bound]
  have n: "write_len v (length bs) data = length data" using assms(2) by (simp add: write_len_def)
  from Vmo_write_effect[OF ready] obtain w' v' where
    e: "Vmo_write w v (length bs) data = Return (w', v', Inr (length data))" "vmo_size v' = vmo_size v"
      "\<forall>i < length data. map_of (vmo_pages v') (page_key (length bs + i)) \<noteq> None \<and>
              memory w' (loc (vmo_pages v') (length bs + i)) = data ! i"
      "\<forall>k e. map_of (vmo_pages v) k = Some e \<longrightarrow> map_of (vmo_pages v') k = Some e" unfolding n by blast
  note r = roomy_write[OF roomy assms(3) bound e(1)]
  have "map_of (vmo_pages v') (page_key i) \<noteq> None \<and> byte_at (memory w') (vmo_pages v') i = (bs @ data) ! i"
    if i: "i < length (bs @ data)" for i
  proof (cases "i < length bs")
    case True
    then have old: "map_of (vmo_pages v) (page_key i) \<noteq> None" "byte_at (memory w) (vmo_pages v) i = bs ! i"
      using assms(1) by (simp_all add: filled_def)
    moreover have "byte_at (memory w') (vmo_pages v') i = byte_at (memory w) (vmo_pages v) i"
      by (rule Vmo_write_keeps[OF ready e(1) old(1)]) (use True in simp)
    ultimately show ?thesis using e(4) True by (auto simp: nth_append)
  next
    case False
    then obtain j where "i = length bs + j" "j < length data"
      using i by (metis add_less_cancel_left length_append nat_le_iff_add not_less)
    with e(3) show ?thesis by (auto simp: nth_append byte_at_def)
  qed
  moreover have "others_kept w v w' v'"
    unfolding others_kept_def using Vmo_write_isolated[OF ready e(1)] by blast
  ultimately show ?thesis using e(1,2) r assms(2) Vmo_write_user_only[OF ready e(1)]
    by (auto simp: fill_step_def filled_def)
qed

lemma Vmo_create_filled:
  assumes "world_inv w" "sz \<noteq> 0" "unat sz + 4095 < 2 ^ 64" "page_count (unat sz) \<le> user_free (phys w)"
  shows "\<exists>w' v. Vmo_create w sz fl = (w', Inr v) \<and> filled w' v [] \<and> vmo_pages v = [] \<and>
     unat (vmo_size v) = page_count (unat sz) * 4096 \<and> phys w' = phys w \<and> memory w' = memory w"
proof -
  have "sz + 4096 - 1 = sz + 4095" by simp
  moreover have "unat (sz + 4095) = unat sz + 4095" using assms(3) by (simp add: unat_word_ariths)
  ultimately have d: "unat ((sz + 4096 - 1) div 4096) = page_count (unat sz)"
    unfolding page_count_def by (simp only: unat_div) simp
  have b: "page_count (unat sz) * 4096 < 2 ^ 64"
    using assms(3) div_mult_mod_eq[of "unat sz + 4095" 4096] unfolding page_count_def by linarith
  then have "unat ((sz + 4096 - 1) div 4096 * 4096) = page_count (unat sz) * 4096"
    using d by (simp add: unat_word_ariths)
  moreover have "page_count (page_count (unat sz) * 4096) = page_count (unat sz)"
    by (simp add: page_count_def)
  ultimately show ?thesis using assms
    by (simp add: Vmo_create_def alloc_vmo_id_def Let_def filled_def roomy_def world_inv_def vmo_inv_def
        pages_ok_def frames_def keys_in_def)
qed

text \<open>A filled object reads back, from its start.\<close>

lemma filled_read:
  assumes "filled w v bs" "bs \<noteq> []" "length buf = length bs"
  shows "Vmo_read w v 0 buf = Return (bs, Inr (length bs))"
proof -
  have sz: "vmo_inv w v" "length bs \<le> unat (vmo_size v)" using assms by (auto simp: filled_def roomy_def)
  have pos: "0 < unat (vmo_size v)" using sz(2) assms(2) by (metis length_greater_0_conv order_less_le_trans)
  have "0 + length buf < 2 ^ 64" using sz(2) assms(3) unat_u64_bound[of "vmo_size v"] by linarith
  from Vmo_read_bytes[OF sz(1) pos this] show ?thesis using assms sz(2)
    by (auto simp: filled_def min_absorb1 intro: nth_equalityI)
qed

end
