(* ===== verification/Elf.thy ===== *)
theory Elf
  imports Bytes Vmo_Fill
begin

text \<open>
  The executable loader of \<open>exec/elf.rs\<close>: the file header, the program
  headers, the checks, and the loading of each segment into a virtual memory
  object.  The debug output to port \<open>0xE9\<close> has no effect on the state and is
  left out; where it indexes the list of segments, the index can panic and is
  kept.
\<close>

section \<open>File format\<close>

definition ELF_MAGIC :: "u8 list" where "ELF_MAGIC = [0x7F, 0x45, 0x4C, 0x46]"
definition ELFCLASS64 :: u8 where "ELFCLASS64 = 2"
definition ELFDATA2LSB :: u8 where "ELFDATA2LSB = 1"
definition EM_X86_64 :: u16 where "EM_X86_64 = 62"
definition ET_EXEC :: u16 where "ET_EXEC = 2"
definition PT_LOAD :: u32 where "PT_LOAD = 1"

record ElfHeader =
  e_ident :: "u8 list"
  e_type :: u16
  e_machine :: u16
  e_version :: u32
  e_entry :: u64
  e_phoff :: u64
  e_shoff :: u64
  e_flags :: u32
  e_ehsize :: u16
  e_phentsize :: u16
  e_phnum :: u16
  e_shentsize :: u16
  e_shnum :: u16
  e_shstrndx :: u16

record ProgramHeader =
  p_type :: u32
  p_flags :: u32
  p_offset :: u64
  p_vaddr :: u64
  p_paddr :: u64
  p_filesz :: u64
  p_memsz :: u64
  p_align :: u64

record LoadedSegment =
  seg_vaddr :: u64
  seg_size :: u64
  seg_vmo :: Vmo
  seg_flags :: u32

record LoadedElf =
  entry :: u64
  segments :: "LoadedSegment list"
  stack_addr :: u64
  stack_size :: u64

text \<open>\<open>from_le_bytes\<close> on \<open>n\<close> bytes at an index.\<close>

definition le_at :: "nat \<Rightarrow> u8 list \<Rightarrow> nat \<Rightarrow> 'a::len word" where
  "le_at n d i = of_nat (le_nat (take n (drop i d)))"

section \<open>Parsing\<close>

definition parse_elf_header :: "u8 list \<Rightarrow> ElfHeader result" where
  "parse_elf_header data =
     (if length data < 64 then Inl ''ELF file too small''
      else if take 4 data \<noteq> ELF_MAGIC then Inl ''Invalid ELF magic (not an ELF file)''
      else if data ! 4 \<noteq> ELFCLASS64 then Inl ''Not a 64-bit ELF (class must be 2)''
      else if data ! 5 \<noteq> ELFDATA2LSB then Inl ''Not little-endian (endianness must be 1)''
      else Inr \<lparr>e_ident = ELF_MAGIC @ take 5 (drop 4 data) @ replicate 7 0,
                e_type = le_at 2 data 16, e_machine = le_at 2 data 18, e_version = 1,
                e_entry = le_at 8 data 24, e_phoff = le_at 8 data 32, e_shoff = le_at 8 data 40,
                e_flags = 0, e_ehsize = 64, e_phentsize = le_at 2 data 54, e_phnum = le_at 2 data 56,
                e_shentsize = 0, e_shnum = 0, e_shstrndx = 0\<rparr>)"

definition program_header_at :: "u8 list \<Rightarrow> ProgramHeader" where
  "program_header_at ph_data =
     \<lparr>p_type = le_at 4 ph_data 0, p_flags = le_at 4 ph_data 4, p_offset = le_at 8 ph_data 8,
      p_vaddr = le_at 8 ph_data 16, p_paddr = le_at 8 ph_data 24, p_filesz = le_at 8 ph_data 32,
      p_memsz = le_at 8 ph_data 40, p_align = le_at 8 ph_data 48\<rparr>"

text \<open>
  The loop over the program headers, \<open>n\<close> of them left and \<open>i\<close> the index of
  the next.  The additions wrap at 64 bits; a slice whose end has wrapped
  below its start panics, and so does an entry shorter than 56 bytes.
\<close>

fun program_headers_from :: "u8 list \<Rightarrow> u64 \<Rightarrow> u16 \<Rightarrow> nat \<Rightarrow> nat \<Rightarrow> ProgramHeader list outcome" where
  "program_headers_from data phoff phentsize i 0 = Return []"
| "program_headers_from data phoff phentsize i (Suc n) =
     (let start = phoff + of_nat (i * unat phentsize);
          stop = start + of_nat (unat phentsize)
      in if unat stop > length data then Return []
         else if start > stop then Panic ''slice index starts after its end''
         else if phentsize < 56 then Panic ''index out of bounds''
         else outcome_bind (program_headers_from data phoff phentsize (i + 1) n) (\<lambda>hs.
                Return (program_header_at (take (unat phentsize) (drop (unat start) data)) # hs)))"

definition parse_program_headers :: "u8 list \<Rightarrow> u64 \<Rightarrow> u16 \<Rightarrow> u16 \<Rightarrow> ProgramHeader list outcome" where
  "parse_program_headers data phoff phentsize phnum =
     program_headers_from data phoff phentsize 0 (unat phnum)"

definition validate_elf_header :: "ElfHeader \<Rightarrow> unit result" where
  "validate_elf_header h =
     (if e_type h \<noteq> ET_EXEC then Inl ''Not an executable (wrong e_type)''
      else if e_machine h \<noteq> EM_X86_64 then Inl ''Not x86_64 (wrong e_machine)''
      else if e_phnum h = 0 then Inl ''No program headers''
      else if e_phoff h = 0 \<or> e_phentsize h < 56 then Inl ''Invalid program header table''
      else Inr ())"

definition is_elf_file :: "u8 list \<Rightarrow> bool" where
  "is_elf_file data \<longleftrightarrow> \<not> length data < 4 \<and> take 4 data = ELF_MAGIC"

section \<open>Loading\<close>

definition elf_flags_to_vmo_flags :: "u32 \<Rightarrow> u32" where
  "elf_flags_to_vmo_flags f = 0"

text \<open>The bytes of a segment in the file: the sum of offset and size wraps at 64 bits.\<close>

definition segment_data :: "u8 list \<Rightarrow> ProgramHeader \<Rightarrow> u8 list result outcome" where
  "segment_data elf_data ph =
     (let file_end = p_offset ph + p_filesz ph in
      if p_filesz ph > 0 \<and> unat file_end > length elf_data then Return (Inl ''Segment extends beyond file size'')
      else if p_filesz ph > 0 then
        if p_offset ph > file_end then Panic ''slice index starts after its end''
        else Return (Inr (take (unat file_end - unat (p_offset ph)) (drop (unat (p_offset ph)) elf_data)))
      else Return (Inr []))"

function zero_bss :: "vworld \<Rightarrow> Vmo \<Rightarrow> nat \<Rightarrow> nat \<Rightarrow> nat \<Rightarrow> (vworld \<times> Vmo \<times> unit result) outcome" where
  "zero_bss w v bss_offset bss_size bytes_written =
     (if bytes_written < bss_size then
        let chunk_size = min (bss_size - bytes_written) 256
        in outcome_bind (Vmo_write w v ((bss_offset + bytes_written) mod 2 ^ 64) (replicate chunk_size 0)) (\<lambda>(w1, v1, r).
             case r of
               Inl e \<Rightarrow> Return (w1, v1, Inl ''Failed to zero BSS'')
             | Inr _ \<Rightarrow> zero_bss w1 v1 bss_offset bss_size (bytes_written + chunk_size))
      else Return (w, v, Inr ()))"
  by pat_completeness auto
termination
  by (relation "measure (\<lambda>(w, v, bss_offset, bss_size, bytes_written). bss_size - bytes_written)") auto

declare zero_bss.simps [simp del]

definition write_segment :: "vworld \<Rightarrow> Vmo \<Rightarrow> ProgramHeader \<Rightarrow> u8 list \<Rightarrow> (vworld \<times> Vmo \<times> unit result) outcome" where
  "write_segment w v ph bs =
     outcome_bind
       (if p_filesz ph > 0 then
          outcome_bind (Vmo_write w v 0 bs) (\<lambda>(w1, v1, r). Return (w1, v1,
            (case r of Inl e \<Rightarrow> Inl ''Failed to write segment data to VMO'' | Inr _ \<Rightarrow> Inr ())))
        else Return (w, v, Inr ()))
       (\<lambda>(w1, v1, r).
          case r of
            Inl e \<Rightarrow> Return (w1, v1, Inl e)
          | Inr _ \<Rightarrow>
              if p_memsz ph > p_filesz ph
              then zero_bss w1 v1 (unat (p_filesz ph)) (unat (p_memsz ph - p_filesz ph)) 0
              else Return (w1, v1, Inr ()))"

text \<open>One round of the loading loop: no segment for a header of size zero.\<close>

definition mem_size :: "ProgramHeader \<Rightarrow> u64" where
  "mem_size ph = max (p_memsz ph) (p_filesz ph)"

definition load_segment :: "vworld \<Rightarrow> u8 list \<Rightarrow> ProgramHeader \<Rightarrow> (vworld \<times> LoadedSegment option result) outcome" where
  "load_segment w elf_data ph =
     outcome_bind (segment_data elf_data ph) (\<lambda>r.
       case r of
         Inl e \<Rightarrow> Return (w, Inl e)
       | Inr bs \<Rightarrow>
           if mem_size ph = 0 then Return (w, Inr None)
           else
             let aligned_size = and (mem_size ph + 0xFFF) (not 0xFFF) in
             case Vmo_create w aligned_size (elf_flags_to_vmo_flags (p_flags ph)) of
               (w1, Inl e) \<Rightarrow> Return (w1, Inl ''Failed to create VMO'')
             | (w1, Inr vmo) \<Rightarrow>
                 outcome_bind (write_segment w1 vmo ph bs) (\<lambda>(w2, v2, r2).
                   case r2 of
                     Inl e \<Rightarrow> Return (w2, Inl e)
                   | Inr _ \<Rightarrow> Return (w2, Inr (Some \<lparr>seg_vaddr = p_vaddr ph, seg_size = mem_size ph,
                                                    seg_vmo = v2, seg_flags = p_flags ph\<rparr>))))"

fun load_segments :: "vworld \<Rightarrow> u8 list \<Rightarrow> ProgramHeader list \<Rightarrow> (vworld \<times> LoadedSegment list result) outcome" where
  "load_segments w elf_data [] = Return (w, Inr [])"
| "load_segments w elf_data (ph # phs) =
     outcome_bind (load_segment w elf_data ph) (\<lambda>(w1, r).
       case r of
         Inl e \<Rightarrow> Return (w1, Inl e)
       | Inr s \<Rightarrow>
           outcome_bind (load_segments w1 elf_data phs) (\<lambda>(w2, r2).
             case r2 of
               Inl e \<Rightarrow> Return (w2, Inl e)
             | Inr ss \<Rightarrow> Return (w2, Inr (case s of None \<Rightarrow> ss | Some x \<Rightarrow> x # ss))))"

text \<open>At most 16 loadable segments are kept; the debug output reads \<open>segments[2]\<close>.\<close>

definition load_elf :: "vworld \<Rightarrow> u8 list \<Rightarrow> (vworld \<times> LoadedElf result) outcome" where
  "load_elf w elf_data =
     (case parse_elf_header elf_data of
        Inl e \<Rightarrow> Return (w, Inl e)
      | Inr header \<Rightarrow>
        (case validate_elf_header header of
           Inl e \<Rightarrow> Return (w, Inl e)
         | Inr _ \<Rightarrow>
             outcome_bind (parse_program_headers elf_data (e_phoff header) (e_phentsize header) (e_phnum header)) (\<lambda>hs.
               outcome_bind (load_segments w elf_data (take 16 (filter (\<lambda>ph. p_type ph = PT_LOAD) hs))) (\<lambda>(w1, r).
                 case r of
                   Inl e \<Rightarrow> Return (w1, Inl e)
                 | Inr segs \<Rightarrow>
                     if length segs \<le> 2 then Panic ''index out of bounds''
                     else Return (w1, Inr \<lparr>entry = e_entry header, segments = segs,
                                           stack_addr = 0x7FFFFFFFF000, stack_size = 4096\<rparr>)))))"

section \<open>Loading a segment\<close>

text \<open>The contents a segment should have: the bytes of the file, then zeros.\<close>

definition segment_image :: "u8 list \<Rightarrow> ProgramHeader \<Rightarrow> u8 list" where
  "segment_image d ph = take (unat (p_filesz ph)) (drop (unat (p_offset ph)) d)
     @ replicate (unat (p_memsz ph) - unat (p_filesz ph)) 0"

text \<open>A segment that lies in the file, with a size that can be rounded up to pages.\<close>

definition segment_fits :: "u8 list \<Rightarrow> ProgramHeader \<Rightarrow> bool" where
  "segment_fits d ph \<longleftrightarrow> length d < 2 ^ 64 \<and> unat (mem_size ph) + 8192 \<le> 2 ^ 64 \<and>
     (p_filesz ph = 0 \<or> unat (p_offset ph) + unat (p_filesz ph) \<le> length d)"

definition segment_pages :: "ProgramHeader \<Rightarrow> nat" where
  "segment_pages ph = page_count (unat (mem_size ph))"

lemma unat_mem_size: "unat (mem_size ph) = max (unat (p_memsz ph)) (unat (p_filesz ph))"
  by (auto simp: mem_size_def max_def word_le_nat_alt)

lemma segment_image_length: "segment_fits d ph \<Longrightarrow> length (segment_image d ph) = unat (mem_size ph)"
  by (auto simp: segment_fits_def segment_image_def unat_mem_size)

lemma segment_data_fits:
  assumes "segment_fits d ph"
  shows "segment_data d ph = Return (Inr (take (unat (p_filesz ph)) (drop (unat (p_offset ph)) d)))"
proof (cases "p_filesz ph = 0")
  case False
  then have le: "unat (p_offset ph) + unat (p_filesz ph) \<le> length d" "length d < 2 ^ 64"
    using assms by (simp_all add: segment_fits_def)
  then have "unat (p_offset ph + p_filesz ph) = unat (p_offset ph) + unat (p_filesz ph)"
    by (simp add: unat_word_ariths)
  with le False show ?thesis
    by (simp add: segment_data_def Let_def word_less_nat_alt word_gt_0)
qed (simp add: segment_data_def)

lemma zero_bss_fills:
  assumes "length bs + n \<le> unat (vmo_size v)" "wr \<le> n" "filled w v (bs @ replicate wr 0)"
  shows "\<exists>w' v'. zero_bss w v (length bs) n wr = Return (w', v', Inr ()) \<and>
     fill_step w v w' v' (bs @ replicate n 0)"
  using assms
proof (induction "n - wr" arbitrary: w v wr rule: less_induct)
  case less
  show ?case
  proof (cases "wr < n")
    case False
    with less.prems show ?thesis by (subst zero_bss.simps) (auto intro: fill_step_refl)
  next
    case True
    define c where "c = min (n - wr) 256"
    have c: "0 < c" "wr + c \<le> n" using True by (auto simp: c_def)
    let ?pre = "bs @ replicate wr 0"
    have "length ?pre + length (replicate c (0 :: u8)) \<le> unat (vmo_size v)" "length ?pre < unat (vmo_size v)"
      using less.prems(1) c by simp_all
    from fill_write[OF less.prems(3) this] obtain w1 v1 where
      s: "Vmo_write w v (length bs + wr) (replicate c 0) = Return (w1, v1, Inr c)"
        "fill_step w v w1 v1 (bs @ replicate (wr + c) 0)" by (auto simp: replicate_add)
    have "(length bs + wr) mod 2 ^ 64 = length bs + wr"
      using less.prems(1) True unat_u64_bound[of "vmo_size v"] by (intro mod_less) linarith
    with s(1) True have step: "zero_bss w v (length bs) n wr = zero_bss w1 v1 (length bs) n (wr + c)"
      by (subst zero_bss.simps) (simp add: Let_def c_def)
    have p1: "length bs + n \<le> unat (vmo_size v1)" "filled w1 v1 (bs @ replicate (wr + c) 0)"
      using s(2) less.prems(1) by (simp_all add: fill_step_def)
    have "n - (wr + c) < n - wr" using c True by simp
    from less.hyps[OF this p1(1) c(2) p1(2)] step s(2) show ?thesis
      by (auto intro: fill_step_trans)
  qed
qed

lemma write_segment_fills:
  assumes "segment_fits d ph" "filled w v []" "0 < unat (mem_size ph)" "unat (mem_size ph) \<le> unat (vmo_size v)"
  shows "\<exists>w' v'. write_segment w v ph (take (unat (p_filesz ph)) (drop (unat (p_offset ph)) d)) = Return (w', v', Inr ()) \<and>
     fill_step w v w' v' (segment_image d ph)"
proof -
  let ?bs = "take (unat (p_filesz ph)) (drop (unat (p_offset ph)) d)"
  let ?n = "unat (p_memsz ph) - unat (p_filesz ph)"
  have len: "length ?bs = unat (p_filesz ph)" using assms(1) by (auto simp: segment_fits_def)
  have sz: "unat (p_filesz ph) + ?n \<le> unat (vmo_size v)" "0 < unat (vmo_size v)"
    using assms(3,4) by (auto simp: unat_mem_size max_def split: if_splits)
  have "\<exists>w1 v1. fill_step w v w1 v1 ?bs \<and>
     (if p_filesz ph > 0 then outcome_bind (Vmo_write w v 0 ?bs) (\<lambda>(w1, v1, r). Return (w1, v1,
            (case r of Inl e \<Rightarrow> Inl ''Failed to write segment data to VMO'' | Inr _ \<Rightarrow> Inr ())))
        else Return (w, v, Inr ())) = Return (w1, v1, Inr () :: unit result)"
  proof (cases "p_filesz ph > 0")
    case True
    from fill_write[OF assms(2), of ?bs] len sz obtain w1 v1 where
      "Vmo_write w v 0 ?bs = Return (w1, v1, Inr (length ?bs))" "fill_step w v w1 v1 ?bs" by auto
    with True show ?thesis by auto
  next
    case False
    then have "p_filesz ph = 0" by (simp add: word_gt_0)
    with assms(2) show ?thesis by (auto intro: fill_step_refl)
  qed
  then obtain w1 v1 where first: "fill_step w v w1 v1 ?bs"
    "write_segment w v ph ?bs = (if p_memsz ph > p_filesz ph
       then zero_bss w1 v1 (unat (p_filesz ph)) (unat (p_memsz ph - p_filesz ph)) 0 else Return (w1, v1, Inr ()))"
    by (auto simp: write_segment_def)
  have image: "segment_image d ph = ?bs @ replicate ?n 0" by (simp add: segment_image_def)
  show ?thesis
  proof (cases "p_memsz ph > p_filesz ph")
    case True
    have "unat (p_memsz ph - p_filesz ph) = ?n" using True by (simp add: unat_sub word_less_nat_alt word_le_nat_alt)
    moreover have "length ?bs + ?n \<le> unat (vmo_size v1)" "filled w1 v1 (?bs @ replicate 0 0)"
      using first(1) sz len by (simp_all add: fill_step_def)
    ultimately show ?thesis
      using zero_bss_fills[of ?bs ?n v1 0 w1] first True len image by (auto intro: fill_step_trans)
  next
    case False
    then have "?n = 0" by (simp add: word_less_nat_alt)
    with False first image show ?thesis by auto
  qed
qed

section \<open>Loading all segments\<close>

lemma unat_aligned_size:
  assumes "segment_fits d ph"
  shows "unat (and (mem_size ph + 0xFFF) (not 0xFFF)) = segment_pages ph * 4096"
proof -
  have "unat (mem_size ph + 0xFFF) = unat (mem_size ph) + 4095"
    using assms by (simp add: segment_fits_def unat_word_ariths)
  then show ?thesis by (simp only: unat_page_align segment_pages_def page_count_def)
qed

lemma mem_size_pages: "unat (mem_size ph) \<le> segment_pages ph * 4096"
  using div_mult_mod_eq[of "unat (mem_size ph) + 4095" 4096]
    mod_less_divisor[of 4096 "unat (mem_size ph) + 4095"]
  unfolding segment_pages_def page_count_def by linarith

text \<open>What holds of a loaded segment in the world it has been loaded into.\<close>

definition segment_loaded :: "vworld \<Rightarrow> u8 list \<Rightarrow> ProgramHeader \<Rightarrow> LoadedSegment \<Rightarrow> bool" where
  "segment_loaded w d ph s \<longleftrightarrow> seg_vaddr s = p_vaddr ph \<and> seg_flags s = p_flags ph \<and> seg_size s = mem_size ph \<and>
     vmo_inv w (seg_vmo s) \<and> length (segment_image d ph) \<le> unat (vmo_size (seg_vmo s)) \<and>
     (\<forall>i < length (segment_image d ph). map_of (vmo_pages (seg_vmo s)) (page_key i) \<noteq> None \<and>
        byte_at (memory w) (vmo_pages (seg_vmo s)) i = segment_image d ph ! i)"

text \<open>All objects of the first world keep their bytes and are separate from a new page map.\<close>

definition world_kept :: "vworld \<Rightarrow> vworld \<Rightarrow> (nat \<times> PageMapEntry) list \<Rightarrow> bool" where
  "world_kept w w' ps \<longleftrightarrow> (\<forall>u. vmo_inv w u \<longrightarrow> vmo_inv w' u \<and> frames (vmo_pages u) \<inter> frames ps = {} \<and>
     (\<forall>i. byte_at (memory w') (vmo_pages u) i = byte_at (memory w) (vmo_pages u) i))"

lemma world_kept_loaded: "world_kept w w' ps \<Longrightarrow> segment_loaded w d ph s \<Longrightarrow> segment_loaded w' d ph s"
  by (auto simp: world_kept_def segment_loaded_def)

lemma load_segment_correct:
  assumes "world_inv w" "segment_fits d ph" "mem_size ph \<noteq> 0" "segment_pages ph \<le> user_free (phys w)"
  shows "\<exists>w' s. load_segment w d ph = Return (w', Inr (Some s)) \<and> world_inv w' \<and> segment_loaded w' d ph s \<and>
     world_kept w w' (vmo_pages (seg_vmo s)) \<and> user_only w w' \<and> user_free (phys w) \<le> user_free (phys w') + segment_pages ph"
proof -
  let ?al = "and (mem_size ph + 0xFFF) (not 0xFFF)" and ?k = "segment_pages ph"
  note al = unat_aligned_size[OF assms(2)]
  have pos: "0 < unat (mem_size ph)" using assms(3) by (simp add: word_unat_eq_iff)
  have lim: "unat ?al + 4095 < 2 ^ 64"
    using assms(2) div_mult_mod_eq[of "unat (mem_size ph) + 4095" 4096]
    unfolding al segment_pages_def page_count_def segment_fits_def by linarith
  have nz: "?al \<noteq> 0" using al mem_size_pages[of ph] pos by (auto simp: word_unat_eq_iff)
  have pc: "page_count (unat ?al) = ?k" unfolding al by (simp add: page_count_def)
  from Vmo_create_filled[OF assms(1) nz lim, of "elf_flags_to_vmo_flags (p_flags ph)"] pc assms(4)
  obtain w1 v where c: "Vmo_create w ?al (elf_flags_to_vmo_flags (p_flags ph)) = (w1, Inr v)" "filled w1 v []"
    "vmo_pages v = []" "unat (vmo_size v) = ?k * 4096" "phys w1 = phys w" "memory w1 = memory w" by auto
  from write_segment_fills[OF assms(2) c(2) pos] mem_size_pages[of ph] c(4) obtain w2 v2 where
    f: "write_segment w1 v ph (take (unat (p_filesz ph)) (drop (unat (p_offset ph)) d)) = Return (w2, v2, Inr ())"
      "fill_step w1 v w2 v2 (segment_image d ph)" by auto
  let ?s = "\<lparr>seg_vaddr = p_vaddr ph, seg_size = mem_size ph, seg_vmo = v2, seg_flags = p_flags ph\<rparr>"
  have "load_segment w d ph = Return (w2, Inr (Some ?s))"
    using segment_data_fits[OF assms(2)] assms(3) c(1) f(1) by (simp add: load_segment_def Let_def)
  moreover have "world_inv w2" "segment_loaded w2 d ph ?s"
    using f(2) by (auto simp: fill_step_def filled_def roomy_def segment_loaded_def)
  moreover have "world_kept w w2 (vmo_pages v2)"
    using f(2) c(3,5,6) by (auto simp: fill_step_def others_kept_def world_kept_def vmo_inv_def frames_def)
  moreover have "user_only w w2" using f(2) c(5,6) by (simp add: fill_step_def user_only_def)
  moreover have "user_free (phys w) \<le> user_free (phys w2) + ?k"
  proof -
    have "vmo_inv w2 v2" "keys_in (vmo_pages v2) (?k * 4096)"
      using f(2) c(4) by (auto simp: fill_step_def filled_def roomy_def)
    then have "length (vmo_pages v2) \<le> ?k"
      using missing_keys_room(2)[of "vmo_pages v2" "?k * 4096" 0 0] unat_le_64[of "vmo_size v"] c(4)
      by (simp add: vmo_inv_def page_count_def)
    with f(2) c(3,5) show ?thesis by (simp add: fill_step_def)
  qed
  ultimately show ?thesis by auto
qed

definition nonempty_segments :: "ProgramHeader list \<Rightarrow> ProgramHeader list" where
  "nonempty_segments phs = filter (\<lambda>ph. mem_size ph \<noteq> 0) phs"

fun separate :: "LoadedSegment list \<Rightarrow> bool" where
  "separate [] = True"
| "separate (s # ss) = ((\<forall>t \<in> set ss. frames (vmo_pages (seg_vmo s)) \<inter> frames (vmo_pages (seg_vmo t)) = {}) \<and> separate ss)"

lemma load_segments_correct:
  assumes "world_inv w" "\<forall>ph \<in> set phs. segment_fits d ph" "sum_list (map segment_pages phs) \<le> user_free (phys w)"
  shows "\<exists>w' ss. load_segments w d phs = Return (w', Inr ss) \<and> world_inv w' \<and>
     list_all2 (segment_loaded w' d) (nonempty_segments phs) ss \<and> separate ss \<and>
     world_kept w w' [] \<and> (\<forall>s \<in> set ss. world_kept w w' (vmo_pages (seg_vmo s))) \<and> user_only w w' \<and>
     user_free (phys w) \<le> user_free (phys w') + sum_list (map segment_pages phs)"
  using assms
proof (induction phs arbitrary: w)
  case Nil
  then show ?case by (simp add: nonempty_segments_def world_kept_def frames_def user_only_refl)
next
  case (Cons ph phs)
  show ?case
  proof (cases "mem_size ph = 0")
    case True
    then have "load_segment w d ph = Return (w, Inr None)"
      using segment_data_fits[of d ph] Cons.prems(2) by (simp add: load_segment_def)
    moreover from Cons.IH[OF Cons.prems(1)] Cons.prems(2,3) obtain w' ss where
      "load_segments w d phs = Return (w', Inr ss)" "world_inv w'"
      "list_all2 (segment_loaded w' d) (nonempty_segments phs) ss" "separate ss" "world_kept w w' []"
      "\<forall>s \<in> set ss. world_kept w w' (vmo_pages (seg_vmo s))" "user_only w w'"
      "user_free (phys w) \<le> user_free (phys w') + sum_list (map segment_pages phs)" by auto
    ultimately show ?thesis using True by (simp add: nonempty_segments_def)
  next
    case False
    from load_segment_correct[OF Cons.prems(1) _ False, of d] Cons.prems(2,3) obtain w1 s where
      s: "load_segment w d ph = Return (w1, Inr (Some s))" "world_inv w1" "segment_loaded w1 d ph s"
        "world_kept w w1 (vmo_pages (seg_vmo s))" "user_free (phys w) \<le> user_free (phys w1) + segment_pages ph" "user_only w w1"
      by auto
    from Cons.IH[OF s(2)] Cons.prems(2,3) s(5) obtain w' ss where
      r: "load_segments w1 d phs = Return (w', Inr ss)" "world_inv w'"
        "list_all2 (segment_loaded w' d) (nonempty_segments phs) ss" "separate ss" "world_kept w1 w' []"
        "\<forall>t \<in> set ss. world_kept w1 w' (vmo_pages (seg_vmo t))" "user_only w1 w'"
        "user_free (phys w1) \<le> user_free (phys w') + sum_list (map segment_pages phs)" by auto
    have inv: "vmo_inv w1 (seg_vmo s)" using s(3) by (simp add: segment_loaded_def)
    have "load_segments w d (ph # phs) = Return (w', Inr (s # ss))" using s(1) r(1) by simp
    moreover have "separate (s # ss)" using r(4,6) inv by (auto simp: world_kept_def)
    moreover have "segment_loaded w' d ph s" using world_kept_loaded[OF r(5) s(3)] .
    moreover have "world_kept w w' []" "\<forall>t \<in> set (s # ss). world_kept w w' (vmo_pages (seg_vmo t))"
      using s(4) r(5,6) by (auto simp: world_kept_def frames_def)
    moreover have "user_only w w'" by (rule user_only_trans[OF s(6) r(7)])
    ultimately show ?thesis using r(2,3,8) s(5) False by (auto simp: nonempty_segments_def)
  qed
qed

section \<open>Writing headers\<close>

definition elf_header_bytes :: "ElfHeader \<Rightarrow> u8 list" where
  "elf_header_bytes h = e_ident h @ nat_le 2 (unat (e_type h)) @ nat_le 2 (unat (e_machine h))
     @ nat_le 4 (unat (e_version h)) @ nat_le 8 (unat (e_entry h)) @ nat_le 8 (unat (e_phoff h))
     @ nat_le 8 (unat (e_shoff h)) @ nat_le 4 (unat (e_flags h)) @ nat_le 2 (unat (e_ehsize h))
     @ nat_le 2 (unat (e_phentsize h)) @ nat_le 2 (unat (e_phnum h)) @ nat_le 2 (unat (e_shentsize h))
     @ nat_le 2 (unat (e_shnum h)) @ nat_le 2 (unat (e_shstrndx h))"

definition program_header_bytes :: "ProgramHeader \<Rightarrow> u8 list" where
  "program_header_bytes ph = nat_le 4 (unat (p_type ph)) @ nat_le 4 (unat (p_flags ph))
     @ nat_le 8 (unat (p_offset ph)) @ nat_le 8 (unat (p_vaddr ph)) @ nat_le 8 (unat (p_paddr ph))
     @ nat_le 8 (unat (p_filesz ph)) @ nat_le 8 (unat (p_memsz ph)) @ nat_le 8 (unat (p_align ph))"

text \<open>
  A file: its header, a gap, the entries of the program header table, each a
  program header with padding behind it, and the rest.
\<close>

definition entry_bytes :: "ProgramHeader \<times> u8 list \<Rightarrow> u8 list" where
  "entry_bytes e = program_header_bytes (fst e) @ snd e"

definition elf_layout :: "ElfHeader \<Rightarrow> u8 list \<Rightarrow> (ProgramHeader \<times> u8 list) list \<Rightarrow> u8 list \<Rightarrow> u8 list" where
  "elf_layout h gap es rest = elf_header_bytes h @ gap @ concat (map entry_bytes es) @ rest"

definition ident_ok :: "ElfHeader \<Rightarrow> bool" where
  "ident_ok h \<longleftrightarrow> length (e_ident h) = 16 \<and> take 6 (e_ident h) = ELF_MAGIC @ [ELFCLASS64, ELFDATA2LSB]"

text \<open>The header describes the layout: where the table starts, the size of an entry and their number.\<close>

definition layout_ok :: "ElfHeader \<Rightarrow> u8 list \<Rightarrow> (ProgramHeader \<times> u8 list) list \<Rightarrow> bool" where
  "layout_ok h gap es \<longleftrightarrow> ident_ok h \<and> unat (e_phoff h) = 64 + length gap \<and> unat (e_phnum h) = length es \<and>
     (\<forall>e \<in> set es. length (entry_bytes e) = unat (e_phentsize h)) \<and>
     64 + length gap + unat (e_phentsize h) * length es < 2 ^ 64"

lemma of_nat_le_nat_le:
  "unat (x :: 'a::len word) < 256 ^ n \<Longrightarrow> (of_nat (le_nat (nat_le n (unat x))) :: 'a word) = x"
  by (simp add: le_nat_nat_le)

lemma unat_field_bounds:
  "unat (a :: u16) < 256 ^ 2" "unat (b :: u32) < 256 ^ 4" "unat (c :: u64) < 256 ^ 8"
  using unsigned_less[of a, where 'a=nat] unsigned_less[of b, where 'a=nat] unsigned_less[of c, where 'a=nat]
  by simp_all

lemmas field_roundtrip = unat_field_bounds[THEN of_nat_le_nat_le]

lemma program_header_roundtrip: "program_header_at (program_header_bytes ph @ rest) = ph"
  by (simp add: program_header_at_def program_header_bytes_def le_at_def field_roundtrip)

lemma length_program_header_bytes [simp]: "length (program_header_bytes ph) = 56"
  by (simp add: program_header_bytes_def)

lemma length_elf_header_bytes: "length (e_ident h) = 16 \<Longrightarrow> length (elf_header_bytes h) = 64"
  by (simp add: elf_header_bytes_def)

lemma unat_of_nat64: "n < 2 ^ 64 \<Longrightarrow> unat (of_nat n :: u64) = n"
  by (simp add: unat_of_nat)

lemma length_entries:
  "\<forall>e \<in> set es. length (entry_bytes e) = n \<Longrightarrow> length (concat (map entry_bytes es)) = n * length es"
  by (induction es) simp_all

lemma program_headers_roundtrip:
  assumes "length pre = unat phoff + i * unat phentsize" "length pre + unat phentsize * length es < 2 ^ 64"
    and "\<forall>e \<in> set es. length (entry_bytes e) = unat phentsize"
  shows "program_headers_from (pre @ concat (map entry_bytes es) @ rest) phoff phentsize i (length es) = Return (map fst es)"
  using assms
proof (induction es arbitrary: pre i)
  case (Cons e es)
  let ?n = "unat phentsize" and ?b = "entry_bytes e"
  let ?start = "phoff + of_nat (i * ?n)"
  have small: "length pre + ?n < 2 ^ 64" using Cons.prems(2) by simp
  have n: "length ?b = ?n" "56 \<le> ?n" using Cons.prems(3) by (auto simp: entry_bytes_def)
  have fits: "i * ?n < 2 ^ 64" "?n < 2 ^ 64" using Cons.prems(1) small by simp_all
  have start: "unat ?start = length pre"
    unfolding unat_word_ariths unat_of_nat64[OF fits(1)] using Cons.prems(1) small by simp
  then have stop: "unat (?start + of_nat ?n) = length pre + ?n"
    unfolding unat_word_ariths(1)[of ?start] unat_of_nat64[OF fits(2)] using small by simp
  have "program_headers_from ((pre @ ?b) @ concat (map entry_bytes es) @ rest) phoff phentsize (i + 1) (length es)
      = Return (map fst es)"
    using Cons.prems n(1) by (intro Cons.IH) (simp_all add: algebra_simps)
  moreover have "program_header_at (take ?n (?b @ concat (map entry_bytes es) @ rest)) = fst e"
    using program_header_roundtrip[of "fst e" "snd e"] n(1) by (simp add: entry_bytes_def)
  moreover have "\<not> phentsize < 56" using n(2) by (simp add: word_less_nat_alt)
  moreover have "\<not> ?start > ?start + of_nat ?n" using start stop by (simp add: word_less_nat_alt)
  moreover have "\<not> length pre + ?n > length (pre @ concat (map entry_bytes (e # es)) @ rest)" using n(1) by simp
  ultimately show ?case using start stop by (simp add: Let_def)
qed simp

lemma elf_header_roundtrip:
  assumes "ident_ok h"
  shows "parse_elf_header (elf_header_bytes h @ rest) = Inr (h\<lparr>e_ident := take 9 (e_ident h) @ replicate 7 0,
      e_version := 1, e_flags := 0, e_ehsize := 64, e_shentsize := 0, e_shnum := 0, e_shstrndx := 0\<rparr>)"
proof -
  have len: "length (e_ident h) = 16" using assms by (simp add: ident_ok_def)
  have six: "take 6 (e_ident h) = [0x7F, 0x45, 0x4C, 0x46, 2, 1]"
    using assms by (simp add: ident_ok_def ELF_MAGIC_def ELFCLASS64_def ELFDATA2LSB_def)
  have magic: "take 4 (e_ident h) = ELF_MAGIC"
    using arg_cong[OF six, of "take 4"] by (simp add: ELF_MAGIC_def)
  have "e_ident h ! 4 = take 6 (e_ident h) ! 4" "e_ident h ! 5 = take 6 (e_ident h) ! 5" by simp_all
  then have nths: "e_ident h ! 4 = 2" "e_ident h ! 5 = 1" unfolding six by simp_all
  have nine: "ELF_MAGIC @ take 5 (drop 4 (e_ident h)) = take 9 (e_ident h)"
    unfolding magic[symmetric] using take_add[of 4 5 "e_ident h"] by simp
  let ?d = "elf_header_bytes h @ rest"
  have pre: "take 4 ?d = ELF_MAGIC" "?d ! 4 = 2" "?d ! 5 = 1" "take 5 (drop 4 ?d) = take 5 (drop 4 (e_ident h))"
    using len magic nths by (simp_all add: elf_header_bytes_def nth_append)
  have flds: "le_at 2 ?d 16 = e_type h" "le_at 2 ?d 18 = e_machine h" "le_at 8 ?d 24 = e_entry h"
    "le_at 8 ?d 32 = e_phoff h" "le_at 8 ?d 40 = e_shoff h" "le_at 2 ?d 54 = e_phentsize h" "le_at 2 ?d 56 = e_phnum h"
    using len by (simp_all add: le_at_def elf_header_bytes_def field_roundtrip)
  have "\<not> length ?d < 64" using length_elf_header_bytes[OF len] by simp
  with pre nine show ?thesis
    by (simp add: parse_elf_header_def flds ELFCLASS64_def ELFDATA2LSB_def append_assoc[symmetric] del: append_assoc)
qed

section \<open>The loader\<close>

definition load_headers :: "ProgramHeader list \<Rightarrow> ProgramHeader list" where
  "load_headers phs = take 16 (filter (\<lambda>ph. p_type ph = PT_LOAD) phs)"

text \<open>The file parses, and its loadable segments lie in it and fit into the free pages.\<close>

definition loadable :: "vworld \<Rightarrow> u8 list \<Rightarrow> ElfHeader \<Rightarrow> ProgramHeader list \<Rightarrow> bool" where
  "loadable w d h phs \<longleftrightarrow> world_inv w \<and> parse_elf_header d = Inr h \<and> validate_elf_header h = Inr () \<and>
     parse_program_headers d (e_phoff h) (e_phentsize h) (e_phnum h) = Return phs \<and>
     (\<forall>ph \<in> set (load_headers phs). segment_fits d ph) \<and>
     sum_list (map segment_pages (load_headers phs)) \<le> user_free (phys w)"

lemma load_elf_loadable:
  assumes "loadable w d h phs" "load_segments w d (load_headers phs) = Return (w', Inr ss)"
  shows "load_elf w d = (if length ss \<le> 2 then Panic ''index out of bounds''
     else Return (w', Inr \<lparr>entry = e_entry h, segments = ss, stack_addr = 0x7FFFFFFFF000, stack_size = 4096\<rparr>))"
  using assms by (simp add: loadable_def load_elf_def load_headers_def)

lemma segment_loaded_read:
  assumes "segment_fits d ph" "mem_size ph \<noteq> 0" "segment_loaded w d ph s" "length buf = unat (mem_size ph)"
  shows "Vmo_read w (seg_vmo s) 0 buf = Return (segment_image d ph, Inr (unat (mem_size ph)))"
proof -
  note len = segment_image_length[OF assms(1)]
  have s: "vmo_inv w (seg_vmo s)" "unat (mem_size ph) \<le> unat (vmo_size (seg_vmo s))"
    "\<forall>i < unat (mem_size ph). byte_at (memory w) (vmo_pages (seg_vmo s)) i = segment_image d ph ! i"
    using assms(3) len by (simp_all add: segment_loaded_def)
  have pos: "0 < unat (vmo_size (seg_vmo s))" using s(2) assms(2) by (auto simp: word_unat_eq_iff)
  have "0 + length buf < 2 ^ 64" using assms(4) unat_u64_bound[of "mem_size ph"] by simp
  from Vmo_read_bytes[OF s(1) pos this] s(2,3) assms(4) len show ?thesis
    by (auto simp: min_absorb1 intro: nth_equalityI)
qed

text \<open>The object of a segment reads back as the segment's contents.\<close>

definition segment_reads :: "vworld \<Rightarrow> u8 list \<Rightarrow> ProgramHeader \<Rightarrow> LoadedSegment \<Rightarrow> bool" where
  "segment_reads w d ph s \<longleftrightarrow> seg_vaddr s = p_vaddr ph \<and> seg_flags s = p_flags ph \<and> seg_size s = mem_size ph \<and>
     Vmo_read w (seg_vmo s) 0 (replicate (unat (mem_size ph)) 0) = Return (segment_image d ph, Inr (unat (mem_size ph)))"

lemma segments_read:
  assumes "\<forall>ph \<in> set phs. segment_fits d ph" "list_all2 (segment_loaded w d) (nonempty_segments phs) ss"
  shows "list_all2 (segment_reads w d) (nonempty_segments phs) ss"
  using assms(2)
proof (rule list.rel_mono_strong)
  fix ph s assume "ph \<in> set (nonempty_segments phs)" "segment_loaded w d ph s"
  with assms(1) segment_loaded_read[of d ph w s "replicate (unat (mem_size ph)) 0"]
  show "segment_reads w d ph s" by (simp add: segment_reads_def segment_loaded_def nonempty_segments_def)
qed

section \<open>Sample executables\<close>

text \<open>Files with up to three segments, whose two bytes of data are at offset 232.\<close>

definition sample_header :: "nat \<Rightarrow> ElfHeader" where
  "sample_header n = \<lparr>e_ident = ELF_MAGIC @ [2, 1, 1] @ replicate 9 0, e_type = 2, e_machine = 62, e_version = 1,
     e_entry = 0x400000, e_phoff = 64, e_shoff = 0, e_flags = 0, e_ehsize = 64, e_phentsize = 56, e_phnum = of_nat n,
     e_shentsize = 0, e_shnum = 0, e_shstrndx = 0\<rparr>"

definition sample_segment :: "u64 \<Rightarrow> u64 \<Rightarrow> ProgramHeader" where
  "sample_segment va memsz = \<lparr>p_type = 1, p_flags = 5, p_offset = 232, p_vaddr = va, p_paddr = va,
     p_filesz = 2, p_memsz = memsz, p_align = 4096\<rparr>"

definition sample_elf :: "ProgramHeader list \<Rightarrow> u8 list" where
  "sample_elf phs = elf_layout (sample_header (length phs)) [] (map (\<lambda>ph. (ph, [])) phs)
     (replicate (56 * (3 - length phs)) 0 @ [7, 9])"

definition sample_segments :: "ProgramHeader list" where
  "sample_segments = [sample_segment 0x400000 2, sample_segment 0x500000 5000, sample_segment 0x600000 4]"

lemma sample_header_ok: "ident_ok (sample_header n)"
  by (simp add: ident_ok_def sample_header_def ELF_MAGIC_def ELFCLASS64_def ELFDATA2LSB_def)

lemma length_plain_entries: "length (concat (map entry_bytes (map (\<lambda>ph. (ph, [])) phs))) = 56 * length phs"
  by (rule trans[OF length_entries[of _ 56]]) (auto simp: entry_bytes_def)

lemma length_sample_header: "length (elf_header_bytes (sample_header n)) = 64"
  using sample_header_ok by (simp add: length_elf_header_bytes ident_ok_def)

lemma sample_elf_tail:
  assumes "length phs \<le> 3"
  shows "length (sample_elf phs) = 234" "drop 232 (sample_elf phs) = [7, 9]"
  using assms length_plain_entries[of phs] length_sample_header
  by (simp_all add: sample_elf_def elf_layout_def)

lemma sample_loadable:
  assumes "phs \<noteq> []" "length phs \<le> 3" "set phs \<subseteq> {sample_segment va m | va m. unat m \<le> 8192}"
  shows "loadable sample_vworld (sample_elf phs) (sample_header (length phs)) phs \<and>
    nonempty_segments (load_headers phs) = phs"
proof -
  let ?h = "sample_header (length phs)"
  have "program_headers_from (sample_elf phs) 64 56 0 (length phs) = Return phs"
    using program_headers_roundtrip[of "elf_header_bytes ?h" 64 0 56 "map (\<lambda>ph. (ph, [])) phs"] length_sample_header assms(2)
    by (simp add: sample_elf_def elf_layout_def entry_bytes_def comp_def)
  moreover have "parse_elf_header (sample_elf phs) = Inr ?h"
    unfolding sample_elf_def elf_layout_def
    by (subst elf_header_roundtrip[OF sample_header_ok]) (simp add: sample_header_def ELF_MAGIC_def flip: replicate_add)
  moreover have seg: "p_type ph = PT_LOAD \<and> mem_size ph \<noteq> 0 \<and> segment_fits (sample_elf phs) ph \<and> segment_pages ph \<le> 2"
    if "ph \<in> set phs" for ph
  proof -
    from assms(3) that obtain va m where ph: "ph = sample_segment va m" "unat m \<le> 8192" by blast
    have m: "unat (mem_size ph) = max (unat m) 2" using ph by (simp add: unat_mem_size sample_segment_def)
    then have "unat (mem_size ph) \<le> 8192" "mem_size ph \<noteq> 0" using ph(2) by auto
    then show ?thesis using ph(1)
      by (simp add: sample_segment_def PT_LOAD_def segment_fits_def sample_elf_tail[OF assms(2)]
          segment_pages_def page_count_def)
  qed
  moreover have "load_headers phs = phs"
    using seg assms(2) by (simp add: load_headers_def filter_id_conv)
  moreover have "sum_list (map segment_pages phs) \<le> 2 * length phs"
    using sum_list_mono[of phs segment_pages "\<lambda>_. 2"] seg by (simp add: sum_list_triv)
  moreover have "unat (of_nat (length phs) :: u16) = length phs" "length phs \<noteq> 0"
    using assms(1,2) by (simp_all add: unat_of_nat)
  then have "(of_nat (length phs) :: u16) \<noteq> 0" by (metis unat_0)
  ultimately show ?thesis
    using assms(2) \<open>unat (of_nat (length phs) :: u16) = length phs\<close>
    by (simp add: loadable_def world_inv_sample user_free_sample validate_elf_header_def filter_id_conv
        parse_program_headers_def sample_header_def ET_EXEC_def EM_X86_64_def nonempty_segments_def)
qed

lemma sample_segments_shape:
  "sample_segments \<noteq> []" "length sample_segments = 3"
  "set sample_segments \<subseteq> {sample_segment va m | va m. unat m \<le> 8192}"
proof -
  show "set sample_segments \<subseteq> {sample_segment va m | va m. unat m \<le> 8192}"
    by (force simp: sample_segments_def)
qed (simp_all add: sample_segments_def)

definition padded_header :: ElfHeader where
  "padded_header = (sample_header 3)\<lparr>e_phoff := 72, e_phentsize := 64\<rparr>"

section \<open>Properties\<close>

text \<open>
  Claim C29 (headers read back): take any 64-byte file header with the 64-bit
  little-endian identification, any gap behind it up to its program header
  offset, and as many program headers as it announces, each padded to its entry
  size, with anything behind them.  The file parses to that header: type,
  machine, entry point, the two table offsets, entry size, count and the first
  nine identification bytes are those of the file, and the six other fields
  and seven other identification bytes are constants.  The program headers
  parse to exactly those put there, in order.  The parsed header passes
  validation exactly if it is an x86-64 executable with some program header.
\<close>

theorem elf_parse_roundtrip:
  assumes "layout_ok h gap es"
  shows "\<exists>h'. parse_elf_header (elf_layout h gap es rest) = Inr h' \<and>
    h' = h\<lparr>e_ident := take 9 (e_ident h) @ replicate 7 0,
      e_version := 1, e_flags := 0, e_ehsize := 64, e_shentsize := 0, e_shnum := 0, e_shstrndx := 0\<rparr> \<and>
    parse_program_headers (elf_layout h gap es rest) (e_phoff h') (e_phentsize h') (e_phnum h') = Return (map fst es) \<and>
    (validate_elf_header h' = Inr () \<longleftrightarrow> e_type h = ET_EXEC \<and> e_machine h = EM_X86_64 \<and> es \<noteq> [])"
proof -
  let ?h = "h\<lparr>e_ident := take 9 (e_ident h) @ replicate 7 0,
      e_version := 1, e_flags := 0, e_ehsize := 64, e_shentsize := 0, e_shnum := 0, e_shstrndx := 0\<rparr>"
  have id: "ident_ok h" and h: "unat (e_phoff h) = 64 + length gap" "unat (e_phnum h) = length es"
    "\<forall>e \<in> set es. length (entry_bytes e) = unat (e_phentsize h)"
    "64 + length gap + unat (e_phentsize h) * length es < 2 ^ 64"
    using assms by (simp_all add: layout_ok_def)
  have len: "length (elf_header_bytes h) = 64" using id by (simp add: ident_ok_def length_elf_header_bytes)
  have "parse_program_headers (elf_layout h gap es rest) (e_phoff h) (e_phentsize h) (e_phnum h) = Return (map fst es)"
    using program_headers_roundtrip[of "elf_header_bytes h @ gap" "e_phoff h" 0 "e_phentsize h" es rest] h len
    by (simp add: parse_program_headers_def elf_layout_def)
  moreover have "parse_elf_header (elf_layout h gap es rest) = Inr ?h"
    unfolding elf_layout_def by (rule elf_header_roundtrip[OF id])
  moreover have "e_phoff h \<noteq> 0" "e_phnum h = 0 \<longleftrightarrow> es = []"
    using h(1,2) by (auto simp: word_unat_eq_iff)
  moreover have "es \<noteq> [] \<Longrightarrow> \<not> e_phentsize h < 56"
    using h(3) by (cases es) (auto simp: entry_bytes_def word_less_nat_alt)
  ultimately show ?thesis by (intro exI[of _ ?h]) (auto simp: validate_elf_header_def)
qed

text \<open>The witness has eight bytes between the file header and entries of 64 bytes.\<close>

theorem elf_parse_roundtrip_witness:
  "\<exists>h'. parse_elf_header (elf_layout padded_header (replicate 8 5)
        (map (\<lambda>ph. (ph, replicate 8 6)) sample_segments) [7, 9]) = Inr h' \<and>
     e_entry h' = 0x400000 \<and> e_phoff h' = 72 \<and> validate_elf_header h' = Inr () \<and>
     parse_program_headers (elf_layout padded_header (replicate 8 5)
        (map (\<lambda>ph. (ph, replicate 8 6)) sample_segments) [7, 9]) 72 64 3 = Return sample_segments"
proof -
  let ?es = "map (\<lambda>ph. (ph, replicate 8 (6 :: u8))) sample_segments"
  have "layout_ok padded_header (replicate 8 5) ?es"
    using sample_segments_shape(2)
    by (auto simp: layout_ok_def ident_ok_def padded_header_def sample_header_def entry_bytes_def
        ELF_MAGIC_def ELFCLASS64_def ELFDATA2LSB_def)
  from elf_parse_roundtrip[OF this, of "[7, 9]"] sample_segments_shape(1) show ?thesis
    by (auto simp: padded_header_def sample_header_def ET_EXEC_def EM_X86_64_def comp_def)
qed

text \<open>
  Claim C30 (segments are loaded): an executable whose loadable segments lie in
  the file and fit into the free user pages, with at least three of them not
  empty, loads; each of its first 16 loadable segments that is not empty gets
  an object of its own whose contents are the bytes of the file followed by
  zeros up to the size in memory, and every object that existed before keeps
  its bytes.
\<close>

theorem elf_load_correct:
  assumes "loadable w d h phs" "3 \<le> length (nonempty_segments (load_headers phs))"
  shows "\<exists>w' l. load_elf w d = Return (w', Inr l) \<and> entry l = e_entry h \<and> separate (segments l) \<and>
     list_all2 (segment_reads w' d) (nonempty_segments (load_headers phs)) (segments l) \<and>
     (\<forall>u i. vmo_inv w u \<longrightarrow> byte_at (memory w') (vmo_pages u) i = byte_at (memory w) (vmo_pages u) i)"
proof -
  have fits: "\<forall>ph \<in> set (load_headers phs). segment_fits d ph" using assms(1) by (simp add: loadable_def)
  from load_segments_correct[of w "load_headers phs" d] assms(1) obtain w' ss where
    r: "load_segments w d (load_headers phs) = Return (w', Inr ss)" "separate ss" "world_kept w w' []"
      "list_all2 (segment_loaded w' d) (nonempty_segments (load_headers phs)) ss"
    by (auto simp: loadable_def)
  have "\<not> length ss \<le> 2" using list_all2_lengthD[OF r(4)] assms(2) by simp
  with load_elf_loadable[OF assms(1) r(1)] r(2,3) segments_read[OF fits r(4)] show ?thesis
    by (auto simp: world_kept_def)
qed

theorem elf_load_correct_witness:
  "\<exists>w' l. load_elf sample_vworld (sample_elf sample_segments) = Return (w', Inr l) \<and> entry l = 0x400000 \<and>
     length (segments l) = 3 \<and>
     Vmo_read w' (seg_vmo (segments l ! 2)) 0 (replicate 4 0) = Return ([7, 9, 0, 0], Inr 4)"
proof -
  let ?d = "sample_elf sample_segments"
  have load: "loadable sample_vworld ?d (sample_header 3) sample_segments"
    "nonempty_segments (load_headers sample_segments) = sample_segments"
    using sample_loadable[of sample_segments] sample_segments_shape by simp_all
  from elf_load_correct[OF load(1)] load(2) sample_segments_shape obtain w' l where
    l: "load_elf sample_vworld ?d = Return (w', Inr l)" "entry l = 0x400000"
      "list_all2 (segment_reads w' ?d) sample_segments (segments l)"
    by (auto simp: sample_header_def)
  have two: "replicate 2 (0 :: u8) = [0, 0]" by (simp add: numeral_2_eq_2)
  have "segment_image ?d (sample_segment 0x600000 4) = [7, 9, 0, 0]"
    using sample_segments_shape(2)
    by (simp add: segment_image_def sample_segment_def sample_elf_tail two)
  moreover have "unat (mem_size (sample_segment 0x600000 4)) = 4" by (simp add: mem_size_def sample_segment_def)
  moreover have "segment_reads w' ?d (sample_segments ! 2) (segments l ! 2)"
    using list_all2_nthD[OF l(3), of 2] sample_segments_shape by simp
  ultimately show ?thesis
    using l list_all2_lengthD[OF l(3)] by (auto simp: sample_segments_def segment_reads_def)
qed

text \<open>
  Too few segments stop the kernel: an executable that would load,
  with fewer than three segments that are not empty, makes the loader panic
  instead of returning, because its debug output reads the third segment.
\<close>

lemma elf_few_segments_panic:
  assumes "loadable w d h phs" "length (nonempty_segments (load_headers phs)) < 3"
  shows "load_elf w d = Panic ''index out of bounds''"
proof -
  from load_segments_correct[of w "load_headers phs" d] assms(1) obtain w' ss where
    r: "load_segments w d (load_headers phs) = Return (w', Inr ss)"
      "list_all2 (segment_loaded w' d) (nonempty_segments (load_headers phs)) ss"
    by (auto simp: loadable_def)
  have "length ss \<le> 2" using list_all2_lengthD[OF r(2)] assms(2) by simp
  with load_elf_loadable[OF assms(1) r(1)] show ?thesis by simp
qed

lemma elf_few_segments_panic_witness:
  "load_elf sample_vworld (sample_elf [sample_segment 0x400000 2]) = Panic ''index out of bounds''"
proof -
  have "loadable sample_vworld (sample_elf [sample_segment 0x400000 2]) (sample_header 1) [sample_segment 0x400000 2]"
    "nonempty_segments (load_headers [sample_segment 0x400000 2]) = [sample_segment 0x400000 2]"
    using sample_loadable[of "[sample_segment 0x400000 2]"] by force+
  with elf_few_segments_panic show ?thesis by simp
qed

end
