(* ===== verification/Page_Tables.thy ===== *)
theory Page_Tables
  imports Bytes Vmo_Fill
begin

text \<open>
  Four-level page tables in memory: entries as 64-bit little-endian words, the
  table reached from a root along a path of indices, the effect of storing an
  entry and of linking a new table, and the translation of an address.  The
  address-space code of the kernel is verified against this view.  All pages
  have 4 KiB: a present entry above the last level refers to a table, and the
  large-page bit \<open>X86_MMU_PG_PS\<close> is not looked at, as the address-space code
  does not look at it.
\<close>

section \<open>Entries\<close>

text \<open>\<open>*table.add(i)\<close> for a pointer to 64-bit entries.\<close>

definition pt_addr :: "u64 \<Rightarrow> nat \<Rightarrow> nat" where
  "pt_addr t i = unat (t + of_nat (8 * i))"

definition pt_read :: "memory \<Rightarrow> u64 \<Rightarrow> nat \<Rightarrow> u64" where
  "pt_read m t i = of_nat (le_nat (mem_read m (pt_addr t i) 8))"

definition pt_write :: "memory \<Rightarrow> u64 \<Rightarrow> nat \<Rightarrow> u64 \<Rightarrow> memory" where
  "pt_write m t i v = mem_write m (pt_addr t i) (nat_le 8 (unat v))"

definition pte_frame :: "u64 \<Rightarrow> u64" where
  "pte_frame e = and e (not 0xFFF)"

definition pte_present :: "u64 \<Rightarrow> bool" where
  "pte_present e \<longleftrightarrow> and e 1 \<noteq> 0"

text \<open>Pages that the kernel reaches through the identity mapping.\<close>

definition low_page :: "u64 \<Rightarrow> bool" where
  "low_page t \<longleftrightarrow> unat t mod 4096 = 0 \<and> unat t < 0x80000000"

lemma unat_pte_frame: "unat (pte_frame e) = unat e div 4096 * 4096"
  unfolding pte_frame_def by (rule unat_page_align)

lemma pte_present_bit: "pte_present e \<longleftrightarrow> bit e 0"
  by (simp add: pte_present_def and_one_eq bit_0 odd_iff_mod_2_eq_one)

lemma low_page_vaddr: "low_page t \<Longrightarrow> paddr_to_vaddr t = t"
  by (simp add: low_page_def paddr_to_vaddr_def IDENTITY_MAP_LIMIT_def word_less_nat_alt)

lemma low_page_slot:
  assumes "low_page t" "i < 512"
  shows "pt_addr t i = unat t + 8 * i"
  using assms by (simp add: pt_addr_def low_page_def unat_word_ariths unat_of_nat)

lemma low_pages_apart:
  assumes "low_page t" "low_page t'" "t \<noteq> t'"
  shows "unat t + 4096 \<le> unat t' \<or> unat t' + 4096 \<le> unat t"
proof -
  have ne: "unat t \<noteq> unat t'" using assms(3) by (simp add: word_unat_eq_iff)
  obtain a b where "unat t = 4096 * a" "unat t' = 4096 * b"
    using assms(1,2) by (auto simp: low_page_def mod_eq_0_iff_dvd elim!: dvdE)
  with ne show ?thesis by auto
qed

lemma pt_read_write:
  assumes "low_page t" "low_page t'" "i < 512" "j < 512"
  shows "pt_read (pt_write m t i v) t' j = (if t = t' \<and> i = j then v else pt_read m t' j)"
proof (cases "t = t' \<and> i = j")
  case True
  have "le_nat (nat_le 8 (unat v)) = unat v"
    using unat_u64_bound[of v] by (simp add: le_nat_nat_le)
  with True show ?thesis by (simp add: pt_read_def pt_write_def mem_read_write_same)
next
  case False
  have "unat t + 8 * i + 8 \<le> unat t' + 8 * j \<or> unat t' + 8 * j + 8 \<le> unat t + 8 * i"
  proof (cases "t = t'")
    case True
    with False have "i < j \<or> j < i" by auto
    with True show ?thesis by auto
  qed (use low_pages_apart[OF assms(1,2)] assms(3,4) in auto)
  with assms have "pt_read (pt_write m t i v) t' j = pt_read m t' j"
    by (simp add: pt_read_def pt_write_def low_page_slot mem_read_write_other)
  with False show ?thesis by auto
qed

lemma pt_write_other:
  assumes "low_page t" "i < 512" "\<not> (unat t \<le> a \<and> a < unat t + 4096)"
  shows "pt_write m t i v a = m a"
  using assms by (auto simp: pt_write_def mem_write_def low_page_slot)

text \<open>Entries that link a table, and entries copied with the user bit added.\<close>

lemma pte_link:
  assumes "low_page f"
  shows "pte_frame (or f 7) = f \<and> pte_present (or f 7)"
proof -
  have low: "\<not> bit f n" if "n < 12" for n
  proof -
    have "unat f mod 2 ^ 12 = 0" using assms by (simp add: low_page_def)
    then have "take_bit 12 f = 0" by (simp add: take_bit_eq_mod word_unat_eq_iff unat_mod)
    then have "bit (take_bit 12 f) n = False" by simp
    with that show ?thesis by (simp add: bit_take_bit_iff)
  qed
  have m: "(0xFFF :: u64) = mask 12" "(7 :: u64) = mask 3" by (simp_all add: mask_eq_exp_minus_1)
  have "pte_frame (or f 7) = f"
    unfolding pte_frame_def m by (auto simp: bit_eq_iff bit_simps low)
  moreover have "pte_present (or f 7)"
    unfolding pte_present_bit m by (simp add: bit_simps)
  ultimately show ?thesis ..
qed

definition user_copy :: "u64 \<Rightarrow> u64" where
  "user_copy e = (if and e 1 \<noteq> 0 then or e 4 else 0)"

lemma pte_frame_or4: "pte_frame (or e 4) = pte_frame e"
proof -
  have "and 4 (not 0xFFF :: u64) = 0" by simp
  then show ?thesis unfolding pte_frame_def by (simp only: bit.conj_disj_distrib2 or.right_neutral)
qed

lemma pte_present_or4: "pte_present (or e 4) = pte_present e"
  by (simp add: pte_present_bit bit_or_iff)

lemma user_copy_entry:
  "pte_present (user_copy e) = pte_present e" "pte_present e \<Longrightarrow> pte_frame (user_copy e) = pte_frame e"
  by (auto simp: user_copy_def pte_frame_or4 pte_present_or4 simp flip: pte_present_def)
    (simp add: pte_present_def)

section \<open>Tables along a path\<close>

fun tab :: "memory \<Rightarrow> u64 \<Rightarrow> nat list \<Rightarrow> u64 option" where
  "tab m r [] = Some r"
| "tab m r (i # p) = (let e = pt_read m r i in if pte_present e then tab m (pte_frame e) p else None)"

definition path :: "nat list \<Rightarrow> bool" where
  "path p \<longleftrightarrow> length p \<le> 3 \<and> (\<forall>i \<in> set p. i < 512)"

text \<open>The tables of an address space: root, level 3, level 2 and level 1, by their paths.\<close>

definition tables :: "memory \<Rightarrow> u64 \<Rightarrow> nat list \<Rightarrow> u64 option" where
  "tables m r p = (if path p then tab m r p else None)"

lemma path_Nil [simp]: "path []"
  by (simp add: path_def)

lemma path_snoc: "path (p @ [i]) \<longleftrightarrow> path p \<and> length p < 3 \<and> i < 512"
  by (auto simp: path_def)

lemma path_append1: "path (p @ q) \<Longrightarrow> path p"
  by (simp add: path_def)

lemma tab_append: "tab m r (p @ q) = (case tab m r p of None \<Rightarrow> None | Some t \<Rightarrow> tab m t q)"
  by (induction p arbitrary: r) (simp_all add: Let_def)

lemma tab_snoc:
  "tab m r (p @ [i]) = (case tab m r p of None \<Rightarrow> None
     | Some t \<Rightarrow> if pte_present (pt_read m t i) then Some (pte_frame (pt_read m t i)) else None)"
  by (simp add: tab_append Let_def split: option.split)

lemma tables_root [simp]: "tables m r [] = Some r"
  by (simp add: tables_def)

lemma tables_snoc:
  assumes "path (p @ [i])"
  shows "tables m r (p @ [i]) = (case tables m r p of None \<Rightarrow> None
     | Some t \<Rightarrow> if pte_present (pt_read m t i) then Some (pte_frame (pt_read m t i)) else None)"
  using assms by (simp add: tables_def path_snoc tab_snoc)

lemma tables_Some_path: "tables m r p = Some t \<Longrightarrow> path p"
  by (simp add: tables_def split: if_splits)

lemma tables_prefix: "tables m r (p @ q) = Some t \<Longrightarrow> \<exists>s. tables m r p = Some s"
  by (auto simp: tables_def tab_append path_def split: if_splits option.splits)

text \<open>Tables are kept when the entries of all tables above the last level are kept.\<close>

lemma tables_cong:
  assumes "\<And>q t i. tables m r q = Some t \<Longrightarrow> length q < 3 \<Longrightarrow> i < 512 \<Longrightarrow> pt_read m' t i = pt_read m t i"
  shows "tables m' r p = tables m r p"
proof (induction p rule: rev_induct)
  case (snoc i p)
  show ?case
  proof (cases "path (p @ [i])")
    case True
    with snoc assms[of p _ i] show ?thesis
      by (auto simp: tables_snoc path_snoc split: option.split)
  qed (simp add: tables_def)
qed simp

definition no_sharing :: "(nat list \<Rightarrow> u64 option) \<Rightarrow> bool" where
  "no_sharing R \<longleftrightarrow> (\<forall>p q t. R p = Some t \<and> R q = Some t \<longrightarrow> p = q)"

text \<open>
  The effect of changing one entry of a table that is reached along one path
  only, all other entries of the address space being kept.
\<close>

lemma tables_update:
  assumes "no_sharing (tables m r)" "tables m r p = Some t" "path (p @ [i])"
    and keep: "\<And>q s j. tables m r q = Some s \<Longrightarrow> length q < 3 \<Longrightarrow> j < 512 \<Longrightarrow> (s, j) \<noteq> (t, i) \<Longrightarrow>
       pt_read m' s j = pt_read m s j"
  shows "\<not> (\<exists>q'. q = p @ i # q') \<Longrightarrow> tables m' r q = tables m r q"
proof (induction q rule: rev_induct)
  case (snoc j q)
  show ?case
  proof (cases "path (q @ [j])")
    case True
    have "\<not> (\<exists>q'. q = p @ i # q')" using snoc.prems by (metis append_Cons append_assoc)
    then have IH: "tables m' r q = tables m r q" by (rule snoc.IH)
    show ?thesis
    proof (cases "tables m r q")
      case (Some s)
      have "(s, j) \<noteq> (t, i)"
      proof
        assume "(s, j) = (t, i)"
        with Some assms(1,2) have "q = p" "j = i" unfolding no_sharing_def by auto
        with snoc.prems show False by simp
      qed
      with keep[OF Some] True IH Some show ?thesis by (simp add: tables_snoc path_snoc)
    qed (use True IH in \<open>simp add: tables_snoc\<close>)
  qed (simp add: tables_def)
qed simp

text \<open>
  Linking a fresh table \<open>f\<close> at an entry: the tables below it are the ones that
  were below the entry before, if the entries of \<open>f\<close> say so.
\<close>

lemma tables_link:
  assumes "no_sharing (tables m r)" "tables m r p = Some t" "path (p @ [i])"
    and keep: "\<And>q s j. tables m r q = Some s \<Longrightarrow> j < 512 \<Longrightarrow> (s, j) \<noteq> (t, i) \<Longrightarrow> pt_read m' s j = pt_read m s j"
    and link: "pte_present (pt_read m' t i)" "pte_frame (pt_read m' t i) = f"
    and below: "\<And>j. path (p @ [i, j]) \<Longrightarrow> tables m r (p @ [i, j]) =
       (if pte_present (pt_read m' f j) then Some (pte_frame (pt_read m' f j)) else None)"
  shows "tables m' r = (tables m r)(p @ [i] := Some f)"
proof
  fix q
  have other: "tables m' r q = tables m r q" if "\<not> (\<exists>q'. q = p @ i # q')" for q
    by (rule tables_update[OF assms(1-3) _ that]) (rule keep)
  have top: "tables m' r p = Some t" using other[of p] assms(2) by simp
  have f: "tables m' r (p @ [i]) = Some f" using top link assms(3) by (simp add: tables_snoc)
  have "tables m' r (p @ i # q') = (if q' = [] then Some f else tables m r (p @ i # q'))" for q'
  proof (induction q' rule: rev_induct)
    case Nil
    with f show ?case by simp
  next
    case (snoc j q')
    show ?case
    proof (cases "path (p @ i # q' @ [j])")
      case True
      then have pa: "path ((p @ i # q') @ [j])" by simp
      show ?thesis
      proof (cases "q' = []")
        case True
        with pa f below[of j] show ?thesis by (simp add: tables_snoc[of "p @ [i]" j, simplified])
      next
        case False
        have eq: "tables m' r (p @ i # q') = tables m r (p @ i # q')" using snoc False by simp
        show ?thesis
        proof (cases "tables m r (p @ i # q')")
          case (Some s)
          have "(s, j) \<noteq> (t, i)"
            using Some assms(1,2) unfolding no_sharing_def by (metis append_self_conv list.distinct(1) prod.inject)
          with keep[OF Some] pa eq Some False show ?thesis
            by (simp add: tables_snoc[OF pa, simplified] path_snoc[of "p @ i # q'" j, simplified])
        qed (use pa eq in \<open>simp add: tables_snoc[OF pa, simplified]\<close>)
      qed
    qed (simp add: tables_def)
  qed
  then show "tables m' r q = ((tables m r)(p @ [i] := Some f)) q"
    using other[of q] by (cases "\<exists>q'. q = p @ i # q'") (auto split: if_splits)
qed

end
