(* ===== verification/Address_Space.thy ===== *)
theory Address_Space
  imports Page_Tables
begin

text \<open>
  The address spaces of \<open>process/address_space.rs\<close>: creation of a space from
  the active page tables, mapping of pages with private copies of the upper
  levels, and mapping of virtual memory objects.  The control register that
  holds the active root table is a component of the state.
\<close>

section \<open>Model\<close>

definition pml4_index :: "u64 \<Rightarrow> nat" where "pml4_index vaddr = unat (and (drop_bit 39 vaddr) 0x1FF)"
definition pdp_index :: "u64 \<Rightarrow> nat" where "pdp_index vaddr = unat (and (drop_bit 30 vaddr) 0x1FF)"
definition pd_index :: "u64 \<Rightarrow> nat" where "pd_index vaddr = unat (and (drop_bit 21 vaddr) 0x1FF)"
definition pt_index :: "u64 \<Rightarrow> nat" where "pt_index vaddr = unat (and (drop_bit 12 vaddr) 0x1FF)"

datatype PageTableRole = Independent | Restricted | Shared | Unified

record X86PageTableBase =
  ptb_phys :: u64
  ptb_virt :: u64
  ptb_pages :: nat
  ptb_role :: PageTableRole
  ptb_num_references :: u32

record VmoMapping =
  vm_vmo :: Vmo
  vm_vaddr :: u64
  vm_size :: u64
  vm_flags :: u32

record AddressSpace =
  as_id :: u64
  as_page_table :: X86PageTableBase
  as_mappings :: "(u64 \<times> VmoMapping) list"
  as_ref_count :: u64

record aworld =
  vw :: vworld
  cr3 :: u64
  next_as_id :: u64

definition set_memory :: "aworld \<Rightarrow> memory \<Rightarrow> aworld" where
  "set_memory w m = w\<lparr>vw := (vw w)\<lparr>memory := m\<rparr>\<rparr>"

definition set_phys :: "aworld \<Rightarrow> pmm \<Rightarrow> aworld" where
  "set_phys w st = w\<lparr>vw := (vw w)\<lparr>phys := st\<rparr>\<rparr>"

definition alloc_as_id :: "aworld \<Rightarrow> aworld \<times> u64" where
  "alloc_as_id w = (w\<lparr>next_as_id := next_as_id w + 1\<rparr>, next_as_id w)"

definition copy_entries :: "nat list \<Rightarrow> u64 \<Rightarrow> u64 \<Rightarrow> memory \<Rightarrow> memory" where
  "copy_entries is src dst m = fold (\<lambda>i m. pt_write m dst i (pt_read m src i)) is m"

definition AddressSpace_new :: "aworld \<Rightarrow> (aworld \<times> AddressSpace result) outcome" where
  "AddressSpace_new w =
     outcome_bind (pmm_alloc_kernel_page (phys (vw w))) (\<lambda>(st, r).
       case r of
         Inl e \<Rightarrow> Return (set_phys w st, Inl ''Failed to allocate PML4 page'')
       | Inr pml4_paddr \<Rightarrow>
           let pml4_vaddr = paddr_to_vaddr pml4_paddr;
               m0 = mem_write (memory (vw w)) (unat pml4_vaddr) (replicate 4096 0);
               kernel_pml4_paddr = and (cr3 w) (not 0xFFF);
               kernel_pml4_vaddr = paddr_to_vaddr kernel_pml4_paddr;
               m1 = copy_entries [0..<256] kernel_pml4_vaddr pml4_vaddr m0;
               m2 = copy_entries [256..<512] kernel_pml4_vaddr pml4_vaddr m1;
               (w', i) = alloc_as_id (set_memory (set_phys w st) m2)
           in Return (w', Inr \<lparr>as_id = i,
                as_page_table = \<lparr>ptb_phys = pml4_paddr, ptb_virt = pml4_vaddr, ptb_pages = 1,
                                 ptb_role = Independent, ptb_num_references = 0\<rparr>,
                as_mappings = [], as_ref_count = 1\<rparr>))"

definition table_from_entry :: "u64 \<Rightarrow> u64" where
  "table_from_entry entry = (let paddr = and entry (not 0xFFF) in paddr_to_vaddr paddr)"

definition alloc_page_table :: "aworld \<Rightarrow> (aworld \<times> u64) outcome" where
  "alloc_page_table w =
     outcome_bind (pmm_alloc_kernel_page (phys (vw w))) (\<lambda>(st, r).
       Return (set_phys w st, (case r of Inr p \<Rightarrow> p | Inl _ \<Rightarrow> 0)))"

definition copy_user_entries :: "u64 \<Rightarrow> u64 \<Rightarrow> memory \<Rightarrow> memory" where
  "copy_user_entries src dst m = fold (\<lambda>i m. pt_write m dst i (user_copy (pt_read m src i))) [0..<512] m"

definition zero_entries :: "u64 \<Rightarrow> memory \<Rightarrow> memory" where
  "zero_entries dst m = fold (\<lambda>i m. pt_write m dst i 0) [0..<512] m"

text \<open>
  The blocks for the first and for the second level have the same shape: the
  entry is compared with the entry of the active tables at the same place.
\<close>

definition private_table :: "aworld \<Rightarrow> u64 \<Rightarrow> nat \<Rightarrow> u64 \<Rightarrow> (aworld \<times> unit result) outcome" where
  "private_table w parent idx kernel_entry =
     (let process_entry = pt_read (memory (vw w)) parent idx;
          is_kernel_entry = (and kernel_entry (not 0xFFF) = and process_entry (not 0xFFF) \<and> and kernel_entry 1 \<noteq> 0)
      in if is_kernel_entry then
           outcome_bind (alloc_page_table w) (\<lambda>(w1, new).
             if new = 0 then Return (w1, Inl ''Failed to allocate page table'')
             else let m1 = copy_user_entries (table_from_entry kernel_entry) (table_from_entry new) (memory (vw w1))
                  in Return (set_memory w1 (pt_write m1 parent idx (or new 7)), Inr ()))
         else if and process_entry 1 = 0 then
           outcome_bind (alloc_page_table w) (\<lambda>(w1, new).
             if new = 0 then Return (w1, Inl ''Failed to allocate page table'')
             else let m1 = (if and kernel_entry 1 \<noteq> 0
                            then copy_user_entries (table_from_entry kernel_entry) (table_from_entry new) (memory (vw w1))
                            else zero_entries (table_from_entry new) (memory (vw w1)))
                  in Return (set_memory w1 (pt_write m1 parent idx (or new 7)), Inr ()))
         else Return (w, Inr ()))"

definition last_table :: "aworld \<Rightarrow> u64 \<Rightarrow> nat \<Rightarrow> (aworld \<times> unit result) outcome" where
  "last_table w pd pd_idx =
     (if and (pt_read (memory (vw w)) pd pd_idx) 1 = 0 then
        outcome_bind (alloc_page_table w) (\<lambda>(w1, new_pt).
          if new_pt = 0 then Return (w1, Inl ''Failed to allocate page table'')
          else let m1 = zero_entries (table_from_entry new_pt) (memory (vw w1))
               in Return (set_memory w1 (pt_write m1 pd pd_idx (or new_pt 7)), Inr ()))
      else Return (w, Inr ()))"

definition leaf_entry :: "u64 \<Rightarrow> u32 \<Rightarrow> u64" where
  "leaf_entry paddr flags =
     (let pt_entry = or paddr 1;
          pt_entry = (if and flags 2 \<noteq> 0 then or pt_entry 2 else pt_entry)
      in or pt_entry 4)"

definition result_bind :: "('w \<times> unit result) outcome \<Rightarrow> ('w \<Rightarrow> ('w \<times> unit result) outcome) \<Rightarrow> ('w \<times> unit result) outcome" where
  "result_bind x f = outcome_bind x (\<lambda>(w, r). case r of Inl e \<Rightarrow> Return (w, Inl e) | Inr _ \<Rightarrow> f w)"

definition map_page :: "aworld \<Rightarrow> AddressSpace \<Rightarrow> u64 \<Rightarrow> u64 \<Rightarrow> u32 \<Rightarrow> (aworld \<times> unit result) outcome" where
  "map_page w as vaddr paddr flags =
     (let pml4 = ptb_virt (as_page_table as);
          pml4_idx = pml4_index vaddr; pdp_idx = pdp_index vaddr;
          pd_idx = pd_index vaddr; pt_idx = pt_index vaddr;
          kernel_pml4_vaddr = paddr_to_vaddr (and (cr3 w) (not 0xFFF))
      in result_bind (private_table w pml4 pml4_idx (pt_read (memory (vw w)) kernel_pml4_vaddr pml4_idx)) (\<lambda>w1.
         let pdp = table_from_entry (pt_read (memory (vw w1)) pml4 pml4_idx);
             kernel_pml4_entry = pt_read (memory (vw w1)) kernel_pml4_vaddr pml4_idx;
             kernel_pd_entry = (if and kernel_pml4_entry 1 \<noteq> 0
                                then pt_read (memory (vw w1)) (table_from_entry kernel_pml4_entry) pdp_idx else 0)
         in result_bind (private_table w1 pdp pdp_idx kernel_pd_entry) (\<lambda>w2.
            let pd = table_from_entry (pt_read (memory (vw w2)) pdp pdp_idx)
            in result_bind (last_table w2 pd pd_idx) (\<lambda>w3.
               let pt = table_from_entry (pt_read (memory (vw w3)) pd pd_idx)
               in Return (set_memory w3 (pt_write (memory (vw w3)) pt pt_idx (leaf_entry paddr flags)), Inr ())))))"

fun map_pages :: "aworld \<Rightarrow> AddressSpace \<Rightarrow> Vmo \<Rightarrow> u64 \<Rightarrow> u32 \<Rightarrow> nat \<Rightarrow> nat \<Rightarrow> (aworld \<times> unit result) outcome" where
  "map_pages w as vmo vaddr flags page_idx 0 = Return (w, Inr ())"
| "map_pages w as vmo vaddr flags page_idx (Suc n) =
     (case map_of (vmo_pages vmo) (page_idx * 4096) of
        None \<Rightarrow> Return (w, Inl ''VMO page not present'')
      | Some e \<Rightarrow>
          if \<not> pm_present e then Return (w, Inl ''VMO page not present'')
          else result_bind (map_page w as (vaddr + of_nat (page_idx * 4096)) (pm_paddr e) flags) (\<lambda>w1.
                 map_pages w1 as vmo vaddr flags (page_idx + 1) n))"

definition map_vmo :: "aworld \<Rightarrow> AddressSpace \<Rightarrow> Vmo \<Rightarrow> u64 \<Rightarrow> u64 \<Rightarrow> u32 \<Rightarrow> (aworld \<times> unit result) outcome" where
  "map_vmo w as vmo vaddr sz flags =
     (if and vaddr 0xFFF \<noteq> 0 then Return (w, Inl ''Virtual address not page-aligned'')
      else map_pages w as vmo vaddr flags 0 (unat ((sz + 4096 - 1) div 4096)))"

definition activate :: "aworld \<Rightarrow> AddressSpace \<Rightarrow> aworld" where
  "activate w as = w\<lparr>cr3 := ptb_phys (as_page_table as)\<rparr>"

section \<open>Filling a new table\<close>

lemma fill_table:
  fixes m :: memory and g :: "u64 \<Rightarrow> u64"
  assumes "low_page src" "low_page dst" "src \<noteq> dst" "n \<le> 512"
  defines "m' \<equiv> fold (\<lambda>i m. pt_write m dst i (g (pt_read m src i))) [0..<n] m"
  shows "(\<forall>t j. low_page t \<and> j < 512 \<longrightarrow>
       pt_read m' t j = (if t = dst \<and> j < n then g (pt_read m src j) else pt_read m t j)) \<and>
     (\<forall>a. \<not> (unat dst \<le> a \<and> a < unat dst + 4096) \<longrightarrow> m' a = m a)"
  using assms(4) unfolding m'_def
proof (induction n)
  case (Suc n)
  let ?f = "\<lambda>i m. pt_write m dst i (g (pt_read m src i))"
  have "fold ?f [0..<Suc n] m = ?f n (fold ?f [0..<n] m)" by simp
  with Suc assms(1-3) show ?case
    by (auto simp: pt_read_write pt_write_other less_Suc_eq)
qed simp

lemma copy_user_entries_table:
  assumes "low_page src" "low_page dst" "src \<noteq> dst"
  shows "\<And>t j. low_page t \<Longrightarrow> j < 512 \<Longrightarrow> pt_read (copy_user_entries src dst m) t j =
       (if t = dst then user_copy (pt_read m src j) else pt_read m t j)"
    and "\<And>a. \<not> (unat dst \<le> a \<and> a < unat dst + 4096) \<Longrightarrow> copy_user_entries src dst m a = m a"
  using fill_table[OF assms, where n = 512 and g = user_copy and m = m] by (simp_all add: copy_user_entries_def)

lemma zero_entries_table:
  assumes "low_page dst"
  shows "\<And>t j. low_page t \<Longrightarrow> j < 512 \<Longrightarrow> pt_read (zero_entries dst m) t j = (if t = dst then 0 else pt_read m t j)"
    and "\<And>a. \<not> (unat dst \<le> a \<and> a < unat dst + 4096) \<Longrightarrow> zero_entries dst m a = m a"
proof -
  define src :: u64 where "src = (if dst = 0 then 4096 else 0)"
  have "low_page src" "src \<noteq> dst" by (auto simp: src_def low_page_def)
  from fill_table[OF this(1) assms this(2), where n = 512 and g = "\<lambda>_. 0" and m = m]
  show "\<And>t j. low_page t \<Longrightarrow> j < 512 \<Longrightarrow> pt_read (zero_entries dst m) t j = (if t = dst then 0 else pt_read m t j)"
    "\<And>a. \<not> (unat dst \<le> a \<and> a < unat dst + 4096) \<Longrightarrow> zero_entries dst m a = m a"
    by (simp_all add: zero_entries_def)
qed

section \<open>Pages of the kernel zone\<close>

definition kzone_ok :: "pmm \<Rightarrow> bool" where
  "kzone_ok st \<longleftrightarrow> (\<forall>p s fl. pmm_abs st p = Some (s, fl) \<and> \<not> zone_excludes PMM_ALLOC_FLAG_KERNEL fl \<longrightarrow>
     low_page p \<and> p \<noteq> 0 \<and> zone_excludes PMM_ALLOC_FLAG_USER fl)"

definition kernel_free :: "pmm \<Rightarrow> nat" where
  "kernel_free st = card (zone_avail PMM_ALLOC_FLAG_KERNEL st)"

text \<open>A page that can hold a table: reachable, not free, and not of the user zone.\<close>

definition table_page :: "pmm \<Rightarrow> u64 \<Rightarrow> bool" where
  "table_page st t \<longleftrightarrow> low_page t \<and>
     (\<forall>s fl. pmm_abs st t = Some (s, fl) \<longrightarrow> s \<noteq> Free \<and> zone_excludes PMM_ALLOC_FLAG_USER fl)"

definition kernel_grows :: "pmm \<Rightarrow> pmm \<Rightarrow> bool" where
  "kernel_grows st st' \<longleftrightarrow> pmm_inv st' \<and> zone_low st' \<and> kzone_ok st' \<and>
     (\<forall>s q. user_page st' s q = user_page st s q) \<and> (\<forall>t. table_page st t \<longrightarrow> table_page st' t)"

lemma kernel_alloc_fresh:
  assumes "pmm_inv st" "zone_low st" "kzone_ok st" "0 < kernel_free st"
  shows "\<exists>st' p. pmm_alloc_kernel_page st = Return (st', Inr p) \<and> kernel_grows st st' \<and> p \<noteq> 0 \<and>
     low_page p \<and> \<not> table_page st p \<and> table_page st' p \<and> kernel_free st = Suc (kernel_free st')"
proof -
  have "zone_avail PMM_ALLOC_FLAG_KERNEL st \<noteq> {}" using assms(4) by (auto simp: kernel_free_def)
  with zone.alloc_stops[OF assms(1), of PMM_ALLOC_FLAG_KERNEL]
  obtain st' p where a: "alloc_from PMM_ALLOC_FLAG_KERNEL st = Some (st', p)" by fastforce
  from pmm_alloc_page_refines[OF assms(1) a] obtain fl where
    f: "pmm_inv st'" "pmm_abs st p = Some (Free, fl)" "\<not> zone_excludes PMM_ALLOC_FLAG_KERNEL fl"
      "pmm_abs st' = (pmm_abs st)(p \<mapsto> (Allocated, fl))" by blast
  have k: "low_page p" "p \<noteq> 0" "zone_excludes PMM_ALLOC_FLAG_USER fl"
    using assms(3) f(2,3) unfolding kzone_ok_def by blast+
  have "user_page st' s q = user_page st s q" for s q using f(2,4) k(3) by (auto simp: user_page_def)
  moreover have "table_page st' t" if "table_page st t" for t using that f(2,4) by (auto simp: table_page_def)
  moreover have "zone_low st'" using assms(2) f(2,4) k(3) by (auto simp: zone_low_def)
  moreover have "kzone_ok st'" using assms(3) f k by (auto simp: kzone_ok_def)
  ultimately have "kernel_grows st st'" using f(1) by (simp add: kernel_grows_def)
  moreover have "pmm_alloc_kernel_page st = Return (st', Inr p)"
    using a by (simp add: pmm_alloc_kernel_page_def pmm_alloc_page_def)
  moreover have "\<not> table_page st p" "table_page st' p" using f(2,4) k by (auto simp: table_page_def)
  moreover have "kernel_free st = Suc (kernel_free st')"
    using zone.alloc_takes[OF assms(1) a] finite_zone_avail[of PMM_ALLOC_FLAG_KERNEL st]
    unfolding kernel_free_def by (metis card.remove)
  ultimately show ?thesis using k by blast
qed

lemma table_page_not_user: "table_page st t \<Longrightarrow> \<not> user_page st s t"
  by (auto simp: table_page_def user_page_def)

section \<open>Address spaces\<close>

text \<open>
  The tables of an address space and of the active space, by paths: each is a
  tree, a table they share is at the same place in both, every upper-level
  table of the active space has a counterpart, and its last-level tables are
  shared.
\<close>

definition space_ok :: "pmm \<Rightarrow> (nat list \<Rightarrow> u64 option) \<Rightarrow> (nat list \<Rightarrow> u64 option) \<Rightarrow> bool" where
  "space_ok st R K \<longleftrightarrow> no_sharing R \<and> no_sharing K \<and>
     (\<forall>p q t. R p = Some t \<and> K q = Some t \<longrightarrow> p = q \<and> p \<noteq> []) \<and>
     (\<forall>p. length p \<le> 2 \<and> K p \<noteq> None \<longrightarrow> R p \<noteq> None) \<and>
     (\<forall>p t. length p = 3 \<and> K p = Some t \<longrightarrow> R p = Some t) \<and>
     (\<forall>p t. R p = Some t \<or> K p = Some t \<longrightarrow> table_page st t)"

definition active_root :: "aworld \<Rightarrow> u64" where
  "active_root w = pte_frame (cr3 w)"

abbreviation mem_of :: "aworld \<Rightarrow> memory" where
  "mem_of w \<equiv> memory (vw w)"

abbreviation phys_of :: "aworld \<Rightarrow> pmm" where
  "phys_of w \<equiv> phys (vw w)"

definition aspace :: "aworld \<Rightarrow> u64 \<Rightarrow> bool" where
  "aspace w r \<longleftrightarrow> world_inv (vw w) \<and> kzone_ok (phys_of w) \<and>
     space_ok (phys_of w) (tables (mem_of w) r) (tables (mem_of w) (active_root w))"

lemma space_ok_page: "space_ok st R K \<Longrightarrow> R p = Some t \<or> K p = Some t \<Longrightarrow> table_page st t"
  unfolding space_ok_def by blast

lemma no_sharing_upd: "no_sharing R \<Longrightarrow> \<forall>q. R q \<noteq> Some f \<Longrightarrow> no_sharing (R(p := Some f))"
  unfolding no_sharing_def by (metis fun_upd_apply option.inject)

lemma space_ok_upd:
  assumes "space_ok st R K" "p \<noteq> []" "length p = 3 \<longrightarrow> R p = None" "\<forall>q. R q \<noteq> Some f" "\<forall>q. K q \<noteq> Some f" "table_page st' f"
    and "\<And>t. table_page st t \<Longrightarrow> table_page st' t"
  shows "space_ok st' (R(p := Some f)) K"
  using assms no_sharing_upd[of R f p] by (auto simp: space_ok_def)

text \<open>Linking a fresh table at an entry of a table that the active space does not share.\<close>

lemma link_space:
  assumes ok: "space_ok st (tables m r) (tables m k)" and t: "tables m r p = Some t" "\<forall>q. tables m k q \<noteq> Some t"
    and path: "path (p @ [i])" "length p = 2 \<longrightarrow> tables m r (p @ [i]) = None"
    and f: "low_page f" "\<not> table_page st f" "table_page st' f" "\<And>t. table_page st t \<Longrightarrow> table_page st' t"
    and m': "\<And>s j. low_page s \<Longrightarrow> j < 512 \<Longrightarrow> s \<noteq> f \<Longrightarrow>
       pt_read m' s j = (if (s, j) = (t, i) then or f 7 else pt_read m s j)"
    and below: "\<And>j. path (p @ [i, j]) \<Longrightarrow> tables m r (p @ [i, j]) =
       (if pte_present (pt_read m' f j) then Some (pte_frame (pt_read m' f j)) else None)"
  shows "tables m' r = (tables m r)(p @ [i] := Some f) \<and> tables m' k = tables m k \<and>
    space_ok st' (tables m' r) (tables m' k) \<and> (\<forall>q. tables m k q \<noteq> Some f)"
proof -
  have pages: "low_page s" "s \<noteq> f" if "tables m r q = Some s \<or> tables m k q = Some s" for q s
    using space_ok_page[OF ok that] f(2) by (auto simp: table_page_def)
  have fresh: "\<forall>q. tables m r q \<noteq> Some f" "\<forall>q. tables m k q \<noteq> Some f" using pages by blast+
  have "pt_read m' t i = or f 7" using m'[of t i] pages t(1) path(1) by (auto simp: path_snoc)
  then have link: "pte_present (pt_read m' t i)" "pte_frame (pt_read m' t i) = f" using pte_link[OF f(1)] by auto
  have R: "tables m' r = (tables m r)(p @ [i] := Some f)"
  proof (rule tables_link[OF _ t(1) path(1) _ link below])
    show "no_sharing (tables m r)" using ok by (simp add: space_ok_def)
    show "pt_read m' s j = pt_read m s j" if "tables m r q = Some s" "j < 512" "(s, j) \<noteq> (t, i)" for q s j
      using m'[of s j] pages[of q s] that by auto
  qed
  have K: "tables m' k = tables m k"
  proof
    fix q show "tables m' k q = tables m k q"
    proof (rule tables_cong)
      fix q' s and j :: nat assume s: "tables m k q' = Some s" "length q' < 3" "j < 512"
      then have "s \<noteq> t" using t(2) by auto
      with m'[of s j] pages[of q' s] s show "pt_read m' s j = pt_read m s j" by auto
    qed
  qed
  show ?thesis using space_ok_upd[OF ok _ _ fresh f(3,4), of "p @ [i]"] path(2) R K fresh(2) by simp
qed

section \<open>What the mapping steps keep\<close>

text \<open>
  The active tables, the last-level tables and their entries, the user pages
  and their contents are kept; at most \<open>n\<close> kernel pages are taken.
\<close>

definition upper_step :: "aworld \<Rightarrow> u64 \<Rightarrow> aworld \<Rightarrow> nat \<Rightarrow> bool" where
  "upper_step w r w' n \<longleftrightarrow> aspace w' r \<and> cr3 w' = cr3 w \<and> next_as_id w' = next_as_id w \<and>
     next_vmo_id (vw w') = next_vmo_id (vw w) \<and>
     tables (mem_of w') (active_root w) = tables (mem_of w) (active_root w) \<and>
     (\<forall>p t. length p = 3 \<and> tables (mem_of w) r p = Some t \<longrightarrow> tables (mem_of w') r p = Some t) \<and>
     (\<forall>p t j. length p = 3 \<and> j < 512 \<and> (tables (mem_of w) r p = Some t \<or> tables (mem_of w) (active_root w) p = Some t) \<longrightarrow>
        pt_read (mem_of w') t j = pt_read (mem_of w) t j) \<and>
     (\<forall>s q. user_page (phys_of w') s q = user_page (phys_of w) s q) \<and>
     (\<forall>s q j. user_page (phys_of w) s q \<and> j < 4096 \<longrightarrow> mem_of w' (unat q + j) = mem_of w (unat q + j)) \<and>
     kernel_free (phys_of w) \<le> kernel_free (phys_of w') + n"

lemma upper_step_refl: "aspace w r \<Longrightarrow> upper_step w r w n"
  by (simp add: upper_step_def)

lemma active_root_cr3: "cr3 w' = cr3 w \<Longrightarrow> active_root w' = active_root w"
  by (simp add: active_root_def)

lemma upper_step_trans:
  assumes "upper_step w r w1 n" "upper_step w1 r w2 k"
  shows "upper_step w r w2 (n + k)"
proof -
  have act: "active_root w1 = active_root w" using assms(1) by (simp add: upper_step_def active_root_def)
  have a: "\<forall>p t. length p = 3 \<and> tables (mem_of w) r p = Some t \<longrightarrow> tables (mem_of w1) r p = Some t"
    "\<forall>p t j. length p = 3 \<and> j < 512 \<and> (tables (mem_of w) r p = Some t \<or> tables (mem_of w) (active_root w) p = Some t) \<longrightarrow>
        pt_read (mem_of w1) t j = pt_read (mem_of w) t j"
    "tables (mem_of w1) (active_root w) = tables (mem_of w) (active_root w)"
    "\<forall>s q. user_page (phys_of w1) s q = user_page (phys_of w) s q"
    "\<forall>s q j. user_page (phys_of w) s q \<and> j < 4096 \<longrightarrow> mem_of w1 (unat q + j) = mem_of w (unat q + j)"
    using assms(1) unfolding upper_step_def by blast+
  have b: "\<forall>p t. length p = 3 \<and> tables (mem_of w1) r p = Some t \<longrightarrow> tables (mem_of w2) r p = Some t"
    "\<forall>p t j. length p = 3 \<and> j < 512 \<and> (tables (mem_of w1) r p = Some t \<or> tables (mem_of w1) (active_root w) p = Some t) \<longrightarrow>
        pt_read (mem_of w2) t j = pt_read (mem_of w1) t j"
    "tables (mem_of w2) (active_root w) = tables (mem_of w1) (active_root w)"
    "\<forall>s q. user_page (phys_of w2) s q = user_page (phys_of w1) s q"
    "\<forall>s q j. user_page (phys_of w1) s q \<and> j < 4096 \<longrightarrow> mem_of w2 (unat q + j) = mem_of w1 (unat q + j)"
    using assms(2) unfolding upper_step_def act by blast+
  have "\<forall>p t j. length p = 3 \<and> j < 512 \<and> (tables (mem_of w) r p = Some t \<or> tables (mem_of w) (active_root w) p = Some t) \<longrightarrow>
        pt_read (mem_of w2) t j = pt_read (mem_of w) t j"
    using a(1,2,3) b(2) by metis
  moreover have "\<forall>s q j. user_page (phys_of w) s q \<and> j < 4096 \<longrightarrow> mem_of w2 (unat q + j) = mem_of w (unat q + j)"
    using a(4,5) b(5) by metis
  ultimately show ?thesis using a b assms unfolding upper_step_def by auto
qed

text \<open>Linking a fresh table, as a step of the state.\<close>

text \<open>No byte of a user page lies in a table.\<close>

lemma user_bytes_apart:
  assumes "zone_low st" "user_page st s q" "low_page t" "table_page st t" "j < 4096"
  shows "\<not> (unat t \<le> unat q + j \<and> unat q + j < unat t + 4096)"
proof -
  have "low_page q" using zone_low_user_page[OF assms(1,2)] by (auto simp: low_page_def)
  moreover have "q \<noteq> t" using table_page_not_user[OF assms(4)] assms(2) by blast
  ultimately show ?thesis using low_pages_apart[of q t] assms(3,5) by fastforce
qed

text \<open>A table of an upper level, if it is not one of the active space, is no last-level table.\<close>

lemma upper_not_leaf:
  assumes "space_ok st R K" "R p = Some t" "\<forall>q. K q \<noteq> Some t" "length p < 3"
    and "length q = 3" "R q = Some s \<or> K q = Some s"
  shows "s \<noteq> t"
proof
  assume "s = t"
  with assms(3,6) have "R q = Some t" by auto
  with assms(1,2) have "q = p" unfolding space_ok_def no_sharing_def by blast
  with assms(4,5) show False by simp
qed

lemma link_step:
  assumes ok: "aspace w r" and t: "tables (mem_of w) r p = Some t" "\<forall>q. tables (mem_of w) (active_root w) q \<noteq> Some t"
    and path: "path (p @ [i])" "length p = 2 \<longrightarrow> tables (mem_of w) r (p @ [i]) = None"
    and st: "kernel_grows (phys_of w) st" "kernel_free (phys_of w) = Suc (kernel_free st)"
    and f: "low_page f" "\<not> table_page (phys_of w) f" "table_page st f"
    and m1: "\<And>s j. low_page s \<Longrightarrow> j < 512 \<Longrightarrow> s \<noteq> f \<Longrightarrow> pt_read m1 s j = pt_read (mem_of w) s j"
      "\<And>a. \<not> (unat f \<le> a \<and> a < unat f + 4096) \<Longrightarrow> m1 a = mem_of w a"
    and below: "\<And>j. path (p @ [i, j]) \<Longrightarrow> tables (mem_of w) r (p @ [i, j]) =
       (if pte_present (pt_read m1 f j) then Some (pte_frame (pt_read m1 f j)) else None)"
  defines "w' \<equiv> set_memory (set_phys w st) (pt_write m1 t i (or f 7))"
  shows "upper_step w r w' 1 \<and> tables (mem_of w') r = (tables (mem_of w) r)(p @ [i] := Some f) \<and>
    (\<forall>q. tables (mem_of w') (active_root w) q \<noteq> Some f)"
proof -
  let ?m = "mem_of w" and ?k = "active_root w" and ?m' = "pt_write m1 t i (or f 7)"
  have sp: "space_ok (phys_of w) (tables ?m r) (tables ?m ?k)" "world_inv (vw w)" "kzone_ok (phys_of w)"
    using ok by (simp_all add: aspace_def)
  have low: "low_page s" "s \<noteq> f" "table_page (phys_of w) s"
    if "tables ?m r q = Some s \<or> tables ?m ?k q = Some s" for q s
    using space_ok_page[OF sp(1) that] f(2) by (auto simp: table_page_def)
  have lt: "low_page t" "t \<noteq> f" "table_page (phys_of w) t" using low t(1) by blast+
  have i: "i < 512" "length p < 3" using path by (simp_all add: path_snoc)
  have rd: "pt_read ?m' s j = (if (s, j) = (t, i) then or f 7 else pt_read ?m s j)"
    if "low_page s" "j < 512" "s \<noteq> f" for s j
    using that lt i m1(1) by (auto simp: pt_read_write)
  have rdf: "pt_read ?m' f j = pt_read m1 f j" if "j < 512" for j
    using that lt i f(1) by (auto simp: pt_read_write)
  have "tables ?m' r = (tables ?m r)(p @ [i] := Some f) \<and> tables ?m' ?k = tables ?m ?k \<and>
      space_ok st (tables ?m' r) (tables ?m' ?k) \<and> (\<forall>q. tables ?m ?k q \<noteq> Some f)"
  proof (rule link_space[OF sp(1) t path f])
    show "table_page st s" if "table_page (phys_of w) s" for s using st(1) that by (simp add: kernel_grows_def)
    show "tables ?m r (p @ [i, j]) = (if pte_present (pt_read ?m' f j) then Some (pte_frame (pt_read ?m' f j)) else None)"
      if "path (p @ [i, j])" for j
    proof -
      have "j < 512" using that by (simp add: path_def)
      with below[OF that] rdf[of j] show ?thesis by simp
    qed
  qed (rule rd)
  then have R: "tables ?m' r = (tables ?m r)(p @ [i] := Some f)" "tables ?m' ?k = tables ?m ?k"
    "space_ok st (tables ?m' r) (tables ?m' ?k)" "\<forall>q. tables ?m ?k q \<noteq> Some f" by blast+
  have w': "mem_of w' = ?m'" "phys_of w' = st" "cr3 w' = cr3 w" "active_root w' = ?k"
    by (simp_all add: w'_def set_memory_def set_phys_def active_root_def)
  have sp': "aspace w' r"
    using R(3) st(1) sp(2) by (simp add: aspace_def w' world_inv_def kernel_grows_def)
  have leaf: "pt_read ?m' s j = pt_read ?m s j"
    if "length q = 3" "j < 512" "tables ?m r q = Some s \<or> tables ?m ?k q = Some s" for q s j
    using rd[of s j] low that upper_not_leaf[OF sp(1) t i(2)] by auto
  have user: "?m' (unat q + j) = ?m (unat q + j)" if "user_page (phys_of w) s q" "j < 4096" for s q j
  proof -
    have "zone_low (phys_of w)" "zone_low st" "user_page st s q"
      using sp(2) st(1) that(1) by (auto simp: world_inv_def kernel_grows_def)
    then have "\<not> (unat t \<le> unat q + j \<and> unat q + j < unat t + 4096)"
      "\<not> (unat f \<le> unat q + j \<and> unat q + j < unat f + 4096)"
      using user_bytes_apart[OF _ that(1) lt(1,3) that(2)] user_bytes_apart[OF _ _ f(1,3) that(2)] by blast+
    with pt_write_other[OF lt(1) i(1)] m1(2) show ?thesis by simp
  qed
  have keep3: "tables ?m' r q = Some s" if "length q = 3" "tables ?m r q = Some s" for q s
    using that R(1) path(2) i(2) by (auto simp: fun_upd_apply)
  have "upper_step w r w' 1"
    unfolding upper_step_def w'
    using sp' R(2) leaf user keep3 st by (auto simp: w'_def set_memory_def set_phys_def kernel_grows_def)
  with R w' show ?thesis by simp
qed

section \<open>The steps of mapping a page\<close>

lemma pte_frame_low: "low_page f \<Longrightarrow> pte_frame f = f"
  using div_mult_mod_eq[of "unat f" 4096] by (simp add: word_unat_eq_iff unat_pte_frame low_page_def)

lemma table_from_entry_low: "low_page (pte_frame e) \<Longrightarrow> table_from_entry e = pte_frame e"
  using low_page_vaddr[of "pte_frame e"] by (simp add: table_from_entry_def pte_frame_def)

lemma tables_entry:
  assumes "tables m r p = Some t" "path (p @ [i])"
  shows "pte_present (pt_read m t i) \<longleftrightarrow> tables m r (p @ [i]) \<noteq> None"
    and "pte_present (pt_read m t i) \<Longrightarrow> tables m r (p @ [i]) = Some (pte_frame (pt_read m t i))"
  using assms by (simp_all add: tables_snoc)

lemma aspace_space: "aspace w r \<Longrightarrow> space_ok (phys_of w) (tables (mem_of w) r) (tables (mem_of w) (active_root w))"
  by (simp add: aspace_def)

lemma aspace_low:
  "aspace w r \<Longrightarrow> tables (mem_of w) r p = Some t \<or> tables (mem_of w) (active_root w) p = Some t \<Longrightarrow> low_page t"
  using space_ok_page[OF aspace_space] by (auto simp: table_page_def)

text \<open>The entry of the active tables one level further down, as the code reads it.\<close>

lemma active_entry:
  assumes ok: "aspace w r" and paths: "path ([] @ [i])" "path ([i] @ [j])"
  defines "k \<equiv> active_root w"
  defines "ke \<equiv> (if and (pt_read (mem_of w) k i) 1 \<noteq> 0
      then pt_read (mem_of w) (table_from_entry (pt_read (mem_of w) k i)) j else 0)"
  shows "pte_present ke \<longleftrightarrow> tables (mem_of w) k ([i] @ [j]) \<noteq> None"
    and "pte_present ke \<Longrightarrow> tables (mem_of w) k ([i] @ [j]) = Some (pte_frame ke)"
proof -
  note e = tables_entry[of "mem_of w" k "[]" k i, OF tables_root paths(1)]
  have "(pte_present ke \<longleftrightarrow> tables (mem_of w) k ([i] @ [j]) \<noteq> None) \<and>
    (pte_present ke \<longrightarrow> tables (mem_of w) k ([i] @ [j]) = Some (pte_frame ke))"
  proof (cases "pte_present (pt_read (mem_of w) k i)")
    case True
    then have t: "tables (mem_of w) k [i] = Some (pte_frame (pt_read (mem_of w) k i))" using e by simp
    then have "table_from_entry (pt_read (mem_of w) k i) = pte_frame (pt_read (mem_of w) k i)"
      using aspace_low[OF ok, of "[i]"] by (simp add: k_def table_from_entry_low)
    then have ke: "ke = pt_read (mem_of w) (pte_frame (pt_read (mem_of w) k i)) j"
      using True by (simp add: ke_def pte_present_def)
    from tables_entry[OF t paths(2)] show ?thesis unfolding ke by auto
  next
    case False
    then have "tables (mem_of w) k [i] = None" "ke = 0" using e by (auto simp: ke_def pte_present_def)
    then show ?thesis using paths(2) by (simp add: tables_snoc[of "[i]" j, simplified] pte_present_def)
  qed
  then show "pte_present ke \<longleftrightarrow> tables (mem_of w) k ([i] @ [j]) \<noteq> None"
    "pte_present ke \<Longrightarrow> tables (mem_of w) k ([i] @ [j]) = Some (pte_frame ke)" by blast+
qed

lemma alloc_page_table_fresh:
  assumes "aspace w r" "0 < kernel_free (phys_of w)"
  shows "\<exists>st f. alloc_page_table w = Return (set_phys w st, f) \<and> f \<noteq> 0 \<and> kernel_grows (phys_of w) st \<and>
    kernel_free (phys_of w) = Suc (kernel_free st) \<and> low_page f \<and> \<not> table_page (phys_of w) f \<and> table_page st f"
proof -
  have "pmm_inv (phys_of w)" "zone_low (phys_of w)" "kzone_ok (phys_of w)"
    using assms(1) by (simp_all add: aspace_def world_inv_def)
  from kernel_alloc_fresh[OF this assms(2)] show ?thesis by (force simp: alloc_page_table_def)
qed

text \<open>
  What \<open>private_table\<close> achieves, and that a table filled with the entries below
  the replaced one, and linked in its place, achieves it.
\<close>

definition privatised :: "aworld \<Rightarrow> u64 \<Rightarrow> nat list \<Rightarrow> aworld \<Rightarrow> bool" where
  "privatised w r p w' \<longleftrightarrow> upper_step w r w' 1 \<and> (\<exists>f. tables (mem_of w') r = (tables (mem_of w) r)(p := Some f) \<and>
     (\<forall>q. tables (mem_of w') (active_root w) q \<noteq> Some f))"

lemma privatised_kernel:
  assumes ok: "aspace w r" and t: "tables (mem_of w) r p = Some t" "\<forall>q. tables (mem_of w) (active_root w) q \<noteq> Some t"
    and p: "path (p @ [i])" "length p \<le> 1" and Re: "tables (mem_of w) r (p @ [i]) = Some g"
    and f: "kernel_grows (phys_of w) st" "kernel_free (phys_of w) = Suc (kernel_free st)" "low_page f"
      "\<not> table_page (phys_of w) f" "table_page st f"
  shows "privatised w r (p @ [i]) (set_memory (set_phys w st) (pt_write (copy_user_entries g f (mem_of w)) t i (or f 7)))"
proof -
  let ?m = "mem_of w" and ?m1 = "copy_user_entries g f (mem_of w)"
  have low: "low_page g" "g \<noteq> f" using space_ok_page[OF aspace_space[OF ok] disjI1[OF Re]] f(4) by (auto simp: table_page_def)
  note cp = copy_user_entries_table[OF low(1) f(3) low(2), where m = ?m]
  have two: "length p = 2 \<longrightarrow> tables ?m r (p @ [i]) = None" using p(2) by simp
  have below: "tables ?m r (p @ [i, j]) = (if pte_present (pt_read ?m1 f j) then Some (pte_frame (pt_read ?m1 f j)) else None)"
    if "path (p @ [i, j])" for j
  proof -
    have "path ((p @ [i]) @ [j])" "j < 512" using that by (simp_all add: path_def)
    with Re cp(1)[of f j] f(3) show ?thesis by (simp add: tables_snoc[of "p @ [i]" j, simplified] user_copy_entry)
  qed
  from link_step[OF ok t p(1) two f, of ?m1, OF _ cp(2) below] cp(1) show ?thesis
    by (auto simp: privatised_def set_memory_def set_phys_def)
qed

lemma privatised_empty:
  assumes ok: "aspace w r" and t: "tables (mem_of w) r p = Some t" "\<forall>q. tables (mem_of w) (active_root w) q \<noteq> Some t"
    and p: "path (p @ [i])" and Re: "tables (mem_of w) r (p @ [i]) = None"
    and f: "kernel_grows (phys_of w) st" "kernel_free (phys_of w) = Suc (kernel_free st)" "low_page f"
      "\<not> table_page (phys_of w) f" "table_page st f"
  shows "privatised w r (p @ [i]) (set_memory (set_phys w st) (pt_write (zero_entries f (mem_of w)) t i (or f 7)))"
proof -
  let ?m = "mem_of w" and ?m1 = "zero_entries f (mem_of w)"
  note z = zero_entries_table[OF f(3), where m = ?m]
  have below: "tables ?m r (p @ [i, j]) = (if pte_present (pt_read ?m1 f j) then Some (pte_frame (pt_read ?m1 f j)) else None)"
    if "path (p @ [i, j])" for j
  proof -
    have "path ((p @ [i]) @ [j])" "j < 512" using that by (simp_all add: path_def)
    with Re z(1)[of f j] f(3) show ?thesis by (simp add: tables_snoc[of "p @ [i]" j, simplified] pte_present_def)
  qed
  from link_step[OF ok t p _ f, of ?m1, OF _ _ z(2) below] Re z(1) show ?thesis
    by (auto simp: privatised_def set_memory_def set_phys_def)
qed

lemma private_table_correct:
  assumes ok: "aspace w r" and t: "tables (mem_of w) r p = Some t" "\<forall>q. tables (mem_of w) (active_root w) q \<noteq> Some t"
    and p: "path (p @ [i])" "length p \<le> 1" and free: "0 < kernel_free (phys_of w)"
    and ke: "pte_present ke \<longleftrightarrow> tables (mem_of w) (active_root w) (p @ [i]) \<noteq> None"
      "pte_present ke \<Longrightarrow> tables (mem_of w) (active_root w) (p @ [i]) = Some (pte_frame ke)"
  shows "\<exists>w' f. private_table w t i ke = Return (w', Inr ()) \<and> upper_step w r w' 1 \<and>
    tables (mem_of w') r = (tables (mem_of w) r)(p @ [i] := Some f) \<and>
    (\<forall>q. tables (mem_of w') (active_root w) q \<noteq> Some f)"
proof -
  let ?m = "mem_of w" and ?k = "active_root w"
  define e where "e = pt_read ?m t i"
  note R = tables_entry[OF t(1) p(1), folded e_def]
  note sp = aspace_space[OF ok]
  have i: "i < 512" using p(1) by (simp add: path_snoc)
  have covers: "tables ?m ?k (p @ [i]) \<noteq> None \<Longrightarrow> tables ?m r (p @ [i]) \<noteq> None"
    using sp p(2) unfolding space_ok_def by (metis One_nat_def Suc_1 Suc_le_mono length_append_singleton)
  from alloc_page_table_fresh[OF ok free] obtain st f where
    f: "alloc_page_table w = Return (set_phys w st, f)" "f \<noteq> 0" "kernel_grows (phys_of w) st"
      "kernel_free (phys_of w) = Suc (kernel_free st)" "low_page f" "\<not> table_page (phys_of w) f" "table_page st f" by blast
  have tf: "table_from_entry f = f" using f(5) by (simp add: table_from_entry_low pte_frame_low)
  consider (kernel) "pte_frame ke = pte_frame e" "pte_present ke" | (empty) "\<not> pte_present e" "\<not> pte_present ke"
    | (own) "pte_present e" "\<not> (pte_frame ke = pte_frame e \<and> pte_present ke)"
    using R ke covers by auto
  then show ?thesis
  proof cases
    case kernel
    have K: "tables ?m ?k (p @ [i]) = Some (pte_frame e)" using kernel ke by simp
    with covers R have Re: "tables ?m r (p @ [i]) = Some (pte_frame e)" by auto
    have low: "low_page (pte_frame e)" using space_ok_page[OF sp disjI1[OF Re]] by (simp add: table_page_def)
    have "private_table w t i ke =
        Return (set_memory (set_phys w st) (pt_write (copy_user_entries (pte_frame e) f ?m) t i (or f 7)), Inr ())"
      using kernel f(1,2) tf low table_from_entry_low[of ke]
      by (simp add: private_table_def Let_def e_def pte_frame_def pte_present_def set_phys_def)
    with privatised_kernel[OF ok t p Re f(3-7)] show ?thesis unfolding privatised_def by blast
  next
    case empty
    have "private_table w t i ke =
        Return (set_memory (set_phys w st) (pt_write (zero_entries f ?m) t i (or f 7)), Inr ())"
      using empty f(1,2) tf by (simp add: private_table_def Let_def e_def pte_frame_def pte_present_def set_phys_def)
    moreover have "tables ?m r (p @ [i]) = None" using R empty by auto
    ultimately show ?thesis using privatised_empty[OF ok t p(1) _ f(3-7)] unfolding privatised_def by blast
  next
    case own
    have Re: "tables ?m r (p @ [i]) = Some (pte_frame e)" using R own(1) by simp
    have "tables ?m ?k q \<noteq> Some (pte_frame e)" for q
    proof
      assume K: "tables ?m ?k q = Some (pte_frame e)"
      with Re sp have "q = p @ [i]" unfolding space_ok_def by metis
      with K ke own(2) show False by auto
    qed
    moreover have "private_table w t i ke = Return (w, Inr ())"
      using own by (auto simp: private_table_def Let_def e_def pte_frame_def pte_present_def)
    ultimately show ?thesis using upper_step_refl[OF ok] Re by (metis fun_upd_triv)
  qed
qed

lemma last_table_correct:
  assumes ok: "aspace w r" and t: "tables (mem_of w) r p = Some t" "\<forall>q. tables (mem_of w) (active_root w) q \<noteq> Some t"
    and p: "path (p @ [i])" "length p = 2" and free: "0 < kernel_free (phys_of w)"
  shows "\<exists>w' f. last_table w t i = Return (w', Inr ()) \<and> upper_step w r w' 1 \<and>
    tables (mem_of w') r = (tables (mem_of w) r)(p @ [i] := Some f) \<and>
    (tables (mem_of w) r (p @ [i]) = None \<longrightarrow> (\<forall>j < 512. pt_read (mem_of w') f j = 0))"
proof (cases "pte_present (pt_read (mem_of w) t i)")
  case True
  then have "last_table w t i = Return (w, Inr ())" by (simp add: last_table_def pte_present_def)
  with upper_step_refl[OF ok] tables_entry(2)[OF t(1) p(1) True] show ?thesis by (metis fun_upd_triv option.distinct(1))
next
  case False
  let ?m = "mem_of w"
  from alloc_page_table_fresh[OF ok free] obtain st f where
    f: "alloc_page_table w = Return (set_phys w st, f)" "f \<noteq> 0" "kernel_grows (phys_of w) st"
      "kernel_free (phys_of w) = Suc (kernel_free st)" "low_page f" "\<not> table_page (phys_of w) f" "table_page st f" by blast
  have tf: "table_from_entry f = f" using f(5) by (simp add: table_from_entry_low pte_frame_low)
  have none: "length p = 2 \<longrightarrow> tables ?m r (p @ [i]) = None" using tables_entry[OF t(1) p(1)] False by simp
  let ?m1 = "zero_entries f ?m"
  let ?w' = "set_memory (set_phys w st) (pt_write ?m1 t i (or f 7))"
  note z = zero_entries_table[OF f(5), where m = ?m]
  have "\<not> path (p @ [i, j])" for j using p(2) by (simp add: path_def)
  with link_step[OF ok t p(1) none f(3-7), of ?m1] z
  have "upper_step w r ?w' 1 \<and> tables (mem_of ?w') r = (tables ?m r)(p @ [i] := Some f)" by simp
  moreover have "pt_read (mem_of ?w') f j = 0" if "j < 512" for j
  proof -
    have "low_page t" "t \<noteq> f" using space_ok_page[OF aspace_space[OF ok] disjI1[OF t(1)]] f(6)
      by (auto simp: table_page_def)
    with that z(1)[of f j] f(5) p(1) show ?thesis
      by (simp add: set_memory_def pt_read_write path_snoc)
  qed
  moreover have "last_table w t i = Return (?w', Inr ())"
    using False f(1,2) tf by (simp add: last_table_def pte_present_def Let_def set_phys_def)
  ultimately show ?thesis by blast
qed

section \<open>Translation of addresses\<close>

definition va_path :: "u64 \<Rightarrow> nat list" where
  "va_path va = [pml4_index va, pdp_index va, pd_index va]"

text \<open>
  The entry that the processor finds for an address, walking the tables from a
  root, when the present entries of the upper levels refer to tables: the bit
  \<open>X86_MMU_PG_PS\<close> that makes such an entry a large page is ignored here, as
  \<open>map_page\<close> ignores it.  For addresses under a large page neither \<open>walk\<close> nor
  the properties below describe the processor.
\<close>

definition walk :: "memory \<Rightarrow> u64 \<Rightarrow> u64 \<Rightarrow> u64 option" where
  "walk m r va = (case tables m r (va_path va) of None \<Rightarrow> None
     | Some t \<Rightarrow> if pte_present (pt_read m t (pt_index va)) then Some (pt_read m t (pt_index va)) else None)"

definition same_page :: "u64 \<Rightarrow> u64 \<Rightarrow> bool" where
  "same_page va va' \<longleftrightarrow> va_path va = va_path va' \<and> pt_index va = pt_index va'"

lemma index_bound: "unat (and (x :: u64) 0x1FF) < 512"
proof -
  have "(0x1FF :: u64) = mask 9" by (simp add: mask_eq_exp_minus_1)
  then have "and x 0x1FF = take_bit 9 x" by (simp only: take_bit_eq_mask)
  then show ?thesis by (simp add: take_bit_eq_mod unat_mod)
qed

lemma indices_bounded [simp]:
  "pml4_index va < 512" "pdp_index va < 512" "pd_index va < 512" "pt_index va < 512"
  unfolding pml4_index_def pdp_index_def pd_index_def pt_index_def by (rule index_bound)+

lemma path_va_path [simp]: "path (va_path va)" "length (va_path va) = 3"
  by (simp_all add: va_path_def path_def)

lemma leaf_entry_present: "pte_present (leaf_entry pa fl)"
proof -
  have "pte_present (or pa 1)" by (simp add: pte_present_bit bit_or_iff)
  moreover have "pte_present (or x y)" if "pte_present x" for x y using that by (simp add: pte_present_bit bit_or_iff)
  ultimately show ?thesis by (simp add: leaf_entry_def Let_def)
qed

text \<open>Writing an entry of a last-level table changes no table above it.\<close>

lemma leaf_write_space:
  fixes v :: u64
  assumes ok: "aspace w r" and f: "tables (mem_of w) r P = Some f" "length P = 3" and i: "i < 512"
  defines "w' \<equiv> set_memory w (pt_write (mem_of w) f i v)"
  shows "aspace w' r \<and> tables (mem_of w') r = tables (mem_of w) r \<and>
    tables (mem_of w') (active_root w) = tables (mem_of w) (active_root w)"
proof -
  let ?m = "mem_of w" and ?k = "active_root w"
  note sp = aspace_space[OF ok]
  have low: "low_page s" if "tables ?m r q = Some s \<or> tables ?m ?k q = Some s" for q s
    using aspace_low[OF ok that] .
  have other: "pt_read (mem_of w') s j = pt_read ?m s j"
    if "tables ?m r q = Some s \<or> tables ?m ?k q = Some s" "length q < 3" "j < 512" for q s j
  proof -
    have "s \<noteq> f"
    proof
      assume "s = f"
      with that(1) f(1) sp have "q = P" unfolding space_ok_def no_sharing_def by metis
      with that(2) f(2) show False by simp
    qed
    moreover have "low_page s" "low_page f" using low that(1) f(1) by blast+
    ultimately show ?thesis using that(3) i by (simp add: w'_def set_memory_def pt_read_write)
  qed
  have "tables (mem_of w') r q = tables ?m r q" "tables (mem_of w') ?k q = tables ?m ?k q" for q
    by (rule tables_cong; use other in blast)+
  then have "tables (mem_of w') r = tables ?m r" "tables (mem_of w') ?k = tables ?m ?k" by blast+
  moreover have "phys_of w' = phys_of w" "active_root w' = ?k" by (simp_all add: w'_def set_memory_def active_root_def)
  ultimately show ?thesis using ok by (simp add: aspace_def world_inv_def)
qed

section \<open>Mapping a page\<close>

definition map_step :: "aworld \<Rightarrow> u64 \<Rightarrow> aworld \<Rightarrow> u64 \<Rightarrow> u64 \<Rightarrow> nat \<Rightarrow> bool" where
  "map_step w r w' va e n \<longleftrightarrow> aspace w' r \<and> cr3 w' = cr3 w \<and> next_vmo_id (vw w') = next_vmo_id (vw w) \<and>
     (\<forall>va'. walk (mem_of w') r va' = (if same_page va va' then Some e else walk (mem_of w) r va')) \<and>
     tables (mem_of w') (active_root w) = tables (mem_of w) (active_root w) \<and>
     (\<forall>va'. walk (mem_of w') (active_root w) va' =
        (if same_page va va' \<and> tables (mem_of w) (active_root w) (va_path va) \<noteq> None then Some e
         else walk (mem_of w) (active_root w) va')) \<and>
     (\<forall>s q. user_page (phys_of w') s q = user_page (phys_of w) s q) \<and>
     (\<forall>s q j. user_page (phys_of w) s q \<and> j < 4096 \<longrightarrow> mem_of w' (unat q + j) = mem_of w (unat q + j)) \<and>
     kernel_free (phys_of w) \<le> kernel_free (phys_of w') + n"

text \<open>The tables above the last level are in place.\<close>

lemma map_page_upper:
  assumes ok: "aspace w r" and as: "ptb_virt (as_page_table as) = r" and free: "3 \<le> kernel_free (phys_of w)"
  shows "\<exists>w3 f. map_page w as va pa fl =
       Return (set_memory w3 (pt_write (mem_of w3) f (pt_index va) (leaf_entry pa fl)), Inr ()) \<and>
     upper_step w r w3 3 \<and> tables (mem_of w3) r (va_path va) = Some f \<and>
     (\<forall>q. length q = 3 \<and> q \<noteq> va_path va \<longrightarrow> tables (mem_of w3) r q = tables (mem_of w) r q) \<and>
     (tables (mem_of w) r (va_path va) = None \<longrightarrow> (\<forall>j < 512. pt_read (mem_of w3) f j = 0))"
proof -
  let ?k = "active_root w" and ?i4 = "pml4_index va" and ?i3 = "pdp_index va" and ?i2 = "pd_index va"
  have paths: "path ([] @ [?i4])" "path ([?i4] @ [?i3])" "path ([?i4, ?i3] @ [?i2])" by (simp_all add: path_def)
  have kroot: "paddr_to_vaddr (and (cr3 w) (not 0xFFF)) = ?k"
    using aspace_low[OF ok, of "[]" ?k] low_page_vaddr by (simp add: active_root_def pte_frame_def)
  have root: "\<forall>q. tables (mem_of w) ?k q \<noteq> Some r"
    using aspace_space[OF ok] unfolding space_ok_def by (metis tables_root)
  note ke4 = tables_entry[of "mem_of w" ?k "[]" ?k ?i4, OF tables_root paths(1)]
  from private_table_correct[OF ok tables_root root paths(1) _ _ ke4] free obtain w1 f3 where
    s1: "private_table w r ?i4 (pt_read (mem_of w) ?k ?i4) = Return (w1, Inr ())" "upper_step w r w1 1"
      "tables (mem_of w1) r = (tables (mem_of w) r)([?i4] := Some f3)" "\<forall>q. tables (mem_of w1) ?k q \<noteq> Some f3" by auto
  have ok1: "aspace w1 r" "active_root w1 = ?k" "2 \<le> kernel_free (phys_of w1)"
    using s1(2) free by (auto simp: upper_step_def active_root_def)
  have t3: "tables (mem_of w1) r [?i4] = Some f3" using s1(3) by simp
  have pdp: "table_from_entry (pt_read (mem_of w1) r ?i4) = f3"
    using tables_entry[OF tables_root paths(1), of "mem_of w1" r] t3 aspace_low[OF ok1(1) disjI1[OF t3]]
    by (simp add: table_from_entry_low)
  define ke where "ke = (if and (pt_read (mem_of w1) ?k ?i4) 1 \<noteq> 0
      then pt_read (mem_of w1) (table_from_entry (pt_read (mem_of w1) ?k ?i4)) ?i3 else 0)"
  note ke3 = active_entry[OF ok1(1) paths(1,2), unfolded ok1(2), folded ke_def]
  from private_table_correct[OF ok1(1) t3 _ paths(2), of ke] s1(4) ok1 ke3 obtain w2 f2 where
    s2: "private_table w1 f3 ?i3 ke = Return (w2, Inr ())" "upper_step w1 r w2 1"
      "tables (mem_of w2) r = (tables (mem_of w1) r)([?i4, ?i3] := Some f2)" "\<forall>q. tables (mem_of w2) ?k q \<noteq> Some f2"
    by auto
  have ok2: "aspace w2 r" "active_root w2 = ?k" "1 \<le> kernel_free (phys_of w2)"
    using s2(2) ok1 by (auto simp: upper_step_def active_root_def)
  have t2: "tables (mem_of w2) r [?i4, ?i3] = Some f2" "tables (mem_of w2) r [?i4] = Some f3" using s2(3) t3 by simp_all
  have pd: "table_from_entry (pt_read (mem_of w2) f3 ?i3) = f2"
    using tables_entry[OF t2(2) paths(2)] t2(1) aspace_low[OF ok2(1) disjI1[OF t2(1)]] by (simp add: table_from_entry_low)
  from last_table_correct[OF ok2(1) t2(1) _ paths(3)] s2(4) ok2 obtain w3 f where
    s3: "last_table w2 f2 ?i2 = Return (w3, Inr ())" "upper_step w2 r w3 1"
      "tables (mem_of w3) r = (tables (mem_of w2) r)([?i4, ?i3, ?i2] := Some f)"
      "tables (mem_of w2) r [?i4, ?i3, ?i2] = None \<longrightarrow> (\<forall>j < 512. pt_read (mem_of w3) f j = 0)" by auto
  have t1: "tables (mem_of w3) r [?i4, ?i3, ?i2] = Some f" "tables (mem_of w3) r [?i4, ?i3] = Some f2" using s3(3) t2 by simp_all
  have ok3: "aspace w3 r" using s3(2) by (simp add: upper_step_def)
  have pt: "table_from_entry (pt_read (mem_of w3) f2 ?i2) = f"
    using tables_entry[OF t1(2) paths(3)] t1(1) aspace_low[OF ok3 disjI1[OF t1(1)]] by (simp add: table_from_entry_low)
  have "map_page w as va pa fl =
       Return (set_memory w3 (pt_write (mem_of w3) f (pt_index va) (leaf_entry pa fl)), Inr ())"
    unfolding map_page_def Let_def result_bind_def as kroot
    by (simp add: s1(1) pdp s2(1) pd s3(1) pt flip: ke_def)
  moreover have "upper_step w r w3 3"
    using upper_step_trans[OF upper_step_trans[OF s1(2) s2(2)] s3(2)] by (simp add: numeral_3_eq_3)
  moreover have "\<forall>q. length q = 3 \<and> q \<noteq> va_path va \<longrightarrow> tables (mem_of w3) r q = tables (mem_of w) r q"
    using s1(3) s2(3) s3(3) by (auto simp: va_path_def)
  moreover have "tables (mem_of w) r (va_path va) = None \<longrightarrow> (\<forall>j < 512. pt_read (mem_of w3) f j = 0)"
    using s1(3) s2(3) s3(4) by (simp add: va_path_def)
  moreover have "tables (mem_of w3) r (va_path va) = Some f" using t1(1) by (simp add: va_path_def)
  ultimately show ?thesis by (intro exI[of _ w3] exI[of _ f] conjI)
qed

lemma walk_leaf_write:
  assumes "low_page f" "i < 512" "low_page t" "j < 512"
  shows "(if pte_present (pt_read (pt_write m f i v) t j) then Some (pt_read (pt_write m f i v) t j) else None) =
    (if t = f \<and> j = i then (if pte_present v then Some v else None)
     else if pte_present (pt_read m t j) then Some (pt_read m t j) else None)"
  using assms by (simp add: pt_read_write)

text \<open>The state in which the entry is stored: the tables above it are in place, in \<open>f\<close> the last one.\<close>

definition leaf_ready :: "aworld \<Rightarrow> u64 \<Rightarrow> aworld \<Rightarrow> u64 \<Rightarrow> u64 \<Rightarrow> bool" where
  "leaf_ready w r w3 va f \<longleftrightarrow> upper_step w r w3 3 \<and> tables (mem_of w3) r (va_path va) = Some f \<and>
     (\<forall>q. length q = 3 \<and> q \<noteq> va_path va \<longrightarrow> tables (mem_of w3) r q = tables (mem_of w) r q) \<and>
     (tables (mem_of w) r (va_path va) = None \<longrightarrow> (\<forall>j < 512. pt_read (mem_of w3) f j = 0))"

lemma leaf_ready_facts:
  assumes "leaf_ready w r w3 va f"
  shows "aspace w3 r" "active_root w3 = active_root w" "tables (mem_of w3) (active_root w) = tables (mem_of w) (active_root w)"
    "space_ok (phys_of w3) (tables (mem_of w3) r) (tables (mem_of w3) (active_root w))"
    "length q = 3 \<Longrightarrow> tables (mem_of w) r q = Some t \<Longrightarrow> tables (mem_of w3) r q = Some t"
    "length q = 3 \<Longrightarrow> tables (mem_of w) r q = Some t \<or> tables (mem_of w) (active_root w) q = Some t \<Longrightarrow> n < 512 \<Longrightarrow>
       pt_read (mem_of w3) t n = pt_read (mem_of w) t n"
    "tables (mem_of w3) r q = Some t \<or> tables (mem_of w3) (active_root w) q = Some t \<Longrightarrow> low_page t"
    "low_page f" "tables (mem_of w3) r q = Some t \<Longrightarrow> t = f \<longleftrightarrow> q = va_path va"
proof -
  have up: "upper_step w r w3 3" and f: "tables (mem_of w3) r (va_path va) = Some f" using assms by (simp_all add: leaf_ready_def)
  show ok3: "aspace w3 r" "active_root w3 = active_root w" using up by (auto simp: upper_step_def active_root_def)
  show "tables (mem_of w3) (active_root w) = tables (mem_of w) (active_root w)" using up by (simp add: upper_step_def)
  show sp3: "space_ok (phys_of w3) (tables (mem_of w3) r) (tables (mem_of w3) (active_root w))"
    by (rule aspace_space[OF ok3(1), unfolded ok3(2)])
  show "length q = 3 \<Longrightarrow> tables (mem_of w) r q = Some t \<Longrightarrow> tables (mem_of w3) r q = Some t"
    "length q = 3 \<Longrightarrow> tables (mem_of w) r q = Some t \<or> tables (mem_of w) (active_root w) q = Some t \<Longrightarrow> n < 512 \<Longrightarrow>
       pt_read (mem_of w3) t n = pt_read (mem_of w) t n" using up unfolding upper_step_def by blast+
  show low: "tables (mem_of w3) r q = Some t \<or> tables (mem_of w3) (active_root w) q = Some t \<Longrightarrow> low_page t" for q t
    using space_ok_page[OF sp3] by (auto simp: table_page_def)
  show "low_page f" using low f by blast
  show "tables (mem_of w3) r q = Some t \<Longrightarrow> t = f \<longleftrightarrow> q = va_path va"
    using f sp3 unfolding space_ok_def no_sharing_def by (metis option.inject)
qed

lemma leaf_write_walk:
  assumes L: "leaf_ready w r w3 va f" and tb: "tables (pt_write (mem_of w3) f (pt_index va) (leaf_entry pa fl)) r = tables (mem_of w3) r"
  shows "walk (pt_write (mem_of w3) f (pt_index va) (leaf_entry pa fl)) r va' =
    (if same_page va va' then Some (leaf_entry pa fl) else walk (mem_of w) r va')"
proof -
  let ?m = "mem_of w" and ?m3 = "mem_of w3" and ?P = "va_path va" and ?v = "leaf_entry pa fl"
  let ?m' = "pt_write ?m3 f (pt_index va) ?v"
  have f: "tables ?m3 r ?P = Some f" and other: "\<forall>q. length q = 3 \<and> q \<noteq> ?P \<longrightarrow> tables ?m3 r q = tables ?m r q"
    and zero: "tables ?m r ?P = None \<longrightarrow> (\<forall>j < 512. pt_read ?m3 f j = 0)" using L by (simp_all add: leaf_ready_def)
  note old = leaf_ready_facts(5,6)[OF L] and low = leaf_ready_facts(7)[OF L] and lf = leaf_ready_facts(8)[OF L]
    and here = leaf_ready_facts(9)[OF L]
  show ?thesis
  proof (cases "va_path va' = ?P")
    case False
    then have eq: "tables ?m' r (va_path va') = tables ?m r (va_path va')" using other tb by simp
    show ?thesis
    proof (cases "tables ?m r (va_path va')")
      case (Some t)
      have "t \<noteq> f" "low_page t" using here[of "va_path va'" t] old(1)[OF _ Some] low[of "va_path va'" t] False by auto
      with Some eq lf old(2)[of "va_path va'" t "pt_index va'"] False show ?thesis
        by (simp add: walk_def walk_leaf_write same_page_def)
    qed (use eq False in \<open>simp add: walk_def same_page_def\<close>)
  next
    case True
    have "walk ?m' r va' = (if pt_index va' = pt_index va then Some ?v
        else if pte_present (pt_read ?m3 f (pt_index va')) then Some (pt_read ?m3 f (pt_index va')) else None)"
      using True f lf tb by (simp add: walk_def walk_leaf_write leaf_entry_present)
    moreover have "walk ?m r va' = (if pte_present (pt_read ?m3 f (pt_index va')) then Some (pt_read ?m3 f (pt_index va')) else None)"
    proof (cases "tables ?m r ?P")
      case None
      with zero True show ?thesis by (simp add: walk_def pte_present_def)
    next
      case (Some t)
      then have "t = f" using old(1)[of ?P t] f by simp
      with Some True old(2)[of ?P t "pt_index va'"] show ?thesis by (simp add: walk_def)
    qed
    ultimately show ?thesis using True by (auto simp: same_page_def)
  qed
qed

lemma leaf_write_walk_active:
  assumes L: "leaf_ready w r w3 va f"
    and tb: "tables (pt_write (mem_of w3) f (pt_index va) (leaf_entry pa fl)) (active_root w) = tables (mem_of w3) (active_root w)"
  shows "walk (pt_write (mem_of w3) f (pt_index va) (leaf_entry pa fl)) (active_root w) va' =
    (if same_page va va' \<and> tables (mem_of w) (active_root w) (va_path va) \<noteq> None then Some (leaf_entry pa fl)
     else walk (mem_of w) (active_root w) va')"
proof -
  let ?m = "mem_of w" and ?k = "active_root w" and ?m3 = "mem_of w3" and ?P = "va_path va" and ?v = "leaf_entry pa fl"
  let ?m' = "pt_write ?m3 f (pt_index va) ?v"
  note K3 = leaf_ready_facts(3)[OF L] and sp3 = leaf_ready_facts(4)[OF L] and old = leaf_ready_facts(5,6)[OF L]
    and low = leaf_ready_facts(7)[OF L] and lf = leaf_ready_facts(8)[OF L] and here = leaf_ready_facts(9)[OF L]
  show ?thesis
  proof (cases "tables ?m ?k (va_path va')")
    case None
    then show ?thesis using tb K3 by (auto simp: walk_def same_page_def)
  next
    case (Some t)
    then have t3: "tables ?m3 ?k (va_path va') = Some t" using K3 by simp
    then have tr: "tables ?m3 r (va_path va') = Some t" using sp3 unfolding space_ok_def by (metis path_va_path(2))
    have "walk ?m' ?k va' = (if t = f \<and> pt_index va' = pt_index va then Some ?v else walk ?m ?k va')"
      using Some t3 tb lf low[of "va_path va'" t] old(2)[of "va_path va'" t "pt_index va'"]
      by (simp add: walk_def walk_leaf_write leaf_entry_present)
    with here[OF tr] Some show ?thesis by (auto simp: same_page_def)
  qed
qed

lemma map_page_correct:
  assumes ok: "aspace w r" and as: "ptb_virt (as_page_table as) = r" and free: "3 \<le> kernel_free (phys_of w)"
  shows "\<exists>w'. map_page w as va pa fl = Return (w', Inr ()) \<and> map_step w r w' va (leaf_entry pa fl) 3"
proof -
  let ?m = "mem_of w" and ?k = "active_root w" and ?v = "leaf_entry pa fl"
  from map_page_upper[OF assms] obtain w3 f where
    run: "map_page w as va pa fl = Return (set_memory w3 (pt_write (mem_of w3) f (pt_index va) ?v), Inr ())" and
    L: "leaf_ready w r w3 va f" unfolding leaf_ready_def by blast
  have up: "upper_step w r w3 3" and f: "tables (mem_of w3) r (va_path va) = Some f" using L by (simp_all add: leaf_ready_def)
  let ?m' = "pt_write (mem_of w3) f (pt_index va) ?v" and ?w' = "set_memory w3 (pt_write (mem_of w3) f (pt_index va) ?v)"
  note ok3 = leaf_ready_facts(1,2)[OF L] and K3 = leaf_ready_facts(3)[OF L] and sp3 = leaf_ready_facts(4)[OF L]
    and lf = leaf_ready_facts(8)[OF L]
  have lw: "aspace ?w' r" "tables ?m' r = tables (mem_of w3) r" "tables ?m' ?k = tables (mem_of w3) ?k"
    using leaf_write_space[OF ok3(1) f, of "pt_index va" ?v] ok3(2) by (simp_all add: set_memory_def)
  have user: "?m' (unat q + j) = ?m (unat q + j)" if q: "user_page (phys_of w) s q" "j < 4096" for s q j
  proof -
    have q3: "user_page (phys_of w3) s q" using up q by (simp add: upper_step_def)
    have "\<not> (unat f \<le> unat q + j \<and> unat q + j < unat f + 4096)"
      using user_bytes_apart[OF _ q3 lf _ q(2)] space_ok_page[OF sp3 disjI1[OF f]] ok3(1)
      by (auto simp: aspace_def world_inv_def)
    then show ?thesis using pt_write_other[OF lf, of "pt_index va"] up q by (simp add: upper_step_def)
  qed
  then have user': "\<forall>s q j. user_page (phys_of w) s q \<and> j < 4096 \<longrightarrow> ?m' (unat q + j) = ?m (unat q + j)" by blast
  have "map_step w r ?w' va ?v 3"
    unfolding map_step_def using lw K3 leaf_write_walk[OF L lw(2)] leaf_write_walk_active[OF L lw(3)] user' up
    by (simp add: set_memory_def upper_step_def)
  with run show ?thesis by blast
qed

section \<open>Page numbers\<close>

definition vpn :: "u64 \<Rightarrow> nat" where
  "vpn va = unat va div 4096 mod 2 ^ 36"

lemma index_digit: "unat (and (drop_bit n (x :: u64)) 0x1FF) = unat x div 2 ^ n mod 512"
proof -
  have "(0x1FF :: u64) = mask 9" by (simp add: mask_eq_exp_minus_1)
  then have "and (drop_bit n x) 0x1FF = take_bit 9 (drop_bit n x)" by (simp only: take_bit_eq_mask)
  then have "unat (and (drop_bit n x) 0x1FF) = take_bit 9 (drop_bit n (take_bit 64 (unat x)))"
    by (simp only: unsigned_take_bit_eq unsigned_drop_bit_eq) (simp add: min_def)
  then show ?thesis using unat_u64_bound[of x] by (simp add: take_bit_eq_mod drop_bit_eq_div)
qed

lemma va_digits:
  "pml4_index va = unat va div 2 ^ 39 mod 512" "pdp_index va = unat va div 2 ^ 30 mod 512"
  "pd_index va = unat va div 2 ^ 21 mod 512" "pt_index va = unat va div 2 ^ 12 mod 512"
  unfolding pml4_index_def pdp_index_def pd_index_def pt_index_def by (rule index_digit)+

lemma four_digits:
  fixes n :: nat
  shows "n mod 512 ^ 4 = ((n div 512 ^ 3 mod 512 * 512 + n div 512 ^ 2 mod 512) * 512 + n div 512 mod 512) * 512 + n mod 512"
proof -
  have d: "m mod (512 * k) = m div 512 mod k * 512 + m mod 512" for m k :: nat
    by (metis add.commute mod_mult2_eq mult.commute)
  have "n mod 512 ^ 4 = n div 512 mod 512 ^ 3 * 512 + n mod 512" using d[of n "512 ^ 3"] by simp
  also have "n div 512 mod 512 ^ 3 = n div 512 div 512 mod 512 ^ 2 * 512 + n div 512 mod 512"
    using d[of "n div 512" "512 ^ 2"] by simp
  also have "n div 512 div 512 mod 512 ^ 2 = n div 512 div 512 div 512 mod 512 * 512 + n div 512 div 512 mod 512"
    using d[of "n div 512 div 512" 512] by simp
  finally show ?thesis by (simp add: div_mult2_eq[symmetric])
qed

lemma same_page_vpn: "same_page va va' \<longleftrightarrow> vpn va = vpn va'"
proof -
  have v: "vpn x = ((pml4_index x * 512 + pdp_index x) * 512 + pd_index x) * 512 + pt_index x" for x
    using four_digits[of "unat x div 4096"] by (simp add: vpn_def va_digits div_mult2_eq[symmetric])
  have inj: "a * 512 + b = c * 512 + d \<longleftrightarrow> a = c \<and> b = d" if "b < 512" "d < 512" for a b c d :: nat
  proof
    assume eq: "a * 512 + b = c * 512 + d"
    have "(a * 512 + b) mod 512 = b" "(c * 512 + d) mod 512 = d" using that by simp_all
    then have "b = d" unfolding eq by simp
    with eq show "a = c \<and> b = d" by simp
  qed simp
  show ?thesis unfolding same_page_def va_path_def v by (simp only: inj indices_bounded) auto
qed

lemma vpn_page:
  assumes "unat va mod 4096 = 0" "unat va + (j + 1) * 4096 \<le> 2 ^ 48" "k < 4096"
  shows "vpn (va + of_nat (j * 4096 + k)) = unat va div 4096 + j"
    and "unat (va + of_nat (j * 4096 + k)) = unat va + j * 4096 + k"
proof -
  have small: "unat va + (j * 4096 + k) < 2 ^ 48" using assms(2,3) by simp
  then have u: "unat (va + of_nat (j * 4096 + k)) = unat va + (j * 4096 + k)"
    by (simp only: unat_word_ariths unat_of_nat) simp
  then show "unat (va + of_nat (j * 4096 + k)) = unat va + j * 4096 + k" by simp
  obtain q where q: "unat va = q * 4096" using assms(1) by (metis mod_eq_0_iff_dvd dvd_def mult.commute)
  have "(unat va + (j * 4096 + k)) div 4096 = q + j" using q assms(3) by simp
  moreover have "q + j < 2 ^ 36" using small q by simp
  ultimately show "vpn (va + of_nat (j * 4096 + k)) = unat va div 4096 + j" unfolding vpn_def u using q by simp
qed

section \<open>Mapping the pages of an object\<close>

text \<open>\<open>n\<close> pages of an object from page \<open>i\<close> on are mapped; nothing else changes in the space.\<close>

definition pages_mapped :: "aworld \<Rightarrow> u64 \<Rightarrow> aworld \<Rightarrow> Vmo \<Rightarrow> u64 \<Rightarrow> u32 \<Rightarrow> nat \<Rightarrow> nat \<Rightarrow> bool" where
  "pages_mapped w r w' vmo vaddr fl i n \<longleftrightarrow> aspace w' r \<and> cr3 w' = cr3 w \<and> next_vmo_id (vw w') = next_vmo_id (vw w) \<and>
     (\<forall>va. walk (mem_of w') r va = (if unat vaddr div 4096 + i \<le> vpn va \<and> vpn va < unat vaddr div 4096 + i + n
        then Some (leaf_entry (pm_paddr (the (map_of (vmo_pages vmo) ((vpn va - unat vaddr div 4096) * 4096)))) fl)
        else walk (mem_of w) r va)) \<and>
     (\<forall>s q. user_page (phys_of w') s q = user_page (phys_of w) s q) \<and>
     (\<forall>s q j. user_page (phys_of w) s q \<and> j < 4096 \<longrightarrow> mem_of w' (unat q + j) = mem_of w (unat q + j)) \<and>
     kernel_free (phys_of w) \<le> kernel_free (phys_of w') + 3 * n"

lemma map_pages_correct:
  assumes ok: "aspace w r" and as: "ptb_virt (as_page_table as) = r" and free: "3 * n \<le> kernel_free (phys_of w)"
    and va: "unat vaddr mod 4096 = 0" "unat vaddr + (i + n) * 4096 \<le> 2 ^ 48"
    and pages: "\<forall>j. i \<le> j \<and> j < i + n \<longrightarrow> (\<exists>e. map_of (vmo_pages vmo) (j * 4096) = Some e \<and> pm_present e)"
  shows "\<exists>w'. map_pages w as vmo vaddr fl i n = Return (w', Inr ()) \<and> pages_mapped w r w' vmo vaddr fl i n"
  using ok free va(2) pages
proof (induction n arbitrary: w i)
  case 0
  then show ?case by (auto simp: pages_mapped_def)
next
  case (Suc n)
  from Suc.prems(4) obtain e where e: "map_of (vmo_pages vmo) (i * 4096) = Some e" "pm_present e" by auto
  let ?va = "vaddr + of_nat (i * 4096)" and ?e = "leaf_entry (pm_paddr e) fl"
  have vpn: "vpn ?va = unat vaddr div 4096 + i" using vpn_page(1)[OF va(1), of i 0] Suc.prems(3) by simp
  have "3 \<le> kernel_free (phys_of w)" using Suc.prems(2) by simp
  from map_page_correct[OF Suc.prems(1) as this, of ?va "pm_paddr e" fl] obtain w1 where
    s1: "map_page w as ?va (pm_paddr e) fl = Return (w1, Inr ())" "map_step w r w1 ?va ?e 3" by blast
  have p1: "aspace w1 r" "3 * n \<le> kernel_free (phys_of w1)" using s1(2) Suc.prems(2) by (auto simp: map_step_def)
  have "unat vaddr + (i + 1 + n) * 4096 \<le> 2 ^ 48" using Suc.prems(3) by simp
  from Suc.IH[OF p1 this] Suc.prems(4) obtain w' where
    r: "map_pages w1 as vmo vaddr fl (i + 1) n = Return (w', Inr ())" "pages_mapped w1 r w' vmo vaddr fl (i + 1) n" by auto
  have "map_pages w as vmo vaddr fl i (Suc n) = Return (w', Inr ())"
    using e s1(1) r(1) by (simp add: result_bind_def)
  moreover have "walk (mem_of w') r x = (if unat vaddr div 4096 + i \<le> vpn x \<and> vpn x < unat vaddr div 4096 + i + Suc n
        then Some (leaf_entry (pm_paddr (the (map_of (vmo_pages vmo) ((vpn x - unat vaddr div 4096) * 4096)))) fl)
        else walk (mem_of w) r x)" for x
  proof (cases "vpn x = unat vaddr div 4096 + i")
    case True
    then have "walk (mem_of w') r x = walk (mem_of w1) r x" using r(2) by (simp add: pages_mapped_def)
    also have "\<dots> = Some ?e" using s1(2) True vpn by (simp add: map_step_def same_page_vpn)
    finally show ?thesis using True e by auto
  next
    case False
    then have "walk (mem_of w1) r x = walk (mem_of w) r x"
      using s1(2) vpn by (auto simp: map_step_def same_page_vpn)
    with r(2) False show ?thesis by (auto simp: pages_mapped_def)
  qed
  ultimately show ?case using r(2) s1(2) Suc.prems
    unfolding pages_mapped_def map_step_def by auto
qed

section \<open>Creating a space\<close>

text \<open>The active tables form a tree of table pages.\<close>

definition active_ok :: "aworld \<Rightarrow> bool" where
  "active_ok w \<longleftrightarrow> world_inv (vw w) \<and> kzone_ok (phys_of w) \<and> no_sharing (tables (mem_of w) (active_root w)) \<and>
     (\<forall>p t. tables (mem_of w) (active_root w) p = Some t \<longrightarrow> table_page (phys_of w) t)"

lemma copy_entries_halves:
  "copy_entries [256..<512] src dst (copy_entries [0..<256] src dst m) =
   fold (\<lambda>i m. pt_write m dst i (id (pt_read m src i))) [0..<512] m"
proof -
  have "[0..<512] = [0..<256] @ [256..<512 :: nat]" 
    using upt_add_eq_append[of 0 256 256] by (simp del: upt_rec_numeral)
  then show ?thesis by (simp only: copy_entries_def fold_append o_apply id_apply)
qed

lemma tables_same_root:
  assumes "\<And>i. i < 512 \<Longrightarrow> pt_read m f i = pt_read m k i"
  shows "tables m f p = (if p = [] then Some f else tables m k p)"
  using assms by (cases p) (auto simp: tables_def path_def Let_def)

lemma new_space:
  assumes ok: "active_ok w" and f: "low_page f" "\<not> table_page (phys_of w) f" "table_page st f"
    and st: "kernel_grows (phys_of w) st" "kernel_free (phys_of w) = Suc (kernel_free st)"
  defines "k \<equiv> active_root w"
  defines "m' \<equiv> copy_entries [256..<512] k f (copy_entries [0..<256] k f (mem_write (mem_of w) (unat f) (replicate 4096 0)))"
  shows "space_ok st (tables m' f) (tables m' k) \<and> tables m' k = tables (mem_of w) k \<and> (\<forall>va. walk m' f va = walk (mem_of w) k va) \<and>
    (\<forall>s q j. user_page (phys_of w) s q \<and> j < 4096 \<longrightarrow> m' (unat q + j) = mem_of w (unat q + j))"
proof -
  let ?m = "mem_of w" and ?mz = "mem_write (mem_of w) (unat f) (replicate 4096 0)"
  have K: "no_sharing (tables ?m k)" "\<And>p t. tables ?m k p = Some t \<Longrightarrow> table_page (phys_of w) t"
    using ok by (simp_all add: active_ok_def k_def)
  have low: "low_page t" "t \<noteq> f" if "tables ?m k p = Some t" for p t
    using K(2)[OF that] f(2) by (auto simp: table_page_def)
  have lk: "low_page k" "k \<noteq> f" using low[of "[]" k] by simp_all
  have m0: "pt_read ?mz t j = pt_read ?m t j" if "low_page t" "t \<noteq> f" "j < 512" for t j
    unfolding pt_read_def low_page_slot[OF that(1,3)]
    using low_pages_apart[OF that(1) f(1) that(2)] that(3)
    by (subst mem_read_write_other) auto
  from fill_table[OF lk(1) f(1) lk(2) order.refl, where g = id and m = ?mz, folded copy_entries_halves]
  have rd: "\<And>t j. low_page t \<Longrightarrow> j < 512 \<Longrightarrow> pt_read m' t j = (if t = f then pt_read ?mz k j else pt_read ?mz t j)"
    and out: "\<And>a. \<not> (unat f \<le> a \<and> a < unat f + 4096) \<Longrightarrow> m' a = ?mz a"
    by (simp_all add: m'_def)
  have same: "pt_read m' t j = pt_read ?m t j" if "low_page t" "t \<noteq> f" "j < 512" for t j
    using rd[of t j] m0[of t j] that by simp
  have TK: "tables m' k p = tables ?m k p" for p
    by (rule tables_cong) (use same low in blast)
  have TF: "tables m' f p = (if p = [] then Some f else tables ?m k p)" for p
    using tables_same_root[of m' f k p] rd[of f] rd[of k] lk f(1) m0 TK by simp
  have fresh: "tables ?m k p \<noteq> Some f" for p using low by blast
  have "space_ok st (tables m' f) (tables m' k)"
    using K f(3) st(1) fresh unfolding space_ok_def TK TF no_sharing_def kernel_grows_def
    by (auto split: if_splits)
  moreover have "walk m' f va = walk ?m k va" for va
  proof -
    have ne: "va_path va \<noteq> []" by (simp add: va_path_def)
    show ?thesis
      using TF[of "va_path va"] ne same[of _ "pt_index va"] low[of "va_path va"]
      by (auto simp: walk_def split: option.split)
  qed
  moreover have "m' (unat q + j) = ?m (unat q + j)" if q: "user_page (phys_of w) s q" "j < 4096" for s q j
  proof -
    have "low_page q" using ok q(1) zone_low_user_page by (auto simp: active_ok_def world_inv_def low_page_def)
    moreover have "q \<noteq> f" using table_page_not_user[OF f(3)] q(1) st(1) by (auto simp: kernel_grows_def)
    ultimately have "\<not> (unat f \<le> unat q + j \<and> unat q + j < unat f + 4096)"
      using low_pages_apart[of q f] f(1) q(2) by fastforce
    with out[of "unat q + j"] show ?thesis by (auto simp: mem_write_def)
  qed
  ultimately show ?thesis using TK by blast
qed

lemma AddressSpace_new_correct:
  assumes "active_ok w" "0 < kernel_free (phys_of w)"
  shows "\<exists>w' as r. AddressSpace_new w = Return (w', Inr as) \<and> ptb_phys (as_page_table as) = r \<and>
     ptb_virt (as_page_table as) = r \<and> aspace w' r \<and> cr3 w' = cr3 w \<and> next_vmo_id (vw w') = next_vmo_id (vw w) \<and>
     (\<forall>va. walk (mem_of w') r va = walk (mem_of w) (active_root w) va) \<and>
     (\<forall>s q. user_page (phys_of w') s q = user_page (phys_of w) s q) \<and>
     (\<forall>s q j. user_page (phys_of w) s q \<and> j < 4096 \<longrightarrow> mem_of w' (unat q + j) = mem_of w (unat q + j)) \<and>
     tables (mem_of w') (active_root w) = tables (mem_of w) (active_root w) \<and>
     kernel_free (phys_of w) = Suc (kernel_free (phys_of w'))"
proof -
  have "pmm_inv (phys_of w)" "zone_low (phys_of w)" "kzone_ok (phys_of w)"
    using assms(1) by (simp_all add: active_ok_def world_inv_def)
  from kernel_alloc_fresh[OF this assms(2)] obtain st f where
    f: "pmm_alloc_kernel_page (phys_of w) = Return (st, Inr f)" "kernel_grows (phys_of w) st" "low_page f"
      "\<not> table_page (phys_of w) f" "table_page st f" "kernel_free (phys_of w) = Suc (kernel_free st)" by blast
  let ?k = "active_root w"
  define m' where "m' = copy_entries [256..<512] ?k f (copy_entries [0..<256] ?k f (mem_write (mem_of w) (unat f) (replicate 4096 0)))"
  note n = new_space[OF assms(1) f(3-5) f(2,6), folded m'_def]
  have "low_page ?k" using assms(1) unfolding active_ok_def table_page_def by (metis tables_root)
  then have k: "paddr_to_vaddr (and (cr3 w) (not 0xFFF)) = ?k"
    using low_page_vaddr by (simp add: active_root_def pte_frame_def)
  define w' where "w' = w\<lparr>vw := (vw w)\<lparr>phys := st, memory := m'\<rparr>, next_as_id := next_as_id w + 1\<rparr>"
  have "AddressSpace_new w = Return (w', Inr \<lparr>as_id = next_as_id w,
      as_page_table = \<lparr>ptb_phys = f, ptb_virt = f, ptb_pages = 1, ptb_role = Independent, ptb_num_references = 0\<rparr>,
      as_mappings = [], as_ref_count = 1\<rparr>)"
    unfolding AddressSpace_new_def Let_def k f(1) w'_def m'_def
    by (simp add: low_page_vaddr[OF f(3)] alloc_as_id_def set_memory_def set_phys_def del: upt_rec_numeral)
  moreover have "space_ok st (tables m' f) (tables m' ?k)" using n by blast
  then have "aspace w' f"
    using f(2) assms(1) by (simp add: aspace_def w'_def active_root_def world_inv_def kernel_grows_def)
  ultimately show ?thesis using n f(2,6) by (simp add: w'_def kernel_grows_def) blast
qed

section \<open>A sample machine\<close>

text \<open>After boot, with empty active tables whose root is the page at \<open>0x1000\<close>.\<close>

definition sample_aworld :: aworld where
  "sample_aworld = \<lparr>vw = \<lparr>phys = pmm_boot True, memory = (\<lambda>a. 0), next_vmo_id = 1\<rparr>, cr3 = 0x1000, next_as_id = 1\<rparr>"

lemma boot_abs_kernel:
  assumes "64 \<le> j" "j < 3584"
  shows "pmm_abs (pmm_boot True) (0x200000 + of_nat j * PAGE_SIZE) = Some (Free, 5)"
proof -
  let ?q = "0x200000 + of_nat j * PAGE_SIZE :: u64"
  have "?q \<notin> (\<lambda>i. p_paddr (pages kernel_arena ! i)) ` {0..<64}"
  proof
    assume "?q \<in> (\<lambda>i. p_paddr (pages kernel_arena ! i)) ` {0..<64}"
    then obtain i where "i < 64" "?q = 0x200000 + of_nat i * PAGE_SIZE"
      by (auto simp: boot_arena_pages Page_new_def)
    then have "unat ?q = 0x200000 + i * 4096" using boot_addr_bounds(1)[of i] by (simp only:)
    with boot_addr_bounds(1)[OF assms(2)] \<open>i < 64\<close> assms(1) show False by simp
  qed
  moreover have "pmm_abs [kernel_arena, user_arena] ?q = Some (Free, 5)"
    unfolding pmm_abs_mem[OF boot_two_arenas_inv]
    using assms nth_mem[of j "pages kernel_arena"]
    by (intro bexI[of _ kernel_arena] bexI[of _ "pages kernel_arena ! j"])
      (simp_all add: boot_arena_pages Page_new_def)
  ultimately show ?thesis by (simp add: pmm_boot_abs)
qed

lemma boot_kernel_free: "3520 \<le> kernel_free (pmm_boot True)"
proof -
  let ?f = "\<lambda>j. 0x200000 + of_nat j * PAGE_SIZE :: u64"
  have "inj_on ?f {64..<3584}"
  proof (rule inj_onI)
    fix i j :: nat
    assume "i \<in> {64..<3584}" "j \<in> {64..<3584}" "?f i = ?f j"
    then have "0x200000 + i * 4096 = 0x200000 + j * 4096"
      using boot_addr_bounds(1)[of i] boot_addr_bounds(1)[of j] by (simp only: atLeastLessThan_iff)
    then show "i = j" by simp
  qed
  then have "card (?f ` {64..<3584}) = 3520" by (simp only: card_image card_atLeastLessThan)
  moreover have "?f j \<in> zone_avail PMM_ALLOC_FLAG_KERNEL (pmm_boot True)" if "j \<in> {64..<3584}" for j
    using boot_abs_kernel[of j] that unfolding zone_avail_def by (auto simp only: zone_excludes_def pmm_flags) simp_all
  then have "?f ` {64..<3584} \<subseteq> zone_avail PMM_ALLOC_FLAG_KERNEL (pmm_boot True)" by blast
  then have "card (?f ` {64..<3584}) \<le> kernel_free (pmm_boot True)"
    unfolding kernel_free_def by (rule card_mono[OF finite_zone_avail])
  ultimately show ?thesis by simp
qed

lemma boot_kzone: "kzone_ok (pmm_boot True)"
  unfolding kzone_ok_def low_page_def using boot_zone
  by (fastforce simp: zone_excludes_def pmm_flags word_unat_eq_iff)

lemma sample_active_tables: "tables (\<lambda>a. 0) r p = (if p = [] then Some r else None)"
proof -
  have "mem_read (\<lambda>a. 0 :: u8) x 8 = replicate 8 0" for x by (simp add: mem_read_def map_replicate_const)
  moreover have "le_nat (replicate 8 0) = 0" by (simp add: numeral_eq_Suc)
  ultimately have "pt_read (\<lambda>a. 0) r i = 0" for i by (simp add: pt_read_def)
  then show ?thesis by (cases p) (auto simp: tables_def pte_present_def)
qed

lemma sample_active_ok: "active_ok sample_aworld"
proof -
  have root: "active_root sample_aworld = 0x1000" by (simp add: active_root_def pte_frame_def sample_aworld_def)
  have "pmm_abs (pmm_boot True) 0x1000 = None"
    using boot_zone[of "0x1000"] by (cases "pmm_abs (pmm_boot True) 0x1000") auto
  then have "table_page (pmm_boot True) 0x1000" by (simp add: table_page_def low_page_def)
  moreover have "world_inv (vw sample_aworld)"
    using world_inv_sample by (simp add: world_inv_def sample_aworld_def sample_vworld_def)
  ultimately show ?thesis
    using boot_kzone by (simp add: active_ok_def root no_sharing_def) (simp add: sample_aworld_def sample_active_tables)
qed

lemma activate_ok:
  assumes "aspace w r" "ptb_phys (as_page_table as) = r"
  shows "active_ok (activate w as) \<and> active_root (activate w as) = r"
proof -
  have sp: "space_ok (phys_of w) (tables (mem_of w) r) (tables (mem_of w) (active_root w))"
    using assms(1) by (simp add: aspace_def)
  have "low_page r" using aspace_low[OF assms(1), of "[]" r] by simp
  then have "active_root (activate w as) = r" by (simp add: active_root_def activate_def assms(2) pte_frame_low)
  moreover have "vw (activate w as) = vw w" by (simp add: activate_def)
  ultimately show ?thesis using assms(1) sp by (auto simp: active_ok_def aspace_def space_ok_def)
qed

text \<open>A process that has one page mapped at \<open>0x400000\<close> is active.\<close>

lemma sample_process:
  "\<exists>w1 as w2. AddressSpace_new sample_aworld = Return (w1, Inr as) \<and> 3000 \<le> kernel_free (phys_of w1) \<and>
     aspace w1 (ptb_virt (as_page_table as)) \<and> ptb_phys (as_page_table as) = ptb_virt (as_page_table as) \<and>
     map_page w1 as 0x400000 0x2000000 2 = Return (w2, Inr ()) \<and> active_ok (activate w2 as) \<and>
     walk (mem_of (activate w2 as)) (active_root (activate w2 as)) 0x400000 = Some (leaf_entry 0x2000000 2) \<and>
     3000 \<le> kernel_free (phys_of (activate w2 as))"
proof -
  have "3520 \<le> kernel_free (phys_of sample_aworld)" using boot_kernel_free by (simp add: sample_aworld_def)
  with AddressSpace_new_correct[OF sample_active_ok] obtain w1 as r where
    n: "AddressSpace_new sample_aworld = Return (w1, Inr as)" "ptb_phys (as_page_table as) = r"
      "ptb_virt (as_page_table as) = r" "aspace w1 r" "3500 \<le> kernel_free (phys_of w1)" by auto
  from map_page_correct[OF n(4,3), of "0x400000" "0x2000000" 2] n(5) obtain w2 where
    m: "map_page w1 as 0x400000 0x2000000 2 = Return (w2, Inr ())"
      "map_step w1 r w2 0x400000 (leaf_entry 0x2000000 2) 3" by auto
  have a: "aspace w2 r" "3000 \<le> kernel_free (phys_of w2)"
    "walk (mem_of w2) r 0x400000 = Some (leaf_entry 0x2000000 2)"
    using m(2) n(5) by (auto simp: map_step_def same_page_vpn)
  have "vw (activate w2 as) = vw w2" by (simp add: activate_def)
  with activate_ok[OF a(1) n(2)] a n m(1) show ?thesis by auto
qed

section \<open>Properties\<close>

text \<open>
  Claim C31 (mapping a page): in a well-formed address space with three free
  kernel pages, mapping a page succeeds; afterwards the processor finds the new
  entry for every address of that page and the old entry, or none, for every
  other address, the space is still well formed, and no byte of a user page
  has changed.  The translation is that of 4 KiB pages: present entries above
  the last level are taken for tables.
\<close>

theorem map_page_translates:
  assumes "aspace w r" "ptb_virt (as_page_table as) = r" "3 \<le> kernel_free (phys_of w)"
  shows "\<exists>w'. map_page w as va pa fl = Return (w', Inr ()) \<and> aspace w' r \<and>
     (\<forall>va'. walk (mem_of w') r va' = (if vpn va' = vpn va then Some (leaf_entry pa fl) else walk (mem_of w) r va')) \<and>
     (\<forall>s q j. user_page (phys_of w) s q \<and> j < 4096 \<longrightarrow> mem_of w' (unat q + j) = mem_of w (unat q + j))"
  using map_page_correct[OF assms, of va pa fl] by (auto simp: map_step_def same_page_vpn)

theorem map_page_translates_witness:
  "\<exists>w as w'. aspace w (ptb_virt (as_page_table as)) \<and>
     map_page w as 0x400000 0x2000000 2 = Return (w', Inr ()) \<and>
     walk (mem_of w') (ptb_virt (as_page_table as)) 0x400123 = Some 0x2000007"
proof -
  from sample_process obtain w1 and as :: AddressSpace where
    s: "aspace w1 (ptb_virt (as_page_table as))" "3000 \<le> kernel_free (phys_of w1)" by blast
  then have "3 \<le> kernel_free (phys_of w1)" by simp
  from map_page_translates[OF s(1) refl this, of "0x400000" "0x2000000" 2] obtain w' where
    m: "map_page w1 as 0x400000 0x2000000 2 = Return (w', Inr ())"
      "\<forall>va'. vpn va' = vpn 0x400000 \<longrightarrow> walk (mem_of w') (ptb_virt (as_page_table as)) va' = Some (leaf_entry 0x2000000 2)"
    by auto
  have "vpn 0x400123 = vpn 0x400000" by (simp add: vpn_def)
  moreover have "leaf_entry 0x2000000 2 = 0x2000007" by (simp add: leaf_entry_def)
  ultimately show ?thesis using s(1) m by metis
qed

text \<open>
  Claim C32 (a new space overwrites the active one): if the active address space
  maps an address, then mapping a page at that address in a newly created space
  replaces the entry that the active space uses for it: the two spaces share
  their last-level tables.  A process that starts another program at its own
  load address loses its own pages.  The translation is that of 4 KiB pages.
\<close>

theorem new_space_overwrites_active:
  assumes "active_ok w" "4 \<le> kernel_free (phys_of w)" "walk (mem_of w) (active_root w) va = Some e"
  shows "\<exists>w1 as w2. AddressSpace_new w = Return (w1, Inr as) \<and> map_page w1 as va pa fl = Return (w2, Inr ()) \<and>
     walk (mem_of w2) (active_root w) va = Some (leaf_entry pa fl)"
proof -
  from AddressSpace_new_correct[OF assms(1)] assms(2) obtain w1 as r where
    n: "AddressSpace_new w = Return (w1, Inr as)" "ptb_virt (as_page_table as) = r" "aspace w1 r" "cr3 w1 = cr3 w"
      "tables (mem_of w1) (active_root w) = tables (mem_of w) (active_root w)" "3 \<le> kernel_free (phys_of w1)" by auto
  from map_page_correct[OF n(3,2,6), of va pa fl] obtain w2 where
    m: "map_page w1 as va pa fl = Return (w2, Inr ())" "map_step w1 r w2 va (leaf_entry pa fl) 3" by blast
  have act: "active_root w1 = active_root w" using n(4) by (rule active_root_cr3)
  have "tables (mem_of w1) (active_root w) (va_path va) \<noteq> None"
    using n(5) assms(3) by (auto simp: walk_def split: option.splits)
  with m(2) act have "walk (mem_of w2) (active_root w) va = Some (leaf_entry pa fl)"
    by (simp add: map_step_def same_page_vpn)
  with n(1) m(1) show ?thesis by blast
qed

theorem new_space_overwrites_active_witness:
  "\<exists>w w1 as w2. active_ok w \<and> walk (mem_of w) (active_root w) 0x400000 = Some 0x2000007 \<and>
     AddressSpace_new w = Return (w1, Inr as) \<and> map_page w1 as 0x400000 0x2005000 0 = Return (w2, Inr ()) \<and>
     walk (mem_of w2) (active_root w) 0x400000 = Some 0x2005005"
proof -
  have leaf: "leaf_entry 0x2000000 2 = 0x2000007" "leaf_entry 0x2005000 0 = 0x2005005" by (simp_all add: leaf_entry_def)
  from sample_process obtain w where
    w: "active_ok w" "3000 \<le> kernel_free (phys_of w)" "walk (mem_of w) (active_root w) 0x400000 = Some 0x2000007"
    unfolding leaf by blast
  then have "4 \<le> kernel_free (phys_of w)" by simp
  from new_space_overwrites_active[OF w(1) this w(3), of "0x2005000" 0] w(1,3) show ?thesis unfolding leaf by blast
qed

end
