(* ===== verification/Loader.thy ===== *)
theory Loader
  imports Elf Address_Space
begin

text \<open>
  The process loader of \<open>exec/process_loader.rs\<close>, which joins the executable
  loader, the address spaces and the virtual memory objects, and the memory
  that the loaded program sees through its page tables.
\<close>

section \<open>Model\<close>

record ProcessImage =
  pi_entry :: u64
  pi_address_space :: AddressSpace
  pi_stack_top :: u64
  pi_stack_size :: u64

fun map_segments :: "aworld \<Rightarrow> AddressSpace \<Rightarrow> LoadedSegment list \<Rightarrow> (aworld \<times> unit result) outcome" where
  "map_segments w as [] = Return (w, Inr ())"
| "map_segments w as (s # ss) =
     result_bind (map_vmo w as (seg_vmo s) (seg_vaddr s) (seg_size s) (seg_flags s)) (\<lambda>w1. map_segments w1 as ss)"

text \<open>The loop that writes zeros to the stack, \<open>n\<close> pages left and \<open>page_idx\<close> the next.\<close>

fun stack_pages :: "vworld \<Rightarrow> Vmo \<Rightarrow> nat \<Rightarrow> nat \<Rightarrow> nat \<Rightarrow> (vworld \<times> Vmo \<times> unit result) outcome" where
  "stack_pages w v sz page_idx 0 = Return (w, v, Inr ())"
| "stack_pages w v sz page_idx (Suc n) =
     (let offset = page_idx * 4096;
          bytes_to_write = (if offset + 4096 \<le> sz then replicate 4096 0 else replicate (sz - offset) 0)
      in outcome_bind (Vmo_write w v offset bytes_to_write) (\<lambda>(w1, v1, r).
           case r of
             Inl e \<Rightarrow> Return (w1, v1, Inl ''Failed to allocate stack pages'')
           | Inr _ \<Rightarrow> stack_pages w1 v1 sz (page_idx + 1) n))"

definition map_stack :: "aworld \<Rightarrow> AddressSpace \<Rightarrow> LoadedElf \<Rightarrow> (aworld \<times> ProcessImage result) outcome" where
  "map_stack w as l =
     (case Vmo_create (vw w) (stack_size l) 0 of
        (v1, Inl e) \<Rightarrow> Return (w\<lparr>vw := v1\<rparr>, Inl ''Failed to create stack VMO'')
      | (v1, Inr stack_vmo) \<Rightarrow>
          let sz = unat (stack_size l); num_pages = (sz + 4096 - 1) div 4096
          in outcome_bind (stack_pages v1 stack_vmo sz 0 num_pages) (\<lambda>(v2, stack_vmo2, r).
               case r of
                 Inl e \<Rightarrow> Return (w\<lparr>vw := v2\<rparr>, Inl e)
               | Inr _ \<Rightarrow>
                   let stack_bottom = and (stack_addr l - stack_size l) (not 0xFFF)
                   in outcome_bind (map_vmo (w\<lparr>vw := v2\<rparr>) as stack_vmo2 stack_bottom (stack_size l) 6) (\<lambda>(w3, r3).
                        case r3 of
                          Inl e \<Rightarrow> Return (w3, Inl ''Failed to map stack'')
                        | Inr _ \<Rightarrow> Return (w3, Inr \<lparr>pi_entry = entry l, pi_address_space = as,
                                     pi_stack_top = stack_addr l, pi_stack_size = stack_size l\<rparr>))))"

definition load_elf_process :: "aworld \<Rightarrow> u8 list \<Rightarrow> (aworld \<times> ProcessImage result) outcome" where
  "load_elf_process w elf_data =
     outcome_bind (load_elf (vw w) elf_data) (\<lambda>(v1, r).
       case r of
         Inl e \<Rightarrow> Return (w\<lparr>vw := v1\<rparr>, Inl e)
       | Inr loaded_elf \<Rightarrow>
           outcome_bind (AddressSpace_new (w\<lparr>vw := v1\<rparr>)) (\<lambda>(w2, r2).
             case r2 of
               Inl e \<Rightarrow> Return (w2, Inl ''Failed to create address space'')
             | Inr address_space \<Rightarrow>
                 outcome_bind (map_segments w2 address_space (segments loaded_elf)) (\<lambda>(w3, r3).
                   case r3 of
                     Inl e \<Rightarrow> Return (w3, Inl e)
                   | Inr _ \<Rightarrow> map_stack w3 address_space loaded_elf)))"

section \<open>Writes to user pages keep the page tables\<close>

lemma grows_table_page:
  assumes "grows st st'" "table_page st t"
  shows "table_page st' t"
proof -
  have g: "map_option snd (pmm_abs st' t) = map_option snd (pmm_abs st t)"
    "\<And>s fl. zone_excludes PMM_ALLOC_FLAG_USER fl \<Longrightarrow> (pmm_abs st' t = Some (s, fl)) = (pmm_abs st t = Some (s, fl))"
    using assms(1) by (simp_all add: grows_def)
  show ?thesis
  proof (cases "pmm_abs st t")
    case None
    then show ?thesis using g(1) assms(2) by (simp add: table_page_def)
  next
    case (Some x)
    then obtain s fl where x: "pmm_abs st t = Some (s, fl)" by (cases x) auto
    then have "s \<noteq> Free" "zone_excludes PMM_ALLOC_FLAG_USER fl" using assms(2) by (auto simp: table_page_def)
    with g(2)[of fl s] x assms(2) show ?thesis by (simp add: table_page_def)
  qed
qed

lemma grows_kzone:
  assumes "grows st st'" "kzone_ok st"
  shows "kzone_ok st'" and "kernel_free st' = kernel_free st"
proof -
  have flags: "map_option snd (pmm_abs st' q) = map_option snd (pmm_abs st q)" for q using assms(1) by (simp add: grows_def)
  have "low_page p \<and> p \<noteq> 0 \<and> zone_excludes PMM_ALLOC_FLAG_USER fl"
    if p: "pmm_abs st' p = Some (s, fl)" "\<not> zone_excludes PMM_ALLOC_FLAG_KERNEL fl" for p s fl
  proof -
    obtain s' where "pmm_abs st p = Some (s', fl)" using flags[of p] p(1) by (cases "pmm_abs st p") auto
    with assms(2) p(2) show ?thesis unfolding kzone_ok_def by blast
  qed
  then show k: "kzone_ok st'" unfolding kzone_ok_def by blast
  have "p \<in> zone_avail PMM_ALLOC_FLAG_KERNEL st' \<longleftrightarrow> p \<in> zone_avail PMM_ALLOC_FLAG_KERNEL st" for p
    using k assms unfolding zone_avail_def kzone_ok_def grows_def by blast
  then have "zone_avail PMM_ALLOC_FLAG_KERNEL st' = zone_avail PMM_ALLOC_FLAG_KERNEL st" by blast
  then show "kernel_free st' = kernel_free st" by (simp add: kernel_free_def)
qed

lemma user_only_pt_read:
  assumes "user_only v v'" "table_page (phys v) t" "i < 512"
  shows "pt_read (memory v') t i = pt_read (memory v) t i"
proof -
  have g: "grows (phys v) (phys v')" using assms(1) by (simp add: user_only_def)
  have t: "table_page (phys v') t" "low_page t" using grows_table_page[OF g assms(2)] by (simp_all add: table_page_def)
  have "memory v' a = memory v a" if a: "unat t \<le> a" "a < unat t + 4096" for a
  proof -
    have "\<not> (unat q \<le> a \<and> a < unat q + 4096)" if q: "user_page (phys v') s q" for q s
    proof -
      have "low_page q" using g q zone_low_user_page by (auto simp: grows_def low_page_def)
      moreover have "q \<noteq> t" using q table_page_not_user[OF t(1)] by blast
      ultimately show ?thesis using low_pages_apart[of q t] t(2) a by fastforce
    qed
    with assms(1) show ?thesis unfolding user_only_def by blast
  qed
  then have "mem_read (memory v') (unat t + 8 * i) 8 = mem_read (memory v) (unat t + 8 * i) 8"
    using assms(3) by (simp add: mem_read_def)
  then show ?thesis using t(2) assms(3) by (simp add: pt_read_def low_page_slot)
qed

lemma user_only_tables:
  assumes "user_only v v'" "\<And>p t. tables (memory v) r p = Some t \<Longrightarrow> table_page (phys v) t"
  shows "tables (memory v') r = tables (memory v) r" and "walk (memory v') r va = walk (memory v) r va"
proof -
  show t: "tables (memory v') r = tables (memory v) r"
  proof
    fix p show "tables (memory v') r p = tables (memory v) r p"
      by (rule tables_cong) (use user_only_pt_read[OF assms(1)] assms(2) in blast)
  qed
  show "walk (memory v') r va = walk (memory v) r va"
    using user_only_pt_read[OF assms(1) assms(2), of "va_path va" _ "pt_index va"]
    by (auto simp: walk_def t split: option.split)
qed

lemma user_only_active:
  assumes "active_ok w" "user_only (vw w) v'"
  shows "active_ok (w\<lparr>vw := v'\<rparr>)" and "kernel_free (phys v') = kernel_free (phys_of w)"
proof -
  have g: "grows (phys_of w) (phys v')" using assms(2) by (simp add: user_only_def)
  have "tables (memory v') (active_root w) = tables (mem_of w) (active_root w)"
    by (rule user_only_tables(1)[OF assms(2)]) (use assms(1) in \<open>simp add: active_ok_def\<close>)
  with assms(1) g grows_table_page[OF g] grows_kzone[OF g] show "active_ok (w\<lparr>vw := v'\<rparr>)"
    by (simp add: active_ok_def active_root_def world_inv_def grows_def)
  show "kernel_free (phys v') = kernel_free (phys_of w)"
    using grows_kzone[OF g] assms(1) by (simp add: active_ok_def)
qed

lemma user_only_aspace:
  assumes "aspace w r" "user_only (vw w) v'"
  shows "aspace (w\<lparr>vw := v'\<rparr>) r" and "kernel_free (phys v') = kernel_free (phys_of w)"
    and "walk (memory v') r va = walk (mem_of w) r va"
proof -
  have g: "grows (phys_of w) (phys v')" using assms(2) by (simp add: user_only_def)
  note sp = aspace_space[OF assms(1)]
  have R: "tables (memory v') r = tables (mem_of w) r" "walk (memory v') r va = walk (mem_of w) r va" for va
    using user_only_tables[OF assms(2), of r] space_ok_page[OF sp] by blast+
  have K: "tables (memory v') (active_root w) = tables (mem_of w) (active_root w)"
    using user_only_tables(1)[OF assms(2), of "active_root w"] space_ok_page[OF sp] by blast
  have "space_ok (phys v') (tables (mem_of w) r) (tables (mem_of w) (active_root w))"
    using sp grows_table_page[OF g] unfolding space_ok_def by blast
  with assms(1) g grows_kzone[OF g] R K show "aspace (w\<lparr>vw := v'\<rparr>) r"
    by (simp add: aspace_def active_root_def world_inv_def grows_def)
  show "kernel_free (phys v') = kernel_free (phys_of w)" using grows_kzone[OF g] assms(1) by (simp add: aspace_def)
  show "walk (memory v') r va = walk (mem_of w) r va" by (rule R)
qed

section \<open>What a program sees\<close>

definition vread :: "memory \<Rightarrow> u64 \<Rightarrow> u64 \<Rightarrow> u8 option" where
  "vread m r va = (case walk m r va of None \<Rightarrow> None
     | Some e \<Rightarrow> Some (m (unat (paddr_to_vaddr (pte_frame e)) + unat va mod 4096)))"

text \<open>The first \<open>n\<close> bytes from \<open>vaddr\<close> on are mapped to the pages of an object.\<close>

definition maps_object :: "memory \<Rightarrow> u64 \<Rightarrow> u64 \<Rightarrow> nat \<Rightarrow> Vmo \<Rightarrow> u32 \<Rightarrow> bool" where
  "maps_object m r vaddr n v fl \<longleftrightarrow> (\<forall>i < n. walk m r (vaddr + of_nat i) =
     Some (leaf_entry (pm_paddr (the (map_of (vmo_pages v) (page_key i)))) fl))"

lemma pte_frame_bit:
  assumes "x = 1 \<or> x = 2 \<or> x = 4"
  shows "pte_frame (or e x) = pte_frame e"
proof -
  have "and x (not 0xFFF :: u64) = 0" using assms by auto
  then show ?thesis unfolding pte_frame_def by (simp only: bit.conj_disj_distrib2 or.right_neutral)
qed

lemma leaf_entry_frame:
  assumes "low_page pa"
  shows "pte_frame (leaf_entry pa fl) = pa"
proof -
  have "pte_frame (leaf_entry pa fl) = pte_frame pa" by (simp add: leaf_entry_def Let_def pte_frame_bit)
  also have "unat (pte_frame pa) = unat pa"
    using assms div_mult_mod_eq[of "unat pa" 4096] by (simp add: unat_pte_frame low_page_def)
  then have "pte_frame pa = pa" by (simp add: word_unat_eq_iff)
  finally show ?thesis .
qed

lemma page_count_less: "i div 4096 < page_count n \<longleftrightarrow> i div 4096 * 4096 < n"
proof -
  have "i div 4096 < page_count n \<longleftrightarrow> Suc (i div 4096) * 4096 \<le> n + 4095"
    unfolding page_count_def Suc_le_eq[symmetric] by (simp only: less_eq_div_iff_mult_less_eq zero_less_numeral)
  also have "\<dots> \<longleftrightarrow> i div 4096 * 4096 < n" by auto
  finally show ?thesis .
qed

lemma page_range_split:
  assumes "unat vaddr mod 4096 = 0" "i < n" "unat vaddr + page_count n * 4096 \<le> 2 ^ 48"
  shows "vpn (vaddr + of_nat i) = unat vaddr div 4096 + i div 4096"
    and "unat (vaddr + of_nat i) mod 4096 = i mod 4096" and "i div 4096 < page_count n"
proof -
  have "i div 4096 * 4096 < n" using assms(2) div_mult_mod_eq[of i 4096] by linarith
  then show pc: "i div 4096 < page_count n" by (simp only: page_count_less)
  then have "(i div 4096 + 1) * 4096 \<le> page_count n * 4096" by (intro mult_le_mono1) simp
  then have "unat vaddr + (i div 4096 + 1) * 4096 \<le> 2 ^ 48" using assms(3) by linarith
  note v = vpn_page[OF assms(1) this, of "i mod 4096"]
  show "vpn (vaddr + of_nat i) = unat vaddr div 4096 + i div 4096" using v(1) by simp
  have "unat (vaddr + of_nat i) = unat vaddr + i div 4096 * 4096 + i mod 4096" using v(2) by simp
  then show "unat (vaddr + of_nat i) mod 4096 = i mod 4096" using assms(1) by (simp add: mod_add_eq[symmetric])
qed

lemma maps_object_read:
  assumes "maps_object (memory v) r vaddr n o1 fl" "vmo_inv v o1" "i < n"
    and "unat vaddr mod 4096 = 0" "unat vaddr + page_count n * 4096 \<le> 2 ^ 48"
    and "map_of (vmo_pages o1) (page_key i) \<noteq> None"
  shows "vread (memory v) r (vaddr + of_nat i) = Some (byte_at (memory v) (vmo_pages o1) i)"
proof -
  obtain e where e: "map_of (vmo_pages o1) (page_key i) = Some e" using assms(6) by auto
  have ok: "pages_ok (vmo_pages o1)" "low_page (pm_paddr e)"
    using assms(2) e by (auto simp: vmo_inv_def pages_ok_def page_ok_def low_page_def)
  have "walk (memory v) r (vaddr + of_nat i) = Some (leaf_entry (pm_paddr e) fl)"
    using assms(1,3) e by (simp add: maps_object_def)
  then have "vread (memory v) r (vaddr + of_nat i) = Some (memory v (unat (pm_paddr e) + i mod 4096))"
    using page_range_split(2)[OF assms(4,3,5)] ok(2) by (simp add: vread_def leaf_entry_frame low_page_vaddr)
  then show ?thesis using loc_low[OF ok(1) e] e by (simp add: byte_at_def)
qed

text \<open>Mapping an object that has its first \<open>n\<close> bytes committed.\<close>

lemma map_vmo_object:
  assumes ok: "aspace w r" and as: "ptb_virt (as_page_table as) = r"
    and v: "vmo_inv (vw w) v" "\<forall>i < unat sz. map_of (vmo_pages v) (page_key i) \<noteq> None"
    and va: "unat vaddr mod 4096 = 0" "unat vaddr + page_count (unat sz) * 4096 \<le> 2 ^ 48"
    and free: "3 * page_count (unat sz) \<le> kernel_free (phys_of w)"
  shows "\<exists>w'. map_vmo w as v vaddr sz fl = Return (w', Inr ()) \<and>
     pages_mapped w r w' v vaddr fl 0 (page_count (unat sz)) \<and> maps_object (mem_of w') r vaddr (unat sz) v fl"
proof -
  let ?n = "page_count (unat sz)"
  have "?n * 4096 \<le> 2 ^ 48" using va(2) by simp
  then have "unat sz + 4095 < 2 ^ 64"
    using div_mult_mod_eq[of "unat sz + 4095" 4096] mod_less_divisor[of 4096 "unat sz + 4095"]
    unfolding page_count_def by simp
  then have "unat (sz + 4095) = unat sz + 4095" by (simp add: unat_word_ariths)
  moreover have "sz + 4096 - 1 = sz + 4095" by simp
  ultimately have n: "unat ((sz + 4096 - 1) div 4096) = ?n"
    unfolding page_count_def by (simp only: unat_div) simp
  have "unat (and vaddr 0xFFF) = unat vaddr mod 4096"
  proof -
    have "(0xFFF :: u64) = mask 12" by (simp add: mask_eq_exp_minus_1)
    then have "and vaddr 0xFFF = take_bit 12 vaddr" by (simp only: take_bit_eq_mask)
    then show ?thesis by (simp add: take_bit_eq_mod unat_mod)
  qed
  then have al: "and vaddr 0xFFF = 0" using va(1) by (simp add: word_unat_eq_iff)
  have "\<exists>e. map_of (vmo_pages v) (j * 4096) = Some e \<and> pm_present e" if "0 \<le> j \<and> j < 0 + ?n" for j
  proof -
    have "j * 4096 < unat sz"
      using that page_count_less[of "j * 4096" "unat sz"] by simp
    then show ?thesis using v by (fastforce simp: page_key_def vmo_inv_def pages_ok_def page_ok_def)
  qed
  then have "\<forall>j. 0 \<le> j \<and> j < 0 + ?n \<longrightarrow> (\<exists>e. map_of (vmo_pages v) (j * 4096) = Some e \<and> pm_present e)" by blast
  from map_pages_correct[OF ok as free va(1) _ this, of fl] va(2) obtain w' where
    m: "map_pages w as v vaddr fl 0 ?n = Return (w', Inr ())" "pages_mapped w r w' v vaddr fl 0 ?n" by auto
  have "walk (mem_of w') r (vaddr + of_nat i) = Some (leaf_entry (pm_paddr (the (map_of (vmo_pages v) (page_key i)))) fl)"
    if "i < unat sz" for i
    using m(2) page_range_split(1,3)[OF va(1) that va(2)] by (simp add: pages_mapped_def page_key_def)
  with m al n show ?thesis by (simp add: map_vmo_def maps_object_def)
qed

section \<open>Mapping all segments\<close>

text \<open>
  A change of the page tables alone: user pages keep their state and their
  bytes, the address space at \<open>r\<close> stays well formed, and at most \<open>3 k\<close> kernel
  pages are taken.
\<close>

definition tables_step :: "aworld \<Rightarrow> u64 \<Rightarrow> aworld \<Rightarrow> nat \<Rightarrow> bool" where
  "tables_step w r w' k \<longleftrightarrow> aspace w' r \<and> cr3 w' = cr3 w \<and> (\<forall>s q. user_page (phys_of w') s q = user_page (phys_of w) s q) \<and>
     (\<forall>s q j. user_page (phys_of w) s q \<and> j < 4096 \<longrightarrow> mem_of w' (unat q + j) = mem_of w (unat q + j)) \<and>
     kernel_free (phys_of w) \<le> kernel_free (phys_of w') + 3 * k"

lemma tables_step_refl: "aspace w r \<Longrightarrow> tables_step w r w 0"
  by (simp add: tables_step_def)

lemma tables_step_trans: "tables_step w r w1 k \<Longrightarrow> tables_step w1 r w2 l \<Longrightarrow> tables_step w r w2 (k + l)"
  by (auto simp: tables_step_def)

lemma pages_mapped_step: "pages_mapped w r w' v vaddr fl i n \<Longrightarrow> tables_step w r w' n"
  unfolding pages_mapped_def tables_step_def by blast

lemma tables_step_user_free:
  assumes "tables_step w r w' k"
  shows "user_free (phys_of w') = user_free (phys_of w)"
proof -
  have "zone_avail PMM_ALLOC_FLAG_USER (phys_of w') = zone_avail PMM_ALLOC_FLAG_USER (phys_of w)"
    using assms unfolding set_eq_iff zone_avail_user_page tables_step_def by blast
  then show ?thesis by (simp add: user_free_def)
qed

lemma user_pages_kept:
  assumes "\<forall>s q. user_page (phys v') s q = user_page (phys v) s q"
    and "\<forall>s q j. user_page (phys v) s q \<and> j < 4096 \<longrightarrow> memory v' (unat q + j) = memory v (unat q + j)"
    and u: "vmo_inv v u"
  shows "vmo_inv v' u" and "byte_at (memory v') (vmo_pages u) i = byte_at (memory v) (vmo_pages u) i"
proof -
  show "vmo_inv v' u" using assms by (simp add: vmo_inv_def)
  show "byte_at (memory v') (vmo_pages u) i = byte_at (memory v) (vmo_pages u) i"
  proof (cases "map_of (vmo_pages u) (page_key i)")
    case (Some e)
    have "pages_ok (vmo_pages u)" "user_page (phys v) Allocated (pm_paddr e)"
      using u frames_Some[OF Some] by (simp_all add: vmo_inv_def)
    with assms(2) loc_low[OF this(1) Some] Some show ?thesis by (simp add: byte_at_def)
  qed (simp add: byte_at_def)
qed

lemma tables_step_vmo:
  assumes "tables_step w r w' k" "vmo_inv (vw w) u"
  shows "vmo_inv (vw w') u" and "byte_at (mem_of w') (vmo_pages u) i = byte_at (mem_of w) (vmo_pages u) i"
  using assms(1) user_pages_kept[OF _ _ assms(2), of "vw w'"] unfolding tables_step_def by blast+

lemma tables_step_loaded:
  assumes "tables_step w r w' k" "segment_loaded (vw w) d ph s"
  shows "segment_loaded (vw w') d ph s"
  using assms tables_step_vmo[OF assms(1), of "seg_vmo s"] by (simp add: segment_loaded_def)

text \<open>The page numbers of a segment, and segments that share none.\<close>

definition segment_vpns :: "ProgramHeader \<Rightarrow> nat set" where
  "segment_vpns ph = {unat (p_vaddr ph) div 4096 ..< unat (p_vaddr ph) div 4096 + segment_pages ph}"

fun segments_apart :: "ProgramHeader list \<Rightarrow> bool" where
  "segments_apart [] = True"
| "segments_apart (ph # phs) = ((\<forall>q \<in> set phs. segment_vpns ph \<inter> segment_vpns q = {}) \<and> segments_apart phs)"

definition segment_placed :: "ProgramHeader \<Rightarrow> bool" where
  "segment_placed ph \<longleftrightarrow> unat (p_vaddr ph) mod 4096 = 0 \<and> unat (p_vaddr ph) + segment_pages ph * 4096 \<le> 0x7FFFFFFFE000"

definition segment_mapped :: "aworld \<Rightarrow> u64 \<Rightarrow> u8 list \<Rightarrow> ProgramHeader \<Rightarrow> LoadedSegment \<Rightarrow> bool" where
  "segment_mapped w r d ph s \<longleftrightarrow> segment_loaded (vw w) d ph s \<and>
     maps_object (mem_of w) r (p_vaddr ph) (unat (mem_size ph)) (seg_vmo s) (p_flags ph)"

lemma segment_byte_vpn:
  assumes "segment_placed ph" "i < unat (mem_size ph)"
  shows "vpn (p_vaddr ph + of_nat i) \<in> segment_vpns ph"
  using page_range_split[of "p_vaddr ph" i "unat (mem_size ph)"] assms
  by (simp add: segment_placed_def segment_vpns_def segment_pages_def)

lemma segment_mapped_kept:
  assumes "segment_mapped w r d ph s" "segment_loaded (vw w') d ph s" "segment_placed ph"
    and "\<And>va. vpn va \<in> segment_vpns ph \<Longrightarrow> walk (mem_of w') r va = walk (mem_of w) r va"
  shows "segment_mapped w' r d ph s"
  using assms segment_byte_vpn[OF assms(3)] by (simp add: segment_mapped_def maps_object_def)

lemma map_segments_correct:
  fixes as :: AddressSpace
  assumes "aspace w r" "ptb_virt (as_page_table as) = r" "list_all2 (segment_loaded (vw w) d) phs ss"
    and "\<forall>ph \<in> set phs. segment_fits d ph \<and> segment_placed ph" "segments_apart phs"
    and "3 * sum_list (map segment_pages phs) \<le> kernel_free (phys_of w)"
  shows "\<exists>w'. map_segments w as ss = Return (w', Inr ()) \<and> tables_step w r w' (sum_list (map segment_pages phs)) \<and>
     list_all2 (segment_mapped w' r d) phs ss \<and>
     (\<forall>va. vpn va \<notin> \<Union> (segment_vpns ` set phs) \<longrightarrow> walk (mem_of w') r va = walk (mem_of w) r va)"
  using assms(1,4-,3)
proof (induction phs arbitrary: w ss)
  case Nil
  then show ?case by (simp add: tables_step_refl)
next
  case (Cons ph phs w ss0)
  from Cons.prems(5) obtain s ss where ss0: "ss0 = s # ss" and hyps: "segment_loaded (vw w) d ph s"
    "list_all2 (segment_loaded (vw w) d) phs ss" by (auto simp: list_all2_Cons1)
  let ?v = "seg_vmo s" and ?n = "segment_pages ph"
  have s: "seg_vaddr s = p_vaddr ph" "seg_flags s = p_flags ph" "seg_size s = mem_size ph" "vmo_inv (vw w) ?v"
    "\<forall>i < unat (mem_size ph). map_of (vmo_pages ?v) (page_key i) \<noteq> None"
    using hyps(1) Cons.prems(2) segment_image_length[of d ph] unfolding segment_loaded_def by force+
  have ph: "segment_placed ph" using Cons.prems(2) by simp
  have va: "unat (p_vaddr ph) mod 4096 = 0" "unat (p_vaddr ph) + page_count (unat (mem_size ph)) * 4096 \<le> 2 ^ 48"
    "3 * page_count (unat (mem_size ph)) \<le> kernel_free (phys_of w)"
    using ph Cons.prems(4) by (simp_all add: segment_placed_def segment_pages_def)
  from map_vmo_object[OF Cons.prems(1) assms(2) s(4,5) va, of "p_flags ph"] obtain w1 where
    m: "map_vmo w as ?v (p_vaddr ph) (mem_size ph) (p_flags ph) = Return (w1, Inr ())"
      "pages_mapped w r w1 ?v (p_vaddr ph) (p_flags ph) 0 ?n"
      "maps_object (mem_of w1) r (p_vaddr ph) (unat (mem_size ph)) ?v (p_flags ph)"
    by (auto simp: segment_pages_def)
  note st = pages_mapped_step[OF m(2)]
  have out: "walk (mem_of w1) r x = walk (mem_of w) r x" if "vpn x \<notin> segment_vpns ph" for x
    using m(2) that by (auto simp: pages_mapped_def segment_vpns_def)
  have l1: "list_all2 (segment_loaded (vw w1) d) phs ss"
    using hyps(2) by (rule list_all2_mono) (rule tables_step_loaded[OF st])
  have h1: "segment_mapped w1 r d ph s"
    using tables_step_loaded[OF st hyps(1)] m(3) by (simp add: segment_mapped_def)
  have a1: "aspace w1 r" "3 * sum_list (map segment_pages phs) \<le> kernel_free (phys_of w1)"
    using st Cons.prems(4) by (simp_all add: tables_step_def)
  from Cons.IH[OF a1(1) _ _ a1(2) l1] Cons.prems(2,3) obtain w2 where
    t: "map_segments w1 as ss = Return (w2, Inr ())" "tables_step w1 r w2 (sum_list (map segment_pages phs))"
      "list_all2 (segment_mapped w2 r d) phs ss"
      "\<forall>x. vpn x \<notin> \<Union> (segment_vpns ` set phs) \<longrightarrow> walk (mem_of w2) r x = walk (mem_of w1) r x"
    by auto
  have "segment_mapped w2 r d ph s"
  proof (rule segment_mapped_kept[OF h1 _ ph])
    show "segment_loaded (vw w2) d ph s" using h1 tables_step_loaded[OF t(2)] by (simp add: segment_mapped_def)
    fix x assume "vpn x \<in> segment_vpns ph"
    then show "walk (mem_of w2) r x = walk (mem_of w1) r x" using t(4) Cons.prems(3) by auto
  qed
  moreover have "map_segments w as (s # ss) = Return (w2, Inr ())"
    using m(1) t(1) s by (simp add: result_bind_def)
  ultimately show ?case unfolding ss0 using tables_step_trans[OF st t(2)] t(3,4) out by auto
qed

section \<open>The stack\<close>

lemma roomy_pages: "roomy w v \<Longrightarrow> length (vmo_pages v) \<le> page_count (unat (vmo_size v))"
  using missing_keys_room(2)[of "vmo_pages v" "unat (vmo_size v)" 0 0] unat_le_64[of "vmo_size v"] by (simp add: roomy_def vmo_inv_def)

lemma stack_filled:
  assumes "world_inv v" "1 \<le> user_free (phys v)"
  shows "\<exists>v1 o1 v2 o2. Vmo_create v 4096 0 = (v1, Inr o1) \<and> stack_pages v1 o1 4096 0 1 = Return (v2, o2, Inr ()) \<and>
     filled v2 o2 (replicate 4096 0) \<and> user_only v v2 \<and> world_kept v v2 (vmo_pages o2) \<and>
     user_free (phys v) \<le> user_free (phys v2) + 1"
proof -
  from Vmo_create_filled[OF assms(1), of 4096 0] assms(2) obtain v1 o1 where
    c: "Vmo_create v 4096 0 = (v1, Inr o1)" "filled v1 o1 []" "vmo_pages o1 = []"
      "unat (vmo_size o1) = 4096" "phys v1 = phys v" "memory v1 = memory v" by (auto simp: page_count_def)
  from fill_write[OF c(2), of "replicate 4096 0"] c(4) obtain v2 o2 where
    f: "Vmo_write v1 o1 0 (replicate 4096 0) = Return (v2, o2, Inr 4096)" "fill_step v1 o1 v2 o2 (replicate 4096 0)" by auto
  have "stack_pages v1 o1 4096 0 1 = Return (v2, o2, Inr ())" using f(1) by (simp add: Let_def)
  moreover have "filled v2 o2 (replicate 4096 0)" using f(2) by (simp add: fill_step_def)
  moreover have "user_only v v2" using f(2) c(5,6) by (simp add: fill_step_def user_only_def)
  moreover have "world_kept v v2 (vmo_pages o2)"
    using f(2) c(3,5,6) by (auto simp: fill_step_def others_kept_def world_kept_def vmo_inv_def frames_def)
  moreover have "user_free (phys v) \<le> user_free (phys v2) + 1"
  proof -
    have "roomy v2 o2" "vmo_size o2 = vmo_size o1"
      and e: "user_free (phys v1) + length (vmo_pages o1) = user_free (phys v2) + length (vmo_pages o2)"
      using f(2) by (simp_all add: fill_step_def filled_def)
    then have "length (vmo_pages o2) \<le> page_count 4096" using roomy_pages[of v2 o2] c(4) by simp
    then have "length (vmo_pages o2) \<le> 1" by (simp add: page_count_def)
    with e c(3,5) show ?thesis by simp
  qed
  ultimately show ?thesis using c(1) by blast
qed

definition stack_vpn :: nat where "stack_vpn = 0x7FFFFFFFE"

text \<open>The stack is one writable page, \<open>q\<close>, of the user zone.\<close>

definition stack_page :: "aworld \<Rightarrow> u64 \<Rightarrow> u64 \<Rightarrow> bool" where
  "stack_page w r q \<longleftrightarrow> user_page (phys_of w) Allocated q \<and>
     (\<forall>i < 4096. walk (mem_of w) r (0x7FFFFFFFE000 + of_nat i) = Some (leaf_entry q 6))"

lemma maps_object_one_page:
  assumes "maps_object (mem_of w) r 0x7FFFFFFFE000 4096 o1 6" "vmo_inv (vw w) o1" "map_of (vmo_pages o1) (page_key 0) \<noteq> None"
  shows "\<exists>q. stack_page w r q"
proof -
  obtain e where e: "map_of (vmo_pages o1) (page_key 0) = Some e" using assms(3) by auto
  have "walk (mem_of w) r (0x7FFFFFFFE000 + of_nat i) = Some (leaf_entry (pm_paddr e) 6)" if "i < 4096" for i
  proof -
    have "page_key i = page_key 0" using that by (simp add: page_key_def)
    then have "map_of (vmo_pages o1) (page_key i) = Some e" using e by metis
    with assms(1) that show ?thesis by (simp add: maps_object_def)
  qed
  moreover have "user_page (phys_of w) Allocated (pm_paddr e)" using assms(2) frames_Some[OF e] by (simp add: vmo_inv_def)
  ultimately show ?thesis unfolding stack_page_def by blast
qed

lemma map_stack_correct:
  fixes as :: AddressSpace
  assumes "aspace w r" "ptb_virt (as_page_table as) = r" "1 \<le> user_free (phys_of w)" "3 \<le> kernel_free (phys_of w)"
    and l: "stack_addr l = 0x7FFFFFFFF000" "stack_size l = 4096"
  shows "\<exists>w'. map_stack w as l = Return (w', Inr \<lparr>pi_entry = entry l, pi_address_space = as,
        pi_stack_top = 0x7FFFFFFFF000, pi_stack_size = 4096\<rparr>) \<and> aspace w' r \<and> cr3 w' = cr3 w \<and>
     kernel_free (phys_of w) \<le> kernel_free (phys_of w') + 3 \<and> user_free (phys_of w) \<le> user_free (phys_of w') + 1 \<and>
     (\<exists>q. stack_page w' r q) \<and> (\<forall>i < 4096. vread (mem_of w') r (0x7FFFFFFFE000 + of_nat i) = Some 0) \<and>
     (\<forall>d ph s. segment_loaded (vw w) d ph s \<longrightarrow> segment_loaded (vw w') d ph s) \<and>
     (\<forall>va. vpn va \<noteq> stack_vpn \<longrightarrow> walk (mem_of w') r va = walk (mem_of w) r va)"
proof -
  from stack_filled[of "vw w"] assms(1,3) obtain v1 o1 v2 o2 where
    s: "Vmo_create (vw w) 4096 0 = (v1, Inr o1)" "stack_pages v1 o1 4096 0 1 = Return (v2, o2, Inr ())"
      "filled v2 o2 (replicate 4096 0)" "user_only (vw w) v2" "world_kept (vw w) v2 (vmo_pages o2)"
      "user_free (phys_of w) \<le> user_free (phys v2) + 1"
    by (auto simp: aspace_def)
  let ?w = "w\<lparr>vw := v2\<rparr>" and ?b = "0x7FFFFFFFE000 :: u64"
  note u = user_only_aspace[OF assms(1) s(4)]
  have o2: "vmo_inv v2 o2" "\<forall>i < 4096. map_of (vmo_pages o2) (page_key i) \<noteq> None"
    "\<forall>i < 4096. byte_at (memory v2) (vmo_pages o2) i = 0"
    using s(3) by (simp_all add: filled_def roomy_def)
  have pc: "page_count 4096 = 1" by (simp add: page_count_def)
  from map_vmo_object[OF u(1) assms(2), of o2 4096 ?b 6] o2(1,2) u(2) assms(4) obtain w' where
    m: "map_vmo ?w as o2 ?b 4096 6 = Return (w', Inr ())" "pages_mapped ?w r w' o2 ?b 6 0 1"
      "maps_object (mem_of w') r ?b 4096 o2 6" by (auto simp: pc)
  note st = pages_mapped_step[OF m(2)]
  have k: "vmo_inv (vw w') o2" "\<And>i. byte_at (mem_of w') (vmo_pages o2) i = byte_at (memory v2) (vmo_pages o2) i"
    using tables_step_vmo[OF st, of o2] o2(1) by simp_all
  have "vread (mem_of w') r (?b + of_nat i) = Some 0" if "i < 4096" for i
    using maps_object_read[OF m(3) k(1) that] that o2(2,3) k(2) by (simp add: pc)
  moreover have "segment_loaded (vw w') d ph sg" if "segment_loaded (vw w) d ph sg" for d ph sg
    using tables_step_loaded[OF st] world_kept_loaded[OF s(5) that] by simp
  moreover have "walk (mem_of w') r va = walk (mem_of w) r va" if "vpn va \<noteq> stack_vpn" for va
    using m(2) that u(3)[of va] by (auto simp: pages_mapped_def stack_vpn_def)
  moreover have "map_stack w as l = Return (w', Inr \<lparr>pi_entry = entry l, pi_address_space = as,
        pi_stack_top = 0x7FFFFFFFF000, pi_stack_size = 4096\<rparr>)"
    using s(1,2) m(1) l by (simp add: map_stack_def Let_def)
  moreover have "aspace w' r" "cr3 w' = cr3 w" "kernel_free (phys_of w) \<le> kernel_free (phys_of w') + 3"
    using st u(2) by (simp_all add: tables_step_def)
  moreover have "user_free (phys_of w) \<le> user_free (phys_of w') + 1" using tables_step_user_free[OF st] s(6) by simp
  moreover have "\<exists>q. stack_page w' r q" using maps_object_one_page[OF m(3) k(1)] o2(2) by simp
  ultimately show ?thesis by blast
qed

section \<open>Loading a process\<close>

text \<open>
  A file that the loader accepts: the executable parses, it has three or more
  segments that are not empty, they are page aligned, below the stack and apart
  from each other, and there are free pages for their data and their tables.
\<close>

definition process_loadable :: "aworld \<Rightarrow> u8 list \<Rightarrow> ElfHeader \<Rightarrow> ProgramHeader list \<Rightarrow> bool" where
  "process_loadable w d h phs \<longleftrightarrow> active_ok w \<and> loadable (vw w) d h phs \<and>
     3 \<le> length (nonempty_segments (load_headers phs)) \<and>
     (\<forall>ph \<in> set (load_headers phs). segment_placed ph) \<and> segments_apart (nonempty_segments (load_headers phs)) \<and>
     sum_list (map segment_pages (load_headers phs)) < user_free (phys_of w) \<and>
     3 * sum_list (map segment_pages (load_headers phs)) + 4 \<le> kernel_free (phys_of w)"

text \<open>
  The program sees a segment: reading any of its bytes through the page tables
  gives the byte of the file, or zero past the end of the file's data.
\<close>

definition sees_segment :: "memory \<Rightarrow> u64 \<Rightarrow> u8 list \<Rightarrow> ProgramHeader \<Rightarrow> bool" where
  "sees_segment m r d ph \<longleftrightarrow> (\<forall>i < unat (mem_size ph). vread m r (p_vaddr ph + of_nat i) = Some (segment_image d ph ! i))"

lemma segment_mapped_sees:
  assumes "segment_mapped w r d ph s" "segment_fits d ph" "segment_placed ph"
  shows "sees_segment (mem_of w) r d ph"
proof -
  have s: "vmo_inv (vw w) (seg_vmo s)" "maps_object (mem_of w) r (p_vaddr ph) (unat (mem_size ph)) (seg_vmo s) (p_flags ph)"
    "\<And>i. i < unat (mem_size ph) \<Longrightarrow> map_of (vmo_pages (seg_vmo s)) (page_key i) \<noteq> None \<and>
       byte_at (mem_of w) (vmo_pages (seg_vmo s)) i = segment_image d ph ! i"
    using assms(1) segment_image_length[OF assms(2)] by (simp_all add: segment_mapped_def segment_loaded_def)
  show ?thesis unfolding sees_segment_def
    using maps_object_read[OF s(2,1)] s(3) assms(3) by (simp add: segment_placed_def segment_pages_def)
qed

lemma nonempty_pages: "sum_list (map segment_pages (nonempty_segments phs)) \<le> sum_list (map segment_pages phs)"
  by (induction phs) (auto simp: nonempty_segments_def)

lemma stack_apart: "segment_placed ph \<Longrightarrow> stack_vpn \<notin> segment_vpns ph"
  by (auto simp: segment_placed_def segment_vpns_def stack_vpn_def)

lemma mapped_then_sees:
  assumes "list_all2 (segment_mapped w r d) phs ss" "ph \<in> set phs" "segment_fits d ph" "segment_placed ph"
    and "\<forall>d ph s. segment_loaded (vw w) d ph s \<longrightarrow> segment_loaded (vw w') d ph s"
    and "\<forall>va. vpn va \<noteq> stack_vpn \<longrightarrow> walk (mem_of w') r va = walk (mem_of w) r va"
  shows "sees_segment (mem_of w') r d ph"
proof -
  obtain s where "segment_mapped w r d ph s"
    using assms(1,2) by (auto simp: list_all2_conv_all_nth in_set_conv_nth)
  with assms(4-) have "segment_mapped w' r d ph s"
    using segment_mapped_kept[of w r d ph s w'] stack_apart[of ph] by (metis segment_mapped_def)
  with assms(3,4) show ?thesis by (blast intro: segment_mapped_sees)
qed

text \<open>
  What a successful load gives: an image with the entry point and the stack, an
  address space at \<open>r\<close> in which the segments and the stack are seen, and a
  bound on the pages it takes.
\<close>

definition process_loaded :: "aworld \<Rightarrow> u8 list \<Rightarrow> ElfHeader \<Rightarrow> ProgramHeader list \<Rightarrow> aworld \<Rightarrow> ProcessImage \<Rightarrow> u64 \<Rightarrow> bool" where
  "process_loaded w d h phs w' img r \<longleftrightarrow> pi_entry img = e_entry h \<and>
     pi_stack_top img = 0x7FFFFFFFF000 \<and> pi_stack_size img = 4096 \<and>
     ptb_phys (as_page_table (pi_address_space img)) = r \<and> ptb_virt (as_page_table (pi_address_space img)) = r \<and>
     aspace w' r \<and> cr3 w' = cr3 w \<and>
     kernel_free (phys_of w) \<le> kernel_free (phys_of w') + 3 * sum_list (map segment_pages (load_headers phs)) + 6 \<and>
     user_free (phys_of w) \<le> user_free (phys_of w') + sum_list (map segment_pages (load_headers phs)) + 1 \<and>
     (\<exists>q. stack_page w' r q) \<and>
     (\<forall>ph \<in> set (nonempty_segments (load_headers phs)). sees_segment (mem_of w') r d ph) \<and>
     (\<forall>i < 4096. vread (mem_of w') r (0x7FFFFFFFE000 + of_nat i) = Some 0)"

lemma load_elf_process_correct:
  assumes "process_loadable w d h phs"
  shows "\<exists>w' img r. load_elf_process w d = Return (w', Inr img) \<and> process_loaded w d h phs w' img r"
proof -
  let ?ns = "nonempty_segments (load_headers phs)" and ?k = "sum_list (map segment_pages (load_headers phs))"
  have ld: "loadable (vw w) d h phs" "active_ok w" "?k < user_free (phys_of w)" "3 * ?k + 4 \<le> kernel_free (phys_of w)"
    using assms by (simp_all add: process_loadable_def)
  have ns: "\<forall>ph \<in> set ?ns. segment_fits d ph \<and> segment_placed ph" "segments_apart ?ns" "3 \<le> length ?ns"
    using assms by (auto simp: process_loadable_def loadable_def nonempty_segments_def)
  from load_segments_correct[of "vw w" "load_headers phs" d] ld(1) obtain v1 ss where
    s: "load_segments (vw w) d (load_headers phs) = Return (v1, Inr ss)" "user_only (vw w) v1"
      "list_all2 (segment_loaded v1 d) ?ns ss" "user_free (phys_of w) \<le> user_free (phys v1) + ?k"
    by (auto simp: loadable_def)
  let ?l = "\<lparr>entry = e_entry h, segments = ss, stack_addr = 0x7FFFFFFFF000, stack_size = 4096\<rparr>" and ?w1 = "w\<lparr>vw := v1\<rparr>"
  have le: "load_elf (vw w) d = Return (v1, Inr ?l)"
    using load_elf_loadable[OF ld(1) s(1)] list_all2_lengthD[OF s(3)] ns(3) by simp
  note u = user_only_active[OF ld(2) s(2)]
  from AddressSpace_new_correct[OF u(1)] u(2) ld(4) obtain w2 as r where
    n: "AddressSpace_new ?w1 = Return (w2, Inr as)" "ptb_phys (as_page_table as) = r" "ptb_virt (as_page_table as) = r"
      "tables_step ?w1 r w2 1" "cr3 w2 = cr3 w" "3 * ?k + 3 \<le> kernel_free (phys_of w2)"
    by (fastforce simp: tables_step_def)
  have l2: "list_all2 (segment_loaded (vw w2) d) ?ns ss"
    using s(3) by (rule list_all2_mono) (use tables_step_loaded[OF n(4)] in simp)
  have "aspace w2 r" "3 * sum_list (map segment_pages ?ns) \<le> kernel_free (phys_of w2)"
    using n(4,6) nonempty_pages[of "load_headers phs"] by (simp_all add: tables_step_def)
  from map_segments_correct[OF this(1) n(3) l2 ns(1,2) this(2)] obtain w3 where
    m: "map_segments w2 as ss = Return (w3, Inr ())" "tables_step w2 r w3 (sum_list (map segment_pages ?ns))"
      "list_all2 (segment_mapped w3 r d) ?ns ss" by blast
  have w3: "aspace w3 r" "1 \<le> user_free (phys_of w3)" "3 \<le> kernel_free (phys_of w3)" "cr3 w3 = cr3 w"
    using m(2) n(5,6) s(4) ld(3) nonempty_pages[of "load_headers phs"]
      tables_step_user_free[OF n(4)] tables_step_user_free[OF m(2)] by (simp_all add: tables_step_def)
  from map_stack_correct[OF w3(1) n(3) w3(2,3), of ?l] obtain w4 where
    t: "map_stack w3 as ?l = Return (w4, Inr \<lparr>pi_entry = e_entry h, pi_address_space = as,
          pi_stack_top = 0x7FFFFFFFF000, pi_stack_size = 4096\<rparr>)" "aspace w4 r" "cr3 w4 = cr3 w3"
      "kernel_free (phys_of w3) \<le> kernel_free (phys_of w4) + 3"
      "user_free (phys_of w3) \<le> user_free (phys_of w4) + 1" "\<exists>q. stack_page w4 r q"
      "\<forall>i < 4096. vread (mem_of w4) r (0x7FFFFFFFE000 + of_nat i) = Some 0"
      "\<forall>d ph s. segment_loaded (vw w3) d ph s \<longrightarrow> segment_loaded (vw w4) d ph s"
      "\<forall>va. vpn va \<noteq> stack_vpn \<longrightarrow> walk (mem_of w4) r va = walk (mem_of w3) r va" by auto
  have "sees_segment (mem_of w4) r d ph" if "ph \<in> set ?ns" for ph
    using mapped_then_sees[OF m(3) that _ _ t(8,9)] ns(1) that by blast
  moreover have "kernel_free (phys_of w) \<le> kernel_free (phys_of w4) + 3 * ?k + 6"
    using u(2) n(4) m(2) t(4) nonempty_pages[of "load_headers phs"] by (simp add: tables_step_def)
  moreover have "user_free (phys_of w) \<le> user_free (phys_of w4) + ?k + 1"
    using s(4) t(5) tables_step_user_free[OF n(4)] tables_step_user_free[OF m(2)] by simp
  ultimately have "process_loaded w d h phs w4 \<lparr>pi_entry = e_entry h, pi_address_space = as,
          pi_stack_top = 0x7FFFFFFFF000, pi_stack_size = 4096\<rparr> r"
    using t(2,3,6,7) n(2,3) w3(4) by (simp add: process_loaded_def)
  moreover have "load_elf_process w d = Return (w4, Inr \<lparr>pi_entry = e_entry h, pi_address_space = as,
          pi_stack_top = 0x7FFFFFFFF000, pi_stack_size = 4096\<rparr>)"
    using le n(1) m(1) t(1) by (simp add: load_elf_process_def)
  ultimately show ?thesis by blast
qed

section \<open>A sample process\<close>

lemma sample_process_loadable:
  "process_loadable sample_aworld (sample_elf sample_segments) (sample_header 3) sample_segments"
  "nonempty_segments (load_headers sample_segments) = sample_segments"
proof -
  have l: "loadable sample_vworld (sample_elf sample_segments) (sample_header 3) sample_segments"
    and n: "nonempty_segments (load_headers sample_segments) = sample_segments"
    using sample_loadable[of sample_segments] sample_segments_shape by simp_all
  have same: "phys_of sample_aworld = phys sample_vworld" by (simp add: sample_aworld_def sample_vworld_def)
  with l have l': "loadable (vw sample_aworld) (sample_elf sample_segments) (sample_header 3) sample_segments"
    by (simp add: loadable_def world_inv_def)
  have lh: "load_headers sample_segments = sample_segments"
    by (simp add: load_headers_def sample_segments_def sample_segment_def PT_LOAD_def)
  have "3520 \<le> kernel_free (phys_of sample_aworld)" using boot_kernel_free by (simp add: sample_aworld_def)
  moreover have "user_free (phys_of sample_aworld) = 24576" using user_free_sample same by simp
  moreover have pages: "map segment_pages sample_segments = [1, 2, 1]"
    by (simp add: sample_segments_def sample_segment_def segment_pages_def page_count_def unat_mem_size)
  moreover have "segments_apart sample_segments" "\<forall>ph \<in> set sample_segments. segment_placed ph"
    using pages by (simp_all add: sample_segments_def sample_segment_def segment_vpns_def segment_placed_def)
  ultimately show "process_loadable sample_aworld (sample_elf sample_segments) (sample_header 3) sample_segments"
    using sample_active_ok l' lh n by (simp add: process_loadable_def sample_segments_shape)
  show "nonempty_segments (load_headers sample_segments) = sample_segments" by (rule n)
qed

section \<open>Properties\<close>

text \<open>
  Claim C33 (a process sees its program): loading an executable that is well
  formed, whose segments are page aligned, apart and below the stack, and for
  which there is memory, returns an image with the entry point of the file.
  When its address space is activated, reading through the page tables gives
  the bytes of the file at the address of every segment and zeros up to the
  size in memory, and the page below the stack top reads as zeros.  The page
  tables are those of 4 KiB pages, without large pages.
\<close>

theorem process_image_correct:
  assumes "process_loadable w d h phs"
  shows "\<exists>w' img. load_elf_process w d = Return (w', Inr img) \<and> pi_entry img = e_entry h \<and>
     pi_stack_top img = 0x7FFFFFFFF000 \<and> pi_stack_size img = 4096 \<and> cr3 w' = cr3 w \<and>
     (let a = activate w' (pi_address_space img) in active_ok a \<and>
        (\<forall>ph \<in> set (nonempty_segments (load_headers phs)). sees_segment (mem_of a) (active_root a) d ph) \<and>
        (\<forall>i < 4096. vread (mem_of a) (active_root a) (0x7FFFFFFFE000 + of_nat i) = Some 0))"
proof -
  from load_elf_process_correct[OF assms] obtain w' img r where
    l: "load_elf_process w d = Return (w', Inr img)" "process_loaded w d h phs w' img r" by blast
  have p: "ptb_phys (as_page_table (pi_address_space img)) = r" "aspace w' r" using l(2) by (simp_all add: process_loaded_def)
  have "vw (activate w' (pi_address_space img)) = vw w'" by (simp add: activate_def)
  with l activate_ok[OF p(2,1)] show ?thesis
    by (intro exI[of _ w'] exI[of _ img]) (simp add: Let_def process_loaded_def)
qed

theorem process_image_correct_witness:
  "\<exists>w' img. load_elf_process sample_aworld (sample_elf sample_segments) = Return (w', Inr img) \<and>
     pi_entry img = 0x400000 \<and> vread (mem_of w') (pte_frame (ptb_phys (as_page_table (pi_address_space img)))) 0x600001 = Some 9"
proof -
  let ?d = "sample_elf sample_segments" and ?ph = "sample_segment 0x600000 4"
  have two: "replicate 2 (0 :: u8) = [0, 0]" by (simp add: numeral_2_eq_2)
  have im: "segment_image ?d ?ph = [7, 9, 0, 0]" "unat (mem_size ?ph) = 4" "p_vaddr ?ph = 0x600000"
    using sample_segments_shape(2)
    by (simp_all add: segment_image_def sample_segment_def sample_elf_tail two mem_size_def)
  from process_image_correct[OF sample_process_loadable(1)] sample_process_loadable(2) obtain w' img where
    l: "load_elf_process sample_aworld ?d = Return (w', Inr img)" "pi_entry img = 0x400000"
      "sees_segment (mem_of (activate w' (pi_address_space img))) (active_root (activate w' (pi_address_space img))) ?d ?ph"
    by (auto simp: sample_header_def Let_def sample_segments_def)
  from l(3) im have "vread (mem_of w') (pte_frame (ptb_phys (as_page_table (pi_address_space img)))) (0x600000 + of_nat 1) = Some 9"
    unfolding sees_segment_def by (auto simp: activate_def active_root_def dest!: spec[of _ 1])
  with l show ?thesis by auto
qed

end
