(* ===== verification/Ramdisk.thy ===== *)
theory Ramdisk
  imports Bytes Pmm
begin

text \<open>
  The read-only file system: the build script that packs the files into one
  image (\<open>build.rs\<close>), the kernel code that reads the image
  (\<open>fs/ramdisk.rs\<close>), and the file operations over it (\<open>fs/vfs.rs\<close>).  The
  kernel follows offsets of the image through raw pointers; a read that leaves
  the image is \<open>None\<close> here.  File names and contents are byte lists.
\<close>

section \<open>Error numbers\<close>

datatype Errno = Success | EPERM | ENOENT | ESRCH | EINTR | EIO | ENXIO | E2BIG | ENOEXEC | EBADF
  | ECHILD | EAGAIN | ENOMEM | EACCES | EFAULT | EBUSY | EEXIST | ENODEV | ENOTDIR | EISDIR | EINVAL
  | ENFILE | EMFILE | ESPIPE | EROFS | EMLINK | EPIPE | EDOM | ERANGE | ENOSYS

fun errno_value :: "Errno \<Rightarrow> int" where
  "errno_value Success = 0" | "errno_value EPERM = 1" | "errno_value ENOENT = 2" | "errno_value ESRCH = 3"
| "errno_value EINTR = 4" | "errno_value EIO = 5" | "errno_value ENXIO = 6" | "errno_value E2BIG = 7"
| "errno_value ENOEXEC = 8" | "errno_value EBADF = 9" | "errno_value ECHILD = 10" | "errno_value EAGAIN = 11"
| "errno_value ENOMEM = 12" | "errno_value EACCES = 13" | "errno_value EFAULT = 14" | "errno_value EBUSY = 16"
| "errno_value EEXIST = 17" | "errno_value ENODEV = 19" | "errno_value ENOTDIR = 20" | "errno_value EISDIR = 21"
| "errno_value EINVAL = 22" | "errno_value ENFILE = 23" | "errno_value EMFILE = 24" | "errno_value ESPIPE = 29"
| "errno_value EROFS = 30" | "errno_value EMLINK = 31" | "errno_value EPIPE = 32" | "errno_value EDOM = 33"
| "errno_value ERANGE = 34" | "errno_value ENOSYS = 38"

fun rxstatus_to_errno :: "RxStatus \<Rightarrow> Errno" where
  "rxstatus_to_errno OK = Success"
| "rxstatus_to_errno ERR_INVALID_ARGS = EINVAL"
| "rxstatus_to_errno ERR_NO_MEMORY = ENOMEM"
| "rxstatus_to_errno ERR_NOT_FOUND = ENOENT"
| "rxstatus_to_errno ERR_NOT_SUPPORTED = ENOSYS"
| "rxstatus_to_errno _ = EIO"

section \<open>The image\<close>

record RamdiskFile =
  rf_name_offset :: nat
  rf_data_offset :: nat
  rf_size :: nat
  rf_pad :: nat

record RamdiskSuperblock =
  sb_magic :: nat
  sb_num_files :: nat
  sb_files_offset :: nat

definition superblock_is_valid :: "RamdiskSuperblock \<Rightarrow> bool" where
  "superblock_is_valid sb \<longleftrightarrow> sb_magic sb = 0x52555458"

record Ramdisk =
  rd_data :: "u8 list"
  rd_superblock :: RamdiskSuperblock

definition read_superblock :: "u8 list \<Rightarrow> RamdiskSuperblock option" where
  "read_superblock d =
     (case (read_le 4 d 0, read_le 4 d 4, read_le 4 d 8) of
        (Some m, Some n, Some f) \<Rightarrow> Some \<lparr>sb_magic = m, sb_num_files = n, sb_files_offset = f\<rparr>
      | _ \<Rightarrow> None)"

text \<open>Both branches of \<open>from_embedded_data\<close> return the same value, whether the magic number is right or not.\<close>

definition from_embedded_data :: "u8 list \<Rightarrow> Ramdisk option" where
  "from_embedded_data d =
     (case read_superblock d of
        None \<Rightarrow> None
      | Some sb \<Rightarrow>
          if \<not> superblock_is_valid sb then Some \<lparr>rd_data = d, rd_superblock = sb\<rparr>
          else Some \<lparr>rd_data = d, rd_superblock = sb\<rparr>)"

definition read_header :: "u8 list \<Rightarrow> nat \<Rightarrow> RamdiskFile option" where
  "read_header d off =
     (case (read_le 4 d off, read_le 4 d (off + 4), read_le 4 d (off + 8), read_le 4 d (off + 12)) of
        (Some a, Some b, Some c, Some e) \<Rightarrow>
          Some \<lparr>rf_name_offset = a, rf_data_offset = b, rf_size = c, rf_pad = e\<rparr>
      | _ \<Rightarrow> None)"

text \<open>The loop \<open>while *name_ptr.add(len) != 0 && len < 256\<close>.\<close>

function name_len :: "u8 list \<Rightarrow> nat \<Rightarrow> nat \<Rightarrow> nat option" where
  "name_len d off len =
     (if off + len \<ge> length d then None
      else if d ! (off + len) \<noteq> 0 \<and> len < 256 then name_len d off (len + 1)
      else Some len)"
  by pat_completeness auto
termination by (relation "measure (\<lambda>(d, off, len). 256 - len)") auto

declare name_len.simps [simp del]

definition name_at :: "u8 list \<Rightarrow> nat \<Rightarrow> u8 list option" where
  "name_at d off = (case name_len d off 0 of None \<Rightarrow> None | Some len \<Rightarrow> window d off len)"

definition strip_slash :: "u8 list \<Rightarrow> u8 list" where
  "strip_slash nm = (case nm of [] \<Rightarrow> [] | b # bs \<Rightarrow> if b = 0x2F then bs else nm)"

text \<open>The loop over the headers; \<open>n\<close> of them remain, the next at \<open>off\<close>.\<close>

fun find_from :: "nat \<Rightarrow> u8 list \<Rightarrow> nat \<Rightarrow> u8 list \<Rightarrow> RamdiskFile option option" where
  "find_from 0 d off nm = Some None"
| "find_from (Suc n) d off nm =
     (case read_header d off of
        None \<Rightarrow> None
      | Some f \<Rightarrow>
          (case name_at d (rf_name_offset f) of
             None \<Rightarrow> None
           | Some fname \<Rightarrow> if fname = nm then Some (Some f) else find_from n d (off + 16) nm))"

definition find_file :: "Ramdisk \<Rightarrow> u8 list \<Rightarrow> RamdiskFile option option" where
  "find_file rd nm =
     find_from (sb_num_files (rd_superblock rd)) (rd_data rd) (sb_files_offset (rd_superblock rd)) (strip_slash nm)"

text \<open>The bytes copied into a buffer of \<open>buf_len\<close> bytes; their number is the result.\<close>

definition read_file :: "Ramdisk \<Rightarrow> RamdiskFile \<Rightarrow> nat \<Rightarrow> u8 list option" where
  "read_file rd f buf_len =
     (let to_copy = min buf_len (rf_size f)
      in if to_copy = 0 then Some [] else window (rd_data rd) (rf_data_offset f) to_copy)"

fun list_from :: "nat \<Rightarrow> u8 list \<Rightarrow> nat \<Rightarrow> u8 list list option" where
  "list_from 0 d off = Some []"
| "list_from (Suc n) d off =
     (case read_header d off of
        None \<Rightarrow> None
      | Some f \<Rightarrow>
          (case (name_at d (rf_name_offset f), list_from n d (off + 16)) of
             (Some nm, Some ns) \<Rightarrow> Some (nm # ns)
           | _ \<Rightarrow> None))"

definition list_files :: "Ramdisk \<Rightarrow> u8 list list option" where
  "list_files rd = list_from (sb_num_files (rd_superblock rd)) (rd_data rd) (sb_files_offset (rd_superblock rd))"

definition file_size :: "RamdiskFile \<Rightarrow> nat" where "file_size f = rf_size f"
definition file_count :: "Ramdisk \<Rightarrow> nat" where "file_count rd = sb_num_files (rd_superblock rd)"
definition ramdisk_is_empty :: "Ramdisk \<Rightarrow> bool" where "ramdisk_is_empty rd \<longleftrightarrow> sb_num_files (rd_superblock rd) = 0"

text \<open>The offset of an open file, with the saturating addition of \<open>FileOffset::add\<close>.\<close>

record FileOffset = fof_current :: u64

definition FileOffset_new :: FileOffset where "FileOffset_new = \<lparr>fof_current = 0\<rparr>"

definition FileOffset_set :: "FileOffset \<Rightarrow> u64 \<Rightarrow> FileOffset" where
  "FileOffset_set fo off = fo\<lparr>fof_current := off\<rparr>"

definition FileOffset_add :: "FileOffset \<Rightarrow> u64 \<Rightarrow> FileOffset" where
  "FileOffset_add fo delta =
     fo\<lparr>fof_current := (if unat (fof_current fo) + unat delta < 2 ^ 64 then fof_current fo + delta else - 1)\<rparr>"

section \<open>The build script\<close>

definition superblock_bytes :: "RamdiskSuperblock \<Rightarrow> u8 list" where
  "superblock_bytes sb = nat_le 4 (sb_magic sb) @ nat_le 4 (sb_num_files sb) @ nat_le 4 (sb_files_offset sb)"

definition header_bytes :: "RamdiskFile \<Rightarrow> u8 list" where
  "header_bytes f = nat_le 4 (rf_name_offset f) @ nat_le 4 (rf_data_offset f) @ nat_le 4 (rf_size f) @ nat_le 4 (rf_pad f)"

text \<open>The first pass: \<open>data_offset\<close> advances past each name, but not past the contents.\<close>

fun ramdisk_entries :: "nat \<Rightarrow> (u8 list \<times> u8 list) list \<Rightarrow> RamdiskFile list" where
  "ramdisk_entries data_offset [] = []"
| "ramdisk_entries data_offset ((nm, contents) # files) =
     (let next_offset = (data_offset + length nm + 1) mod 2 ^ 32
      in \<lparr>rf_name_offset = data_offset, rf_data_offset = next_offset,
          rf_size = length contents mod 2 ^ 32, rf_pad = 0\<rparr> # ramdisk_entries next_offset files)"

definition build_ramdisk :: "(u8 list \<times> u8 list) list \<Rightarrow> u8 list" where
  "build_ramdisk files =
     (let files_offset = 12;
          names_offset = (files_offset + 16 * length files) mod 2 ^ 32;
          entries = ramdisk_entries names_offset files
      in superblock_bytes \<lparr>sb_magic = 0x52555458, sb_num_files = length entries mod 2 ^ 32, sb_files_offset = files_offset\<rparr>
         @ concat (map header_bytes entries)
         @ concat (map (\<lambda>(nm, contents). nm @ [0] @ contents) files))"

section \<open>Reading back\<close>

lemma length_superblock_bytes [simp]: "length (superblock_bytes sb) = 12"
  by (simp add: superblock_bytes_def)

lemma length_header_bytes [simp]: "length (header_bytes f) = 16"
  by (simp add: header_bytes_def)

definition header_fits :: "RamdiskFile \<Rightarrow> bool" where
  "header_fits f \<longleftrightarrow> rf_name_offset f < 2 ^ 32 \<and> rf_data_offset f < 2 ^ 32 \<and> rf_size f < 2 ^ 32 \<and> rf_pad f < 2 ^ 32"

lemma read_header_bytes:
  assumes "header_fits f" "length pre = off"
  shows "read_header (pre @ header_bytes f @ post) off = Some f"
proof -
  let ?a = "nat_le 4 (rf_name_offset f)" and ?b = "nat_le 4 (rf_data_offset f)"
    and ?c = "nat_le 4 (rf_size f)" and ?e = "nat_le 4 (rf_pad f)"
  have d: "pre @ header_bytes f @ post = pre @ ?a @ (?b @ ?c @ ?e @ post)"
    "pre @ header_bytes f @ post = (pre @ ?a) @ ?b @ (?c @ ?e @ post)"
    "pre @ header_bytes f @ post = (pre @ ?a @ ?b) @ ?c @ (?e @ post)"
    "pre @ header_bytes f @ post = (pre @ ?a @ ?b @ ?c) @ ?e @ post"
    by (simp_all add: header_bytes_def)
  have fits: "rf_name_offset f < 256 ^ 4" "rf_data_offset f < 256 ^ 4" "rf_size f < 256 ^ 4" "rf_pad f < 256 ^ 4"
    using assms(1) by (simp_all add: header_fits_def)
  have "read_le 4 (pre @ header_bytes f @ post) off = Some (rf_name_offset f)"
    unfolding d(1) by (rule read_le_append) (use assms(2) fits in simp_all)
  moreover have "read_le 4 (pre @ header_bytes f @ post) (off + 4) = Some (rf_data_offset f)"
    unfolding d(2) by (rule read_le_append) (use assms(2) fits in simp_all)
  moreover have "read_le 4 (pre @ header_bytes f @ post) (off + 8) = Some (rf_size f)"
    unfolding d(3) by (rule read_le_append) (use assms(2) fits in simp_all)
  moreover have "read_le 4 (pre @ header_bytes f @ post) (off + 12) = Some (rf_pad f)"
    unfolding d(4) by (rule read_le_append) (use assms(2) fits in simp_all)
  ultimately show ?thesis by (simp add: read_header_def)
qed

lemma read_superblock_bytes:
  assumes "sb_magic sb < 2 ^ 32" "sb_num_files sb < 2 ^ 32" "sb_files_offset sb < 2 ^ 32"
  shows "read_superblock (superblock_bytes sb @ post) = Some sb"
proof -
  let ?a = "nat_le 4 (sb_magic sb)" and ?b = "nat_le 4 (sb_num_files sb)" and ?c = "nat_le 4 (sb_files_offset sb)"
  have d: "superblock_bytes sb @ post = [] @ ?a @ (?b @ ?c @ post)"
    "superblock_bytes sb @ post = ?a @ ?b @ (?c @ post)" "superblock_bytes sb @ post = (?a @ ?b) @ ?c @ post"
    by (simp_all add: superblock_bytes_def)
  have "read_le 4 (superblock_bytes sb @ post) 0 = Some (sb_magic sb)"
    unfolding d(1) by (rule read_le_append) (use assms in simp_all)
  moreover have "read_le 4 (superblock_bytes sb @ post) 4 = Some (sb_num_files sb)"
    unfolding d(2) by (rule read_le_append) (use assms in simp_all)
  moreover have "read_le 4 (superblock_bytes sb @ post) 8 = Some (sb_files_offset sb)"
    unfolding d(3) by (rule read_le_append) (use assms in simp_all)
  ultimately show ?thesis by (simp add: read_superblock_def)
qed

lemma name_len_zero:
  assumes "0 \<notin> set m" "length pre = off"
  shows "len \<le> length m \<Longrightarrow> len \<le> 256 \<Longrightarrow> name_len (pre @ m @ 0 # post) off len = Some (min 256 (length m))"
proof (induction "length m - len" arbitrary: len)
  case 0
  then have "len = length m" by simp
  then have "(pre @ m @ 0 # post) ! (off + len) = 0" using assms(2) by (simp add: nth_append)
  with 0 \<open>len = length m\<close> assms(2) show ?case by (subst name_len.simps) simp
next
  case (Suc k)
  then have lt: "len < length m" by simp
  have nth: "(pre @ m @ 0 # post) ! (off + len) = m ! len" using assms(2) lt by (simp add: nth_append)
  have nz: "m ! len \<noteq> 0" using assms(1) lt by (metis nth_mem)
  show ?case
  proof (cases "len < 256")
    case True
    have "name_len (pre @ m @ 0 # post) off len = name_len (pre @ m @ 0 # post) off (len + 1)"
      using nth nz True assms(2) lt by (subst name_len.simps) simp
    also have "\<dots> = Some (min 256 (length m))" using Suc.hyps(2) lt True by (intro Suc.hyps(1)) simp_all
    finally show ?thesis .
  next
    case False
    then have "len = 256" using Suc.prems by simp
    with nth assms(2) lt show ?thesis by (subst name_len.simps) simp
  qed
qed

lemma name_at_zero:
  assumes "0 \<notin> set m" "length pre = off"
  shows "name_at (pre @ m @ 0 # post) off = Some (take 256 m)"
  using name_len_zero[OF assms, of 0 post] assms(2) by (simp add: name_at_def window_def min_def)

lemma strip_slash_plain: "(\<forall>bs. nm \<noteq> 0x2F # bs) \<Longrightarrow> strip_slash nm = nm"
  by (cases nm) (auto simp: strip_slash_def)

lemma strip_slash_slash: "strip_slash (0x2F # nm) = nm"
  by (simp add: strip_slash_def)

lemma embedded_image:
  assumes "files \<noteq> []" "12 + 16 * length files < 2 ^ 32"
  defines "es \<equiv> ramdisk_entries (12 + 16 * length files) files"
  shows "from_embedded_data (build_ramdisk files) =
    Some \<lparr>rd_data = build_ramdisk files,
      rd_superblock = \<lparr>sb_magic = 0x52555458, sb_num_files = length es mod 2 ^ 32, sb_files_offset = 12\<rparr>\<rparr>"
proof -
  let ?sb = "\<lparr>sb_magic = 0x52555458, sb_num_files = length es mod 2 ^ 32, sb_files_offset = 12\<rparr>"
  have "build_ramdisk files = superblock_bytes ?sb @ concat (map header_bytes es) @
      concat (map (\<lambda>(nm, contents). nm @ [0] @ contents) files)"
    using assms(2) by (simp add: build_ramdisk_def Let_def es_def)
  then have "read_superblock (build_ramdisk files) = Some ?sb"
    using read_superblock_bytes[of ?sb] by simp
  then show ?thesis by (simp add: from_embedded_data_def)
qed

lemma single_file_image:
  assumes "0 \<notin> set nm" "length nm \<le> 256" "\<forall>bs. nm \<noteq> 0x2F # bs" "29 + length nm + length c < 2 ^ 32"
  shows "\<exists>rd f. from_embedded_data (build_ramdisk [(nm, c)]) = Some rd \<and> superblock_is_valid (rd_superblock rd) \<and>
    list_files rd = Some [nm] \<and> find_file rd nm = Some (Some f) \<and> find_file rd (0x2F # nm) = Some (Some f) \<and>
    file_size f = length c \<and> (\<forall>n. read_file rd f n = Some (take n c)) \<and>
    drop (rf_data_offset f) (rd_data rd) = c \<and> rf_data_offset f + length c = length (rd_data rd) \<and> rf_size f = length c"
proof -
  define f where "f = \<lparr>rf_name_offset = 28, rf_data_offset = 29 + length nm, rf_size = length c, rf_pad = 0\<rparr>"
  have fits: "header_fits f" using assms(4) by (simp add: header_fits_def f_def)
  have es: "ramdisk_entries (12 + 16 * length [(nm, c)]) [(nm, c)] = [f]"
    using assms(4) by (simp add: f_def Let_def)
  let ?sb = "\<lparr>sb_magic = 0x52555458, sb_num_files = Suc 0, sb_files_offset = 12\<rparr>" and ?d = "build_ramdisk [(nm, c)]"
  have d: "?d = superblock_bytes ?sb @ header_bytes f @ (nm @ 0 # c)"
    using assms(4) by (simp add: build_ramdisk_def Let_def f_def)
  let ?rd = "\<lparr>rd_data = ?d, rd_superblock = ?sb\<rparr>"
  have emb: "from_embedded_data ?d = Some ?rd" using embedded_image[of "[(nm, c)]"] es by simp
  have hdr: "read_header ?d 12 = Some f" unfolding d by (rule read_header_bytes[OF fits]) simp
  have d2: "?d = (superblock_bytes ?sb @ header_bytes f) @ nm @ 0 # c" using d by simp
  have nm: "name_at ?d 28 = Some nm"
    unfolding d2 using name_at_zero[OF assms(1), of "superblock_bytes ?sb @ header_bytes f" 28 c] assms(2) by simp
  have find: "find_file ?rd x = Some (Some f)" if "strip_slash x = nm" for x
    using that hdr nm by (simp add: find_file_def f_def)
  have d3: "?d = (superblock_bytes ?sb @ header_bytes f @ nm @ [0]) @ c" using d by simp
  have drp: "drop (29 + length nm) ?d = c" unfolding d3 by simp
  have len: "length ?d = 29 + length nm + length c" unfolding d3 by simp
  have "read_file ?rd f n = Some (take n c)" for n
    using drp len by (auto simp: read_file_def f_def Let_def window_def min_def)
  moreover have "list_files ?rd = Some [nm]" using hdr nm by (simp add: list_files_def f_def)
  ultimately show ?thesis
    using emb find[OF strip_slash_plain[OF assms(3)]] find[OF strip_slash_slash]
    by (intro exI[of _ ?rd] exI[of _ f]) (simp add: superblock_is_valid_def file_size_def f_def drp len)
qed

section \<open>Properties\<close>

text \<open>
  Claim C26 (one file): an image that the build script writes for a single
  file, whose name has at most 256 bytes, no zero byte and no leading slash, is
  read back by the kernel: the superblock is valid, the file is listed, found
  with and without a leading slash, and a read returns its contents.
\<close>

theorem ramdisk_single_file_roundtrip:
  assumes "0 \<notin> set nm" "length nm \<le> 256" "\<forall>bs. nm \<noteq> 0x2F # bs" "29 + length nm + length c < 2 ^ 32"
  shows "\<exists>rd f. from_embedded_data (build_ramdisk [(nm, c)]) = Some rd \<and> superblock_is_valid (rd_superblock rd) \<and>
    list_files rd = Some [nm] \<and> find_file rd nm = Some (Some f) \<and> find_file rd (0x2F # nm) = Some (Some f) \<and>
    file_size f = length c \<and> (\<forall>n. read_file rd f n = Some (take n c))"
  using single_file_image[OF assms] by blast

theorem ramdisk_single_file_roundtrip_witness:
  "\<exists>rd f. from_embedded_data (build_ramdisk [([0x61, 0x62], [1, 2, 3])]) = Some rd \<and>
    find_file rd [0x61, 0x62] = Some (Some f) \<and> read_file rd f 2 = Some [1, 2]"
proof -
  from ramdisk_single_file_roundtrip[of "[0x61, 0x62]" "[1, 2, 3]"] obtain rd f where
    "from_embedded_data (build_ramdisk [([0x61, 0x62], [1, 2, 3])]) = Some rd"
    "find_file rd [0x61, 0x62] = Some (Some f)" "\<forall>n. read_file rd f n = Some (take n [1, 2, 3])" by auto
  moreover have "take 2 [1, 2, 3 :: u8] = [1, 2]" by (simp add: numeral_2_eq_2)
  ultimately show ?thesis by metis
qed

text \<open>
  Claim C27 (the second file is lost): the build script advances the offset of
  the next file past the name of a file but not past its contents.  With a first
  file that is not empty, the header of the second points into the contents of
  the first, and the kernel does not find the second file under its name.
\<close>

theorem ramdisk_second_file_not_found:
  assumes "0 \<notin> set nm1" "0 \<notin> set c1" "0 \<notin> set nm2" "nm1 \<noteq> nm2" "c1 \<noteq> []"
    and "length nm1 \<le> 256" "length nm2 < 256" "\<forall>bs. nm2 \<noteq> 0x2F # bs"
    and "46 + length nm1 + length nm2 + length c1 + length c2 < 2 ^ 32"
  shows "\<exists>rd. from_embedded_data (build_ramdisk [(nm1, c1), (nm2, c2)]) = Some rd \<and> find_file rd nm2 = Some None"
proof -
  define f where "f = \<lparr>rf_name_offset = 44, rf_data_offset = 45 + length nm1, rf_size = length c1, rf_pad = 0\<rparr>"
  define g where "g = \<lparr>rf_name_offset = 45 + length nm1, rf_data_offset = 46 + length nm1 + length nm2,
    rf_size = length c2, rf_pad = 0\<rparr>"
  have fits: "header_fits f" "header_fits g" using assms(9) by (simp_all add: header_fits_def f_def g_def)
  let ?files = "[(nm1, c1), (nm2, c2)]"
  have es: "ramdisk_entries (12 + 16 * length ?files) ?files = [f, g]"
    using assms(9) by (simp add: f_def g_def Let_def)
  let ?sb = "\<lparr>sb_magic = 0x52555458, sb_num_files = Suc (Suc 0), sb_files_offset = 12\<rparr>" and ?d = "build_ramdisk ?files"
  have d: "?d = superblock_bytes ?sb @ header_bytes f @ header_bytes g @ nm1 @ 0 # c1 @ nm2 @ 0 # c2"
    using assms(9) by (simp add: build_ramdisk_def Let_def f_def g_def add.assoc)
  let ?rd = "\<lparr>rd_data = ?d, rd_superblock = ?sb\<rparr>"
  have emb: "from_embedded_data ?d = Some ?rd" using embedded_image[of ?files] es by simp
  have h1: "read_header ?d 12 = Some f" unfolding d by (rule read_header_bytes[OF fits(1)]) simp
  have d2: "?d = (superblock_bytes ?sb @ header_bytes f) @ header_bytes g @ (nm1 @ 0 # c1 @ nm2 @ 0 # c2)" using d by simp
  have h2: "read_header ?d 28 = Some g" unfolding d2 by (rule read_header_bytes[OF fits(2)]) simp
  have d3: "?d = (superblock_bytes ?sb @ header_bytes f @ header_bytes g) @ nm1 @ 0 # (c1 @ nm2 @ 0 # c2)" using d by simp
  have n1: "name_at ?d 44 = Some nm1"
    unfolding d3 using name_at_zero[OF assms(1), of "superblock_bytes ?sb @ header_bytes f @ header_bytes g" 44] assms(6) by simp
  have d4: "?d = (superblock_bytes ?sb @ header_bytes f @ header_bytes g @ nm1 @ [0]) @ (c1 @ nm2) @ 0 # c2" using d by simp
  have nz: "0 \<notin> set (c1 @ nm2)" using assms(2,3) by simp
  have n2: "name_at ?d (45 + length nm1) = Some (take 256 (c1 @ nm2))"
    unfolding d4
    using name_at_zero[OF nz, of "superblock_bytes ?sb @ header_bytes f @ header_bytes g @ nm1 @ [0]" "45 + length nm1" c2]
    by simp
  have "length (take 256 (c1 @ nm2)) > length nm2" using assms(5,7) by (cases c1) (auto simp: min_def)
  then have "take 256 (c1 @ nm2) \<noteq> nm2" by (metis less_irrefl)
  with h1 h2 n1 n2 assms(4) have "find_file ?rd nm2 = Some None"
    by (simp add: find_file_def strip_slash_plain[OF assms(8)] f_def g_def)
  with emb show ?thesis by blast
qed

theorem ramdisk_second_file_not_found_witness:
  "\<exists>rd. from_embedded_data (build_ramdisk [([0x61], [1, 2]), ([0x62], [3])]) = Some rd \<and> find_file rd [0x62] = Some None"
  by (rule ramdisk_second_file_not_found) simp_all

end
