(* ===== verification/Vfs.thy ===== *)
theory Vfs
  imports Ramdisk
begin

text \<open>
  File operations over the ramdisk (\<open>fs/vfs.rs\<close>): an open file is its header,
  a 64-bit offset and the cached size.  Signed 64-bit arithmetic of \<open>seek\<close> is
  word arithmetic with the sign test on the result.
\<close>

section \<open>Operations\<close>

datatype Whence = Set | Cur | End

record RamdiskFileOps =
  fo_file :: RamdiskFile
  fo_offset :: u64
  fo_size :: u64

definition RamdiskFileOps_new :: "RamdiskFile \<Rightarrow> RamdiskFileOps" where
  "RamdiskFileOps_new f = \<lparr>fo_file = f, fo_offset = 0, fo_size = of_nat (rf_size f)\<rparr>"

definition get_offset :: "RamdiskFileOps \<Rightarrow> u64" where "get_offset fo = fo_offset fo"

text \<open>
  The global ramdisk: \<open>None\<close> before initialisation.  \<open>FileOps::read\<close> into a
  buffer of \<open>buf_len\<close> bytes: the bytes copied, or an error number; \<open>None\<close> if
  the copy would leave the image.
\<close>

definition get_ramdisk :: "Ramdisk option \<Rightarrow> Errno + Ramdisk" where
  "get_ramdisk g = (case g of Some r \<Rightarrow> Inr r | None \<Rightarrow> Inl ENODEV)"

definition fo_read :: "Ramdisk option \<Rightarrow> RamdiskFileOps \<Rightarrow> nat \<Rightarrow> (RamdiskFileOps \<times> (Errno + u8 list)) option" where
  "fo_read g fo buf_len =
     (case get_ramdisk g of
        Inl e \<Rightarrow> Some (fo, Inl ENODEV)
      | Inr rd \<Rightarrow>
          let remaining = unat (fo_size fo - fo_offset fo) in
          if remaining = 0 then Some (fo, Inr [])
          else let to_read = min buf_len remaining;
                   data_offset = rf_data_offset (fo_file fo) + unat (fo_offset fo)
               in case window (rd_data rd) data_offset to_read of
                    None \<Rightarrow> None
                  | Some bs \<Rightarrow> Some (fo\<lparr>fo_offset := fo_offset fo + of_nat to_read\<rparr>, Inr bs))"

definition fo_write :: "RamdiskFileOps \<Rightarrow> u8 list \<Rightarrow> RamdiskFileOps \<times> (Errno + nat)" where
  "fo_write fo buf = (fo, Inl EROFS)"

fun seek_target :: "RamdiskFileOps \<Rightarrow> u64 \<Rightarrow> Whence \<Rightarrow> Errno + u64" where
  "seek_target fo offset Set = (if sint offset < 0 then Inl EINVAL else Inr offset)"
| "seek_target fo offset Cur =
     (let new = fo_offset fo + offset in if sint new < 0 then Inl EINVAL else Inr new)"
| "seek_target fo offset End =
     (let new = fo_size fo + offset in if sint new < 0 then Inl EINVAL else Inr new)"

definition fo_seek :: "RamdiskFileOps \<Rightarrow> u64 \<Rightarrow> Whence \<Rightarrow> RamdiskFileOps \<times> (Errno + u64)" where
  "fo_seek fo offset whence =
     (case seek_target fo offset whence of
        Inl e \<Rightarrow> (fo, Inl e)
      | Inr new \<Rightarrow>
          let new_offset = (if new > fo_size fo then fo_size fo else new)
          in (fo\<lparr>fo_offset := new_offset\<rparr>, Inr new_offset))"

definition open_ramdisk_file :: "Ramdisk option \<Rightarrow> u8 list \<Rightarrow> (Errno + RamdiskFileOps) option" where
  "open_ramdisk_file g path =
     (case get_ramdisk g of
        Inl e \<Rightarrow> Some (Inl ENODEV)
      | Inr rd \<Rightarrow>
          (case find_file rd path of
             None \<Rightarrow> None
           | Some None \<Rightarrow> Some (Inl ENOENT)
           | Some (Some f) \<Rightarrow> Some (Inr (RamdiskFileOps_new f))))"

section \<open>Open files\<close>

text \<open>
  An open file on contents \<open>c\<close>: the header describes \<open>c\<close> in the image, and the
  offset is within the file.
\<close>

definition file_ok :: "Ramdisk \<Rightarrow> RamdiskFileOps \<Rightarrow> u8 list \<Rightarrow> bool" where
  "file_ok rd fo c \<longleftrightarrow> length c < 2 ^ 63 \<and> unat (fo_size fo) = length c \<and> fo_offset fo \<le> fo_size fo \<and>
     rf_data_offset (fo_file fo) + length c \<le> length (rd_data rd) \<and>
     take (length c) (drop (rf_data_offset (fo_file fo)) (rd_data rd)) = c"

datatype file_op = Read nat | Write "u8 list" | Seek u64 Whence

datatype file_out = GotBytes "Errno + u8 list" | GotCount "Errno + nat" | GotOffset "Errno + u64"

fun file_step :: "Ramdisk \<Rightarrow> file_op \<Rightarrow> RamdiskFileOps \<Rightarrow> (RamdiskFileOps \<times> file_out) option" where
  "file_step rd (Read n) fo = map_option (\<lambda>(fo', r). (fo', GotBytes r)) (fo_read (Some rd) fo n)"
| "file_step rd (Write b) fo = (case fo_write fo b of (fo', r) \<Rightarrow> Some (fo', GotCount r))"
| "file_step rd (Seek off w) fo = (case fo_seek fo off w of (fo', r) \<Rightarrow> Some (fo', GotOffset r))"

fun file_run :: "Ramdisk \<Rightarrow> file_op list \<Rightarrow> RamdiskFileOps \<Rightarrow> (RamdiskFileOps \<times> file_out list) option" where
  "file_run rd [] fo = Some (fo, [])"
| "file_run rd (op # ops) fo =
     (case file_step rd op fo of None \<Rightarrow> None
      | Some (fo1, r) \<Rightarrow> (case file_run rd ops fo1 of None \<Rightarrow> None | Some (fo2, rs) \<Rightarrow> Some (fo2, r # rs)))"

text \<open>The specification: a file is its contents and a position in it.\<close>

fun spec_step :: "u8 list \<Rightarrow> file_op \<Rightarrow> nat \<Rightarrow> nat \<times> file_out" where
  "spec_step c (Read n) pos = (min (length c) (pos + n), GotBytes (Inr (take n (drop pos c))))"
| "spec_step c (Write b) pos = (pos, GotCount (Inl EROFS))"
| "spec_step c (Seek off w) pos =
     (let target = (case w of Set \<Rightarrow> off | Cur \<Rightarrow> of_nat pos + off | End \<Rightarrow> of_nat (length c) + off) in
      if sint target < 0 then (pos, GotOffset (Inl EINVAL))
      else (min (length c) (unat target), GotOffset (Inr (of_nat (min (length c) (unat target))))))"

fun spec_run :: "u8 list \<Rightarrow> file_op list \<Rightarrow> nat \<Rightarrow> nat \<times> file_out list" where
  "spec_run c [] pos = (pos, [])"
| "spec_run c (op # ops) pos =
     (case spec_step c op pos of (pos1, r) \<Rightarrow> (case spec_run c ops pos1 of (pos2, rs) \<Rightarrow> (pos2, r # rs)))"

lemma fo_read_ok:
  assumes "file_ok rd fo c"
  shows "\<exists>fo'. fo_read (Some rd) fo n = Some (fo', Inr (take n (drop (unat (fo_offset fo)) c))) \<and> file_ok rd fo' c \<and>
    unat (fo_offset fo') = min (length c) (unat (fo_offset fo) + n)"
proof -
  have ok: "length c < 2 ^ 63" "unat (fo_size fo) = length c" "fo_offset fo \<le> fo_size fo"
    "rf_data_offset (fo_file fo) + length c \<le> length (rd_data rd)"
    "take (length c) (drop (rf_data_offset (fo_file fo)) (rd_data rd)) = c"
    using assms by (auto simp: file_ok_def)
  let ?o = "unat (fo_offset fo)" and ?b = "rf_data_offset (fo_file fo)"
  have o: "?o \<le> length c" using ok(2,3) by (simp add: word_le_nat_alt)
  have rem: "unat (fo_size fo - fo_offset fo) = length c - ?o" using ok(2,3) by (simp add: unat_sub)
  show ?thesis
  proof (cases "length c - ?o = 0")
    case True
    with o rem assms show ?thesis by (simp add: fo_read_def get_ramdisk_def)
  next
    case False
    let ?k = "min n (length c - ?o)"
    have "take ?k (drop (?b + ?o) (rd_data rd)) = take ?k (drop ?o (take (length c) (drop ?b (rd_data rd))))"
      by (simp add: drop_take min_def add.commute)
    also have "\<dots> = take n (drop ?o c)" unfolding ok(5) by (simp add: min_def)
    finally have win: "window (rd_data rd) (?b + ?o) ?k = Some (take n (drop ?o c))"
      using ok(4) o by (simp add: window_def)
    let ?fo = "fo\<lparr>fo_offset := fo_offset fo + of_nat ?k\<rparr>"
    have lt: "?o + ?k < 2 ^ 64" using ok(1) o by simp
    have off: "unat (fo_offset ?fo) = ?o + ?k" using lt by (simp add: unat_word_ariths unat_of_nat)
    have "file_ok rd ?fo c" using ok off o by (simp add: file_ok_def word_le_nat_alt)
    moreover have "?o + ?k = min (length c) (?o + n)" using o by linarith
    ultimately show ?thesis using win False rem off by (simp add: fo_read_def get_ramdisk_def Let_def)
  qed
qed

lemma fo_seek_ok:
  assumes "file_ok rd fo c"
  shows "\<exists>fo' r. fo_seek fo off w = (fo', r) \<and> file_ok rd fo' c \<and>
    spec_step c (Seek off w) (unat (fo_offset fo)) = (unat (fo_offset fo'), GotOffset r)"
proof -
  have ok: "length c < 2 ^ 63" "unat (fo_size fo) = length c" "fo_offset fo \<le> fo_size fo"
    using assms by (auto simp: file_ok_def)
  have size: "fo_size fo = of_nat (length c)" by (simp flip: ok(2))
  define target where "target = (case w of Set \<Rightarrow> off | Cur \<Rightarrow> fo_offset fo + off | End \<Rightarrow> fo_size fo + off)"
  have st: "seek_target fo off w = (if sint target < 0 then Inl EINVAL else Inr target)"
    by (cases w) (simp_all add: target_def)
  have sp: "spec_step c (Seek off w) (unat (fo_offset fo)) =
      (if sint target < 0 then (unat (fo_offset fo), GotOffset (Inl EINVAL))
       else (min (length c) (unat target), GotOffset (Inr (of_nat (min (length c) (unat target))))))"
    by (cases w) (simp_all add: target_def size Let_def)
  show ?thesis
  proof (cases "sint target < 0")
    case True
    with st sp assms show ?thesis by (simp add: fo_seek_def)
  next
    case False
    define new where "new = (if target > fo_size fo then fo_size fo else target)"
    have "unat new = min (length c) (unat target)" using ok(2) by (simp add: new_def word_less_nat_alt min_def)
    then have new: "of_nat (min (length c) (unat target)) = new" "unat new = min (length c) (unat target)"
      by (simp_all flip: \<open>unat new = _\<close>)
    have "file_ok rd (fo\<lparr>fo_offset := new\<rparr>) c"
      using assms new(2) ok(2) by (simp add: file_ok_def word_le_nat_alt)
    moreover have "fo_seek fo off w = (fo\<lparr>fo_offset := new\<rparr>, Inr new)"
      using False st by (simp add: fo_seek_def new_def Let_def)
    ultimately show ?thesis using False sp new by simp
  qed
qed

lemma file_step_refines:
  assumes "file_ok rd fo c"
  shows "\<exists>fo' r. file_step rd op fo = Some (fo', r) \<and> file_ok rd fo' c \<and>
    spec_step c op (unat (fo_offset fo)) = (unat (fo_offset fo'), r)"
proof (cases op)
  case (Read n)
  with fo_read_ok[OF assms, of n] show ?thesis by auto
next
  case (Write b)
  with assms show ?thesis by (simp add: fo_write_def)
next
  case (Seek off w)
  with fo_seek_ok[OF assms, of off w] show ?thesis by auto
qed

lemma file_run_refines:
  assumes "file_ok rd fo c"
  shows "\<exists>fo' rs. file_run rd ops fo = Some (fo', rs) \<and> file_ok rd fo' c \<and>
    spec_run c ops (unat (fo_offset fo)) = (unat (fo_offset fo'), rs)"
  using assms
proof (induction ops arbitrary: fo)
  case (Cons op ops)
  from file_step_refines[OF Cons.prems, of op] obtain fo1 r where
    s: "file_step rd op fo = Some (fo1, r)" "file_ok rd fo1 c" "spec_step c op (unat (fo_offset fo)) = (unat (fo_offset fo1), r)"
    by blast
  from Cons.IH[OF s(2)] s(1,3) show ?case by fastforce
qed simp

lemma file_ok_open:
  assumes "drop (rf_data_offset f) (rd_data rd) = c" "rf_data_offset f + length c = length (rd_data rd)"
    and "rf_size f = length c" "length c < 2 ^ 32"
  shows "file_ok rd (RamdiskFileOps_new f) c"
  using assms by (simp add: file_ok_def RamdiskFileOps_new_def unat_of_nat)

section \<open>Properties\<close>

text \<open>
  Claim C28 (open files): any sequence of reads, writes and seeks on an open file
  whose header describes contents \<open>c\<close> stays inside the image, keeps the offset
  within the file, and behaves like a position in \<open>c\<close>: reads return the next
  bytes of \<open>c\<close>, writes fail with \<open>EROFS\<close>, and a seek is refused when the signed
  target is negative and clamped to the size of the file otherwise.
\<close>

theorem vfs_refines_contents:
  assumes "file_ok rd fo c"
  shows "\<exists>fo' rs. file_run rd ops fo = Some (fo', rs) \<and> file_ok rd fo' c \<and>
    spec_run c ops (unat (fo_offset fo)) = (unat (fo_offset fo'), rs)"
  by (rule file_run_refines[OF assms])

text \<open>
  The end-to-end instance: build an image with one file, open it, read it in two
  pieces, seek past the end and read again.
\<close>

theorem vfs_refines_contents_witness:
  "\<exists>rd fo fo'. from_embedded_data (build_ramdisk [([0x61], [1, 2, 3])]) = Some rd \<and>
    open_ramdisk_file (Some rd) [0x2F, 0x61] = Some (Inr fo) \<and>
    file_run rd [Read 2, Read 2, Seek 9 Set, Read 5] fo =
      Some (fo', [GotBytes (Inr [1, 2]), GotBytes (Inr [3]), GotOffset (Inr 3), GotBytes (Inr [])])"
proof -
  from single_file_image[of "[0x61]" "[1, 2, 3]"] obtain rd f where
    rd: "from_embedded_data (build_ramdisk [([0x61], [1, 2, 3])]) = Some rd" "find_file rd [0x2F, 0x61] = Some (Some f)"
      "drop (rf_data_offset f) (rd_data rd) = [1, 2, 3]" "rf_data_offset f + length [1, 2, 3 :: u8] = length (rd_data rd)"
      "rf_size f = length [1, 2, 3 :: u8]" by auto
  let ?fo = "RamdiskFileOps_new f" and ?ops = "[Read 2, Read 2, Seek 9 Set, Read 5]"
  have ok: "file_ok rd ?fo [1, 2, 3]" by (rule file_ok_open[OF rd(3-5)]) simp
  have sp: "spec_run [1, 2, 3] ?ops (unat (fo_offset ?fo)) =
      (3, [GotBytes (Inr [1, 2]), GotBytes (Inr [3]), GotOffset (Inr 3), GotBytes (Inr [])])"
    by (simp add: RamdiskFileOps_new_def)
  from vfs_refines_contents[OF ok, of ?ops] obtain fo' rs where
    "file_run rd ?ops ?fo = Some (fo', rs)" "spec_run [1, 2, 3] ?ops (unat (fo_offset ?fo)) = (unat (fo_offset fo'), rs)"
    by blast
  with rd(1,2) sp show ?thesis by (auto simp: open_ramdisk_file_def get_ramdisk_def)
qed

end
