(* ===== verification/Framebuffer.thy ===== *)
theory Framebuffer
  imports Bytes
begin

text \<open>
  The framebuffer driver (\<open>drivers/display/framebuffer.rs\<close>): colours, pixels,
  rectangles and scrolling, over the bytes of memory.  Sizes and offsets are
  natural numbers: a framebuffer lies in memory, so that none of the products
  of its height and pitch reaches the range of a machine word.
\<close>

section \<open>Colours\<close>

datatype PixelFormat = RGB | BGR

record Color =
  red :: u8
  green :: u8
  blue :: u8

definition BLACK :: Color where "BLACK = \<lparr>red = 0, green = 0, blue = 0\<rparr>"
definition WHITE :: Color where "WHITE = \<lparr>red = 255, green = 255, blue = 255\<rparr>"

text \<open>The scaling back to eight bits is done in eight bits, where the product wraps around.\<close>

definition from_rgb565 :: "u16 \<Rightarrow> Color" where
  "from_rgb565 rgb565 =
     (let r = ucast (and (drop_bit 11 rgb565) 0x1F) :: u8;
          g = ucast (and (drop_bit 5 rgb565) 0x3F) :: u8;
          b = ucast (and rgb565 0x1F) :: u8
      in \<lparr>red = (r * 255 + 15) div 31, green = (g * 255 + 31) div 63, blue = (b * 255 + 15) div 31\<rparr>)"

definition to_rgb565 :: "Color \<Rightarrow> u16" where
  "to_rgb565 c =
     (let r = (ucast (red c) * 31) div 255; g = (ucast (green c) * 63) div 255; b = (ucast (blue c) * 31) div 255
      in or (or (push_bit 11 r) (push_bit 5 g)) b)"

definition to_rgba32 :: "Color \<Rightarrow> u32" where
  "to_rgba32 c = or (or (or (push_bit 16 (ucast (red c))) (push_bit 8 (ucast (green c)))) (ucast (blue c))) 0xFF000000"

section \<open>Pixels\<close>

record Framebuffer =
  base_addr :: u64
  fb_width :: nat
  fb_height :: nat
  pitch :: nat
  bpp :: nat
  fb_format :: PixelFormat

definition fb_size :: "Framebuffer \<Rightarrow> nat" where
  "fb_size fb = fb_height fb * pitch fb"

definition pixel_offset :: "Framebuffer \<Rightarrow> nat \<Rightarrow> nat \<Rightarrow> nat option" where
  "pixel_offset fb x y =
     (if x \<ge> fb_width fb \<or> y \<ge> fb_height fb then None else Some (y * pitch fb + x * (bpp fb div 8)))"

text \<open>The bytes that a pixel of a colour is stored as; an unsupported depth stores none.\<close>

definition pixel_bytes :: "Framebuffer \<Rightarrow> Color \<Rightarrow> u8 list" where
  "pixel_bytes fb c =
     (if bpp fb = 16 then nat_le 2 (unat (to_rgb565 c))
      else if bpp fb = 24 \<or> bpp fb = 32
      then (case fb_format fb of RGB \<Rightarrow> [blue c, green c, red c] | BGR \<Rightarrow> [red c, green c, blue c])
           @ (if bpp fb = 32 then [0xFF] else [])
      else [])"

definition put_pixel :: "Framebuffer \<Rightarrow> nat \<Rightarrow> nat \<Rightarrow> Color \<Rightarrow> memory \<Rightarrow> memory" where
  "put_pixel fb x y c m =
     (case pixel_offset fb x y of
        None \<Rightarrow> m
      | Some offset \<Rightarrow> mem_write m (unat (base_addr fb) + offset) (pixel_bytes fb c))"

definition fill_row :: "Framebuffer \<Rightarrow> nat \<Rightarrow> nat \<Rightarrow> nat \<Rightarrow> Color \<Rightarrow> memory \<Rightarrow> memory" where
  "fill_row fb x xe y c m = fold (\<lambda>px. put_pixel fb px y c) [x..<xe] m"

definition fill_rect :: "Framebuffer \<Rightarrow> nat \<Rightarrow> nat \<Rightarrow> nat \<Rightarrow> nat \<Rightarrow> Color \<Rightarrow> memory \<Rightarrow> memory" where
  "fill_rect fb x y w h c m =
     fold (\<lambda>py. fill_row fb x (min (x + w) (fb_width fb)) py c) [y..<min (y + h) (fb_height fb)] m"

definition fb_clear :: "Framebuffer \<Rightarrow> Color \<Rightarrow> memory \<Rightarrow> memory" where
  "fb_clear fb c m = fill_rect fb 0 0 (fb_width fb) (fb_height fb) c m"

definition copy_row :: "Framebuffer \<Rightarrow> nat \<Rightarrow> nat \<Rightarrow> memory \<Rightarrow> memory" where
  "copy_row fb src_offset dst_offset m =
     (let p = unat (base_addr fb)
      in fold (\<lambda>x m. m(p + dst_offset + x := m (p + src_offset + x))) [0..<pitch fb] m)"

definition fb_scroll :: "Framebuffer \<Rightarrow> nat \<Rightarrow> nat \<Rightarrow> memory \<Rightarrow> memory" where
  "fb_scroll fb lines char_height m =
     (let scroll_pixels = lines * char_height
      in if scroll_pixels \<ge> fb_height fb then fb_clear fb BLACK m
         else let m1 = fold (\<lambda>y. copy_row fb (y * pitch fb) ((y - scroll_pixels) * pitch fb))
                            [scroll_pixels..<fb_height fb] m
              in fill_rect fb 0 (fb_height fb - scroll_pixels) (fb_width fb) scroll_pixels BLACK m1)"

text \<open>The placeholder that draws a box for every character of a text.\<close>

definition fb_write_text :: "Framebuffer \<Rightarrow> 'c list \<Rightarrow> nat \<Rightarrow> nat \<Rightarrow> Color \<Rightarrow> memory \<Rightarrow> memory" where
  "fb_write_text fb text x y fg m = fold (\<lambda>i. fill_rect fb (x + i * 8) y 7 16 fg) [0..<length text] m"

section \<open>Pixels are separate\<close>

text \<open>A framebuffer of a supported depth whose rows hold its pixels.\<close>

definition fb_ok :: "Framebuffer \<Rightarrow> bool" where
  "fb_ok fb \<longleftrightarrow> bpp fb \<in> {16, 24, 32} \<and> fb_width fb * (bpp fb div 8) \<le> pitch fb"

definition pixel_at :: "Framebuffer \<Rightarrow> memory \<Rightarrow> nat \<Rightarrow> nat \<Rightarrow> u8 list" where
  "pixel_at fb m x y = mem_read m (unat (base_addr fb) + (y * pitch fb + x * (bpp fb div 8))) (bpp fb div 8)"

lemma block_le: "a < b \<Longrightarrow> a * k + k \<le> b * (k :: nat)"
  using mult_le_mono1[of "Suc a" b k] by simp

lemma length_pixel_bytes: "fb_ok fb \<Longrightarrow> length (pixel_bytes fb c) = bpp fb div 8"
  by (auto simp: fb_ok_def pixel_bytes_def split: PixelFormat.split)

lemma pixels_apart:
  assumes "fb_ok fb" "x < fb_width fb" "x' < fb_width fb" "(x, y) \<noteq> (x', y')"
  defines "k \<equiv> bpp fb div 8"
  shows "y * pitch fb + x * k + k \<le> y' * pitch fb + x' * k \<or> y' * pitch fb + x' * k + k \<le> y * pitch fb + x * k"
proof -
  have lower: "a * pitch fb + z * k + k \<le> b * pitch fb" if "a < b" "z < fb_width fb" for a b z
    using block_le[OF that(1), of "pitch fb"] block_le[OF that(2), of k] assms(1) by (simp add: fb_ok_def k_def)
  consider "y < y'" | "y' < y" | "y = y'" "x < x'" | "y = y'" "x' < x" using assms(4) by fastforce
  then show ?thesis
    using lower[of y y' x] lower[of y' y x'] block_le[of x x' k] block_le[of x' x k] assms(2,3) by cases auto
qed

lemma put_pixel_at:
  assumes "fb_ok fb" "x' < fb_width fb" "y' < fb_height fb" "x < fb_width fb" "y < fb_height fb"
  shows "pixel_at fb (put_pixel fb x y c m) x' y' = (if (x, y) = (x', y') then pixel_bytes fb c else pixel_at fb m x' y')"
proof (cases "(x, y) = (x', y')")
  case True
  then show ?thesis
    using assms by (simp add: pixel_at_def put_pixel_def pixel_offset_def mem_read_write_same length_pixel_bytes)
next
  case False
  from pixels_apart[OF assms(1,4,2) False] have
    "pixel_at fb (put_pixel fb x y c m) x' y' = pixel_at fb m x' y'"
    using assms by (auto simp: pixel_at_def put_pixel_def pixel_offset_def length_pixel_bytes intro!: mem_read_write_other)
  then show ?thesis using False by auto
qed

lemma fill_row_at:
  assumes "fb_ok fb" "x' < fb_width fb" "y' < fb_height fb" "xe \<le> fb_width fb" "y < fb_height fb"
  shows "pixel_at fb (fill_row fb x xe y c m) x' y' =
     (if y = y' \<and> x \<le> x' \<and> x' < xe then pixel_bytes fb c else pixel_at fb m x' y')"
  using assms(4)
proof (induction xe)
  case (Suc xe)
  show ?case
  proof (cases "x \<le> xe")
    case True
    then have "fill_row fb x (Suc xe) y c m = put_pixel fb xe y c (fill_row fb x xe y c m)"
      by (simp add: fill_row_def)
    with Suc True put_pixel_at[OF assms(1-3) _ assms(5), of xe] show ?thesis by auto
  qed (use Suc in \<open>auto simp: fill_row_def\<close>)
qed (simp add: fill_row_def)

lemma fill_rect_at:
  assumes "fb_ok fb" "x' < fb_width fb" "y' < fb_height fb"
  shows "pixel_at fb (fill_rect fb x y w h c m) x' y' =
     (if x \<le> x' \<and> x' < x + w \<and> y \<le> y' \<and> y' < y + h then pixel_bytes fb c else pixel_at fb m x' y')"
proof -
  let ?xe = "min (x + w) (fb_width fb)"
  have "pixel_at fb (fold (\<lambda>py. fill_row fb x ?xe py c) [y..<ye] m) x' y' =
      (if x \<le> x' \<and> x' < ?xe \<and> y \<le> y' \<and> y' < ye then pixel_bytes fb c else pixel_at fb m x' y')"
    if "ye \<le> fb_height fb" for ye
    using that
  proof (induction ye)
    case (Suc ye)
    show ?case
    proof (cases "y \<le> ye")
      case True
      with Suc fill_row_at[OF assms, of ?xe ye x c] show ?thesis by auto
    qed (use Suc in auto)
  qed simp
  from this[of "min (y + h) (fb_height fb)"] assms show ?thesis by (simp add: fill_rect_def)
qed

section \<open>Scrolling moves the picture\<close>

lemma copy_row_apply:
  assumes "dst + pitch fb \<le> src"
  shows "copy_row fb src dst m a =
     (let p = unat (base_addr fb) in if p + dst \<le> a \<and> a < p + dst + pitch fb then m (a - dst + src) else m a)"
proof -
  let ?p = "unat (base_addr fb)"
  have "fold (\<lambda>x m. m(?p + dst + x := m (?p + src + x))) [0..<n] m a =
      (if ?p + dst \<le> a \<and> a < ?p + dst + n then m (a - dst + src) else m a)" if "n \<le> pitch fb" for n a
    using that
  proof (induction n arbitrary: a)
    case (Suc n)
    have "\<not> ?p + src + n < ?p + dst + n" using assms Suc.prems by simp
    moreover have "?p + dst + n - dst + src = ?p + src + n" by simp
    ultimately show ?case using Suc assms by (auto simp: add.assoc add.commute[of n])
  qed auto
  from this[of "pitch fb"] show ?thesis by (simp add: copy_row_def Let_def)
qed

lemma copy_rows:
  assumes "0 < sp" "x < pitch fb" "sp \<le> ye"
  shows "fold (\<lambda>y. copy_row fb (y * pitch fb) ((y - sp) * pitch fb)) [sp..<ye] m (unat (base_addr fb) + r * pitch fb + x) =
     (if r + sp < ye then m (unat (base_addr fb) + (r + sp) * pitch fb + x) else m (unat (base_addr fb) + r * pitch fb + x))"
  using assms(3)
proof (induction ye arbitrary: r rule: dec_induct)
  case (step ye)
  let ?p = "unat (base_addr fb)" and ?k = "pitch fb"
  let ?f = "fold (\<lambda>y. copy_row fb (y * ?k) ((y - sp) * ?k)) [sp..<ye] m"
  have eq: "fold (\<lambda>y. copy_row fb (y * ?k) ((y - sp) * ?k)) [sp..<Suc ye] m = copy_row fb (ye * ?k) ((ye - sp) * ?k) ?f"
    using step.hyps(1) by simp
  have apart: "(ye - sp) * ?k + ?k \<le> ye * ?k" using step.hyps(1) assms(1) by (intro block_le) simp
  show ?case
  proof (cases "r = ye - sp")
    case True
    have ye: "ye = r + sp" using True step.hyps(1) by simp
    have "copy_row fb (ye * ?k) ((ye - sp) * ?k) ?f (?p + r * ?k + x) = ?f (?p + ye * ?k + x)"
      using copy_row_apply[OF apart, of ?f "?p + r * ?k + x"] True assms(2)
      by (simp add: Let_def add.assoc add.commute[of x])
    with step.IH[of ye] assms(1) ye show ?thesis unfolding eq by simp
  next
    case False
    have "\<not> (?p + (ye - sp) * ?k \<le> ?p + r * ?k + x \<and> ?p + r * ?k + x < ?p + (ye - sp) * ?k + ?k)"
      using block_le[of r "ye - sp" ?k] block_le[of "ye - sp" r ?k] False assms(2) by linarith
    then have "copy_row fb (ye * ?k) ((ye - sp) * ?k) ?f (?p + r * ?k + x) = ?f (?p + r * ?k + x)"
      using copy_row_apply[OF apart, of ?f "?p + r * ?k + x"] by (auto simp: Let_def)
    with step.IH[of r] False show ?thesis unfolding eq by auto
  qed
qed simp

lemma fb_scroll_at:
  assumes "fb_ok fb" "x < fb_width fb" "y < fb_height fb" "0 < sp" "sp < fb_height fb"
  shows "pixel_at fb (fb_scroll fb 1 sp m) x y =
     (if y + sp < fb_height fb then pixel_at fb m x (y + sp) else pixel_bytes fb BLACK)"
proof -
  let ?k = "bpp fb div 8"
  let ?m1 = "fold (\<lambda>y. copy_row fb (y * pitch fb) ((y - sp) * pitch fb)) [sp..<fb_height fb] m"
  have s: "fb_scroll fb 1 sp m = fill_rect fb 0 (fb_height fb - sp) (fb_width fb) sp BLACK ?m1"
    using assms(5) by (simp add: fb_scroll_def Let_def)
  have "pixel_at fb ?m1 x y = pixel_at fb m x (y + sp)" if "y + sp < fb_height fb"
  proof -
    have "x * ?k + i < pitch fb" if "i < ?k" for i
      using block_le[OF assms(2), of ?k] that assms(1) by (simp add: fb_ok_def)
    from copy_rows[OF assms(4) this, of _ "fb_height fb" m y] assms(5) that
    show ?thesis by (simp add: pixel_at_def mem_read_def add.assoc)
  qed
  moreover have "y < fb_height fb - sp \<longleftrightarrow> y + sp < fb_height fb" using assms(5) by auto
  ultimately show ?thesis
    using fill_rect_at[OF assms(1-3), of 0 "fb_height fb - sp" "fb_width fb" sp BLACK ?m1] assms(2,3,5) s by auto
qed

section \<open>Only the framebuffer is written\<close>

definition fb_only :: "Framebuffer \<Rightarrow> memory \<Rightarrow> memory \<Rightarrow> bool" where
  "fb_only fb m m' \<longleftrightarrow> (\<forall>a. \<not> (unat (base_addr fb) \<le> a \<and> a < unat (base_addr fb) + fb_size fb) \<longrightarrow> m' a = m a)"

lemma fb_only_refl [simp]: "fb_only fb m m"
  by (simp add: fb_only_def)

lemma fb_only_trans: "fb_only fb m m1 \<Longrightarrow> fb_only fb m1 m2 \<Longrightarrow> fb_only fb m m2"
  by (simp add: fb_only_def)

lemma fb_only_fold:
  assumes "\<And>x m. x \<in> set xs \<Longrightarrow> fb_only fb m (f x m)"
  shows "fb_only fb m (fold f xs m)"
  using assms by (induction xs arbitrary: m) (auto intro: fb_only_trans)

lemma fb_only_put_pixel:
  assumes "fb_ok fb"
  shows "fb_only fb m (put_pixel fb x y c m)"
proof (cases "x < fb_width fb \<and> y < fb_height fb")
  case True
  let ?k = "bpp fb div 8"
  have "y * pitch fb + x * ?k + ?k \<le> fb_size fb"
    using block_le[of x "fb_width fb" ?k] block_le[of y "fb_height fb" "pitch fb"] True assms
    by (simp add: fb_ok_def fb_size_def)
  with True show ?thesis
    by (auto simp: fb_only_def put_pixel_def pixel_offset_def mem_write_def length_pixel_bytes[OF assms])
qed (auto simp: put_pixel_def pixel_offset_def)

lemma fb_only_fill_rect: "fb_ok fb \<Longrightarrow> fb_only fb m (fill_rect fb x y w h c m)"
  by (auto simp: fill_rect_def fill_row_def intro!: fb_only_fold fb_only_put_pixel)

lemma fb_only_copy_row:
  assumes "dst + pitch fb \<le> src" "src + pitch fb \<le> fb_size fb"
  shows "fb_only fb m (copy_row fb src dst m)"
  using assms by (auto simp: fb_only_def copy_row_apply Let_def)

lemma fb_only_scroll:
  assumes "fb_ok fb" "0 < sp"
  shows "fb_only fb m (fb_scroll fb 1 sp m)"
proof (cases "sp < fb_height fb")
  case True
  let ?m1 = "fold (\<lambda>y. copy_row fb (y * pitch fb) ((y - sp) * pitch fb)) [sp..<fb_height fb] m"
  have "fb_only fb m ?m1"
  proof (rule fb_only_fold)
    fix y m assume y: "y \<in> set [sp..<fb_height fb]"
    then show "fb_only fb m (copy_row fb (y * pitch fb) ((y - sp) * pitch fb) m)"
      using block_le[of "y - sp" y "pitch fb"] block_le[of y "fb_height fb" "pitch fb"] assms(2)
      by (intro fb_only_copy_row) (simp_all add: fb_size_def)
  qed
  with fb_only_fill_rect[OF assms(1)] True show ?thesis
    by (auto simp: fb_scroll_def Let_def intro: fb_only_trans)
qed (simp add: fb_scroll_def Let_def fb_clear_def fb_only_fill_rect assms)

end
