(* ===== verification/Console.thy ===== *)
theory Console
  imports Framebuffer
begin

text \<open>
  The text console (\<open>drivers/display/console.rs\<close>) and its fonts
  (\<open>drivers/display/font.rs\<close>), over the framebuffer.  The console is shown to
  implement a terminal: a grid of characters with a cursor.
\<close>

section \<open>Fonts\<close>

definition VGA_WIDTH :: nat where "VGA_WIDTH = 8"
definition VGA_HEIGHT :: nat where "VGA_HEIGHT = 16"

definition get_glyph_data :: "u8 \<Rightarrow> u8 list" where
  "get_glyph_data ch =
     (if ch = 0x41 then [0x00, 0x3C, 0x42, 0x42, 0x42, 0x7E, 0x42, 0x42, 0x42, 0x42, 0x42, 0x42, 0x00, 0x00, 0x00, 0x00]
      else if ch = 0x42 then [0x00, 0x7C, 0x42, 0x42, 0x42, 0x7C, 0x42, 0x42, 0x42, 0x42, 0x42, 0x7C, 0x00, 0x00, 0x00, 0x00]
      else if ch = 0x43 then [0x00, 0x3E, 0x40, 0x40, 0x40, 0x40, 0x40, 0x40, 0x40, 0x40, 0x40, 0x3E, 0x00, 0x00, 0x00, 0x00]
      else if ch = 0x20 then replicate 16 0
      else [0x00, 0x7E, 0x42, 0x42, 0x42, 0x42, 0x42, 0x42, 0x42, 0x42, 0x42, 0x7E, 0x00, 0x00, 0x00, 0x00])"

definition glyph_pixel :: "u8 \<Rightarrow> nat \<Rightarrow> nat \<Rightarrow> bool" where
  "glyph_pixel ch x y =
     (if x \<ge> 8 \<or> y \<ge> 16 then False
      else and (get_glyph_data ch ! y) (push_bit (7 - x) 1) \<noteq> 0)"

record Psf2Header =
  psf_magic :: u32
  psf_headersize :: u32
  psf_flags :: u32
  psf_length :: u32
  psf_charsize :: u32
  psf_height :: u32
  psf_width :: u32

definition PSF2_MAGIC :: u32 where "PSF2_MAGIC = 0x864AB572"

record Psf2Font =
  psf_header :: Psf2Header
  glyph_data :: "u8 list"

definition u32_field :: "u8 list \<Rightarrow> nat \<Rightarrow> u32" where
  "u32_field d i = of_nat (le_nat (take 4 (drop (4 * i) d)))"

definition psf2_header :: "u8 list \<Rightarrow> Psf2Header" where
  "psf2_header d = \<lparr>psf_magic = u32_field d 0, psf_headersize = u32_field d 1, psf_flags = u32_field d 2,
     psf_length = u32_field d 3, psf_charsize = u32_field d 4, psf_height = u32_field d 5, psf_width = u32_field d 6\<rparr>"

definition Psf2Font_from_data :: "u8 list \<Rightarrow> Psf2Font result" where
  "Psf2Font_from_data data =
     (if length data < 28 then Inl ''Font data too small for PSF2 header''
      else let header = psf2_header data
           in if psf_magic header \<noteq> PSF2_MAGIC then Inl ''Invalid PSF2 magic value''
              else let header_size = unat (psf_headersize header);
                       glyph_data_size = unat (psf_length header * psf_charsize header)
                   in if length data < header_size + glyph_data_size
                      then Inl ''Font data too small for declared glyphs''
                      else Inr \<lparr>psf_header = header, glyph_data = take glyph_data_size (drop header_size data)\<rparr>)"

definition psf2_glyph_pixel :: "Psf2Font \<Rightarrow> u8 \<Rightarrow> nat \<Rightarrow> nat \<Rightarrow> bool" where
  "psf2_glyph_pixel font ch x y =
     (let glyph_index = unat ch; w = unat (psf_width (psf_header font)); h = unat (psf_height (psf_header font))
      in if glyph_index \<ge> unat (psf_length (psf_header font)) \<or> x \<ge> w \<or> y \<ge> h then False
         else let bytes_per_row = (w + 7) div 8;
                  byte_offset = glyph_index * unat (psf_charsize (psf_header font)) + y * bytes_per_row + x div 8
              in if byte_offset \<ge> length (glyph_data font) then False
                 else and (glyph_data font ! byte_offset) (push_bit (7 - x mod 8) 1) \<noteq> 0)"

section \<open>Console\<close>

record TextConsole =
  tc_fb :: Framebuffer
  cursor_x :: nat
  cursor_y :: nat
  fg_color :: Color
  bg_color :: Color
  tc_cols :: nat
  tc_rows :: nat

definition TextConsole_new :: "Framebuffer \<Rightarrow> TextConsole" where
  "TextConsole_new fb = \<lparr>tc_fb = fb, cursor_x = 0, cursor_y = 0, fg_color = WHITE, bg_color = BLACK,
     tc_cols = fb_width fb div VGA_WIDTH, tc_rows = fb_height fb div VGA_HEIGHT\<rparr>"

definition set_color :: "TextConsole \<Rightarrow> Color \<Rightarrow> Color \<Rightarrow> TextConsole" where
  "set_color tc fg bg = tc\<lparr>fg_color := fg, bg_color := bg\<rparr>"

definition set_cursor :: "TextConsole \<Rightarrow> nat \<Rightarrow> nat \<Rightarrow> TextConsole" where
  "set_cursor tc x y = (if x < tc_cols tc \<and> y < tc_rows tc then tc\<lparr>cursor_x := x, cursor_y := y\<rparr> else tc)"

definition tc_clear :: "TextConsole \<Rightarrow> memory \<Rightarrow> TextConsole \<times> memory" where
  "tc_clear tc m = (tc\<lparr>cursor_x := 0, cursor_y := 0\<rparr>, fb_clear (tc_fb tc) (bg_color tc) m)"

definition render_char :: "TextConsole \<Rightarrow> u8 \<Rightarrow> nat \<Rightarrow> nat \<Rightarrow> memory \<Rightarrow> memory" where
  "render_char tc ch col row m =
     (let x = col * VGA_WIDTH; y = row * VGA_HEIGHT; fb = tc_fb tc;
          m1 = fill_rect fb x y VGA_WIDTH VGA_HEIGHT (bg_color tc) m
      in fold (\<lambda>py. fold (\<lambda>px m. if glyph_pixel ch px py then put_pixel fb (x + px) (y + py) (fg_color tc) m else m)
                         [0..<VGA_WIDTH])
              [0..<VGA_HEIGHT] m1)"

definition clear_char_at :: "TextConsole \<Rightarrow> nat \<Rightarrow> nat \<Rightarrow> memory \<Rightarrow> memory" where
  "clear_char_at tc col row m =
     fill_rect (tc_fb tc) (col * VGA_WIDTH) (row * VGA_HEIGHT) VGA_WIDTH VGA_HEIGHT (bg_color tc) m"

text \<open>Subtraction of machine words of pointer size, which wraps around below zero.\<close>

definition usize_sub :: "nat \<Rightarrow> nat \<Rightarrow> nat" where
  "usize_sub a b = (if b \<le> a then a - b else a + 2 ^ 64 - b)"

definition tc_scroll :: "TextConsole \<Rightarrow> memory \<Rightarrow> memory" where
  "tc_scroll tc m =
     fold (\<lambda>col. clear_char_at tc col (usize_sub (tc_rows tc) 1)) [0..<tc_cols tc]
       (fb_scroll (tc_fb tc) 1 VGA_HEIGHT m)"

definition wrap_line :: "TextConsole \<Rightarrow> TextConsole" where
  "wrap_line tc = (if cursor_x tc \<ge> tc_cols tc then tc\<lparr>cursor_x := 0, cursor_y := cursor_y tc + 1\<rparr> else tc)"

definition char_effect :: "TextConsole \<Rightarrow> u8 \<Rightarrow> memory \<Rightarrow> TextConsole \<times> memory" where
  "char_effect tc ch m =
     (if ch = 0x0A then (tc\<lparr>cursor_y := cursor_y tc + 1, cursor_x := 0\<rparr>, m)
      else if ch = 0x0D then (tc\<lparr>cursor_x := 0\<rparr>, m)
      else if ch = 0x09 then (wrap_line (tc\<lparr>cursor_x := (cursor_x tc + 8) div 8 * 8\<rparr>), m)
      else if ch = 0x08 then
        (if cursor_x tc > 0
         then let tc1 = tc\<lparr>cursor_x := cursor_x tc - 1\<rparr> in (tc1, clear_char_at tc1 (cursor_x tc1) (cursor_y tc1) m)
         else if cursor_y tc > 0
         then let tc1 = tc\<lparr>cursor_y := cursor_y tc - 1, cursor_x := usize_sub (tc_cols tc) 1\<rparr>
              in (tc1, clear_char_at tc1 (cursor_x tc1) (cursor_y tc1) m)
         else (tc, m))
      else if 0x20 \<le> ch \<and> ch \<le> 0x7E then
        (wrap_line (tc\<lparr>cursor_x := cursor_x tc + 1\<rparr>), render_char tc ch (cursor_x tc) (cursor_y tc) m)
      else (tc, m))"

definition tc_put_char :: "TextConsole \<Rightarrow> u8 \<Rightarrow> memory \<Rightarrow> TextConsole \<times> memory" where
  "tc_put_char tc ch m =
     (let (tc1, m1) = char_effect tc ch m
      in if cursor_y tc1 \<ge> tc_rows tc1
         then (tc1\<lparr>cursor_y := usize_sub (tc_rows tc1) 1\<rparr>, tc_scroll tc1 m1)
         else (tc1, m1))"

fun tc_write_str :: "TextConsole \<Rightarrow> u8 list \<Rightarrow> memory \<Rightarrow> TextConsole \<times> memory" where
  "tc_write_str tc [] m = (tc, m)"
| "tc_write_str tc (b # bs) m = (let (tc1, m1) = tc_put_char tc b m in tc_write_str tc1 bs m1)"

section \<open>The global console\<close>

record console_world =
  CONSOLE :: "TextConsole option"
  CONSOLE_INITIALIZED :: bool
  fb_memory :: memory

definition console_init :: "Framebuffer \<Rightarrow> console_world \<Rightarrow> console_world" where
  "console_init fb w = w\<lparr>CONSOLE := Some (TextConsole_new fb), CONSOLE_INITIALIZED := True\<rparr>"

definition is_initialized :: "console_world \<Rightarrow> bool" where
  "is_initialized w = CONSOLE_INITIALIZED w"

definition with_console :: "(TextConsole \<Rightarrow> memory \<Rightarrow> TextConsole \<times> memory) \<Rightarrow> console_world \<Rightarrow> console_world" where
  "with_console f w =
     (case CONSOLE w of None \<Rightarrow> w
      | Some tc \<Rightarrow> let (tc1, m1) = f tc (fb_memory w) in w\<lparr>CONSOLE := Some tc1, fb_memory := m1\<rparr>)"

definition console_write_str :: "u8 list \<Rightarrow> console_world \<Rightarrow> console_world" where
  "console_write_str s = with_console (\<lambda>tc. tc_write_str tc s)"

definition console_put_char :: "u8 \<Rightarrow> console_world \<Rightarrow> console_world" where
  "console_put_char ch = with_console (\<lambda>tc. tc_put_char tc ch)"

definition console_clear :: "console_world \<Rightarrow> console_world" where
  "console_clear = with_console tc_clear"

definition console_set_color :: "Color \<Rightarrow> Color \<Rightarrow> console_world \<Rightarrow> console_world" where
  "console_set_color fg bg = with_console (\<lambda>tc m. (set_color tc fg bg, m))"

definition console_get_color :: "console_world \<Rightarrow> Color \<times> Color" where
  "console_get_color w = (case CONSOLE w of Some tc \<Rightarrow> (fg_color tc, bg_color tc) | None \<Rightarrow> (WHITE, BLACK))"

section \<open>Terminal\<close>

text \<open>The specification: a grid of cells, each a character with its two colours, and a cursor.\<close>

type_synonym cell = "u8 \<times> Color \<times> Color"

record terminal =
  t_x :: nat
  t_y :: nat
  t_grid :: "nat \<Rightarrow> nat \<Rightarrow> cell"

definition t_set :: "nat \<Rightarrow> nat \<Rightarrow> cell \<Rightarrow> terminal \<Rightarrow> terminal" where
  "t_set c r v t = t\<lparr>t_grid := (t_grid t)(c := ((t_grid t) c)(r := v))\<rparr>"

definition t_advance :: "nat \<Rightarrow> nat \<Rightarrow> terminal \<Rightarrow> terminal" where
  "t_advance cols x t = (if x < cols then t\<lparr>t_x := x\<rparr> else t\<lparr>t_x := 0, t_y := t_y t + 1\<rparr>)"

definition t_backspace :: "nat \<Rightarrow> cell \<Rightarrow> terminal \<Rightarrow> terminal" where
  "t_backspace cols blank t =
     (if (t_x t, t_y t) = (0, 0) then t
      else let p = t_y t * cols + t_x t - 1
           in t_set (p mod cols) (p div cols) blank (t\<lparr>t_x := p mod cols, t_y := p div cols\<rparr>))"

definition t_effect :: "nat \<Rightarrow> Color \<Rightarrow> Color \<Rightarrow> u8 \<Rightarrow> terminal \<Rightarrow> terminal" where
  "t_effect cols fg bg ch t =
     (if ch = 0x0A then t\<lparr>t_x := 0, t_y := t_y t + 1\<rparr>
      else if ch = 0x0D then t\<lparr>t_x := 0\<rparr>
      else if ch = 0x09 then t_advance cols (8 * (t_x t div 8 + 1)) t
      else if ch = 0x08 then t_backspace cols (0x20, fg, bg) t
      else if 0x20 \<le> ch \<and> ch \<le> 0x7E then t_advance cols (t_x t + 1) (t_set (t_x t) (t_y t) (ch, fg, bg) t)
      else t)"

definition t_scroll :: "nat \<Rightarrow> Color \<Rightarrow> Color \<Rightarrow> terminal \<Rightarrow> terminal" where
  "t_scroll rows fg bg t =
     (if t_y t < rows then t
      else t\<lparr>t_y := rows - 1, t_grid := (\<lambda>c r. if r + 1 < rows then t_grid t c (r + 1) else (0x20, fg, bg))\<rparr>)"

definition t_put :: "nat \<Rightarrow> nat \<Rightarrow> Color \<Rightarrow> Color \<Rightarrow> u8 \<Rightarrow> terminal \<Rightarrow> terminal" where
  "t_put cols rows fg bg ch t = t_scroll rows fg bg (t_effect cols fg bg ch t)"

section \<open>What the framebuffer shows\<close>

definition cell_shown :: "Framebuffer \<Rightarrow> memory \<Rightarrow> nat \<Rightarrow> nat \<Rightarrow> cell \<Rightarrow> bool" where
  "cell_shown fb m c r v \<longleftrightarrow> (\<forall>px < 8. \<forall>py < 16. pixel_at fb m (c * 8 + px) (r * 16 + py) =
     pixel_bytes fb (if glyph_pixel (fst v) px py then fst (snd v) else snd (snd v)))"

definition grid_shown :: "TextConsole \<Rightarrow> memory \<Rightarrow> (nat \<Rightarrow> nat \<Rightarrow> cell) \<Rightarrow> bool" where
  "grid_shown tc m g \<longleftrightarrow> (\<forall>c < tc_cols tc. \<forall>r < tc_rows tc. cell_shown (tc_fb tc) m c r (g c r))"

definition console_geometry :: "TextConsole \<Rightarrow> bool" where
  "console_geometry tc \<longleftrightarrow> fb_ok (tc_fb tc) \<and> tc_cols tc = fb_width (tc_fb tc) div 8 \<and>
     tc_rows tc = fb_height (tc_fb tc) div 16 \<and> 0 < tc_cols tc \<and> 0 < tc_rows tc"

definition console_ok :: "TextConsole \<Rightarrow> bool" where
  "console_ok tc \<longleftrightarrow> console_geometry tc \<and> cursor_x tc < tc_cols tc \<and> cursor_y tc < tc_rows tc"

definition console_shows :: "TextConsole \<Rightarrow> memory \<Rightarrow> terminal \<Rightarrow> bool" where
  "console_shows tc m t \<longleftrightarrow> cursor_x tc = t_x t \<and> cursor_y tc = t_y t \<and> grid_shown tc m (t_grid t)"

lemma cell_shown_move:
  assumes "\<And>px py. px < 8 \<Longrightarrow> py < 16 \<Longrightarrow>
     pixel_at fb m' (c' * 8 + px) (r' * 16 + py) = pixel_at fb m (c * 8 + px) (r * 16 + py)"
  shows "cell_shown fb m' c' r' v = cell_shown fb m c r v"
  using assms unfolding cell_shown_def by auto

lemmas vga_size = VGA_WIDTH_def VGA_HEIGHT_def

lemma cell_pixel:
  assumes "console_geometry tc" "c < tc_cols tc" "r < tc_rows tc" "px < 8" "py < 16"
  shows "c * 8 + px < fb_width (tc_fb tc)" "r * 16 + py < fb_height (tc_fb tc)"
proof -
  have "Suc c * 8 \<le> fb_width (tc_fb tc)" "Suc r * 16 \<le> fb_height (tc_fb tc)"
    using assms(1-3) by (simp_all add: console_geometry_def less_eq_div_iff_mult_less_eq[symmetric] Suc_le_eq del: mult_Suc)
  then show "c * 8 + px < fb_width (tc_fb tc)" "r * 16 + py < fb_height (tc_fb tc)" using assms(4,5) by simp_all
qed

lemma glyph_space [simp]: "\<not> glyph_pixel 0x20 x y"
  by (simp add: glyph_pixel_def get_glyph_data_def)

text \<open>A pixel is in the rectangle of a cell exactly when it belongs to that cell.\<close>

lemma in_cell:
  fixes c c' r r' px py :: nat
  assumes "px < 8" "py < 16"
  shows "(c * 8 \<le> c' * 8 + px \<and> c' * 8 + px < c * 8 + 8 \<and> r * 16 \<le> r' * 16 + py \<and> r' * 16 + py < r * 16 + 16)
     \<longleftrightarrow> c' = c \<and> r' = r"
  using assms by auto

lemma clear_char_at_cell:
  assumes "console_geometry tc" "c' < tc_cols tc" "r' < tc_rows tc"
  shows "(c', r') \<noteq> (c, r) \<Longrightarrow> cell_shown (tc_fb tc) (clear_char_at tc c r m) c' r' v = cell_shown (tc_fb tc) m c' r' v"
    and "r < tc_rows tc \<Longrightarrow> c < tc_cols tc \<Longrightarrow> cell_shown (tc_fb tc) (clear_char_at tc c r m) c r (0x20, fg, bg_color tc)"
proof -
  have ok: "fb_ok (tc_fb tc)" using assms(1) by (simp add: console_geometry_def)
  have p: "pixel_at (tc_fb tc) (clear_char_at tc c r m) (a * 8 + px) (b * 16 + py) =
      (if a = c \<and> b = r then pixel_bytes (tc_fb tc) (bg_color tc) else pixel_at (tc_fb tc) m (a * 8 + px) (b * 16 + py))"
    if "px < 8" "py < 16" "a < tc_cols tc" "b < tc_rows tc" for a b px py
    using fill_rect_at[OF ok cell_pixel[OF assms(1) that(3,4,1,2)], of "c * 8" "r * 16" 8 16] in_cell[OF that(1,2), of c a r b]
    by (simp add: clear_char_at_def vga_size)
  show "cell_shown (tc_fb tc) (clear_char_at tc c r m) c' r' v = cell_shown (tc_fb tc) m c' r' v" if "(c', r') \<noteq> (c, r)"
    by (rule cell_shown_move) (use p[OF _ _ assms(2,3)] that in auto)
  show "cell_shown (tc_fb tc) (clear_char_at tc c r m) c r (0x20, fg, bg_color tc)" if "r < tc_rows tc" "c < tc_cols tc"
    using p[OF _ _ that(2,1)] by (simp add: cell_shown_def)
qed

lemma glyph_loop_at:
  assumes "fb_ok fb" "x' < fb_width fb" "y' < fb_height fb" "x + 8 \<le> fb_width fb" "y + 16 \<le> fb_height fb"
  shows "pixel_at fb (fold (\<lambda>py. fold (\<lambda>px m. if glyph_pixel ch px py then put_pixel fb (x + px) (y + py) c m else m) [0..<8]) [0..<16] m) x' y'
     = (if x \<le> x' \<and> x' < x + 8 \<and> y \<le> y' \<and> y' < y + 16 \<and> glyph_pixel ch (x' - x) (y' - y) then pixel_bytes fb c
        else pixel_at fb m x' y')"
proof -
  let ?row = "\<lambda>py n. fold (\<lambda>px m. if glyph_pixel ch px py then put_pixel fb (x + px) (y + py) c m else m) [0..<n]"
  have row: "pixel_at fb (?row py n m) x' y' =
      (if x \<le> x' \<and> x' < x + n \<and> y' = y + py \<and> glyph_pixel ch (x' - x) py then pixel_bytes fb c else pixel_at fb m x' y')"
    if "py < 16" "n \<le> 8" for py n m
    using that(2)
  proof (induction n)
    case (Suc n)
    have "x + n < fb_width fb" "y + py < fb_height fb" using Suc.prems that(1) assms(4,5) by simp_all
    from put_pixel_at[OF assms(1-3) this] Suc show ?case by auto
  qed auto
  have "pixel_at fb (fold (\<lambda>py. ?row py 8) [0..<k] m) x' y' =
      (if x \<le> x' \<and> x' < x + 8 \<and> y \<le> y' \<and> y' < y + k \<and> glyph_pixel ch (x' - x) (y' - y) then pixel_bytes fb c
       else pixel_at fb m x' y')" if "k \<le> 16" for k
    using that
  proof (induction k)
    case (Suc k)
    with row[of k 8] show ?case by (auto simp: less_Suc_eq)
  qed auto
  from this[of 16] show ?thesis by simp
qed

lemma render_char_cell:
  assumes "console_geometry tc" "c' < tc_cols tc" "r' < tc_rows tc" "c < tc_cols tc" "r < tc_rows tc"
  shows "(c', r') \<noteq> (c, r) \<Longrightarrow> cell_shown (tc_fb tc) (render_char tc ch c r m) c' r' v = cell_shown (tc_fb tc) m c' r' v"
    and "cell_shown (tc_fb tc) (render_char tc ch c r m) c r (ch, fg_color tc, bg_color tc)"
proof -
  let ?fb = "tc_fb tc"
  have ok: "fb_ok ?fb" using assms(1) by (simp add: console_geometry_def)
  have fits: "c * 8 + 8 \<le> fb_width ?fb" "r * 16 + 16 \<le> fb_height ?fb"
    using cell_pixel[OF assms(1,4,5), of 7 15] by simp_all
  have p: "pixel_at ?fb (render_char tc ch c r m) (a * 8 + px) (b * 16 + py) =
      (if a = c \<and> b = r then pixel_bytes ?fb (if glyph_pixel ch px py then fg_color tc else bg_color tc)
       else pixel_at ?fb m (a * 8 + px) (b * 16 + py))"
    if "px < 8" "py < 16" "a < tc_cols tc" "b < tc_rows tc" for a b px py
    using glyph_loop_at[OF ok cell_pixel[OF assms(1) that(3,4,1,2)] fits]
      fill_rect_at[OF ok cell_pixel[OF assms(1) that(3,4,1,2)], of "c * 8" "r * 16" 8 16] in_cell[OF that(1,2), of c a r b]
    by (auto simp: render_char_def vga_size Let_def)
  show "cell_shown ?fb (render_char tc ch c r m) c' r' v = cell_shown ?fb m c' r' v" if "(c', r') \<noteq> (c, r)"
    by (rule cell_shown_move) (use p[OF _ _ assms(2,3)] that in auto)
  show "cell_shown ?fb (render_char tc ch c r m) c r (ch, fg_color tc, bg_color tc)"
    using p[OF _ _ assms(4,5)] by (simp add: cell_shown_def)
qed

lemma clear_row_shown:
  assumes "console_geometry tc" "c < tc_cols tc" "r < tc_rows tc" "r0 < tc_rows tc" "n \<le> tc_cols tc"
  shows "(r \<noteq> r0 \<longrightarrow> cell_shown (tc_fb tc) (fold (\<lambda>col. clear_char_at tc col r0) [0..<n] m) c r v = cell_shown (tc_fb tc) m c r v) \<and>
     (c < n \<longrightarrow> cell_shown (tc_fb tc) (fold (\<lambda>col. clear_char_at tc col r0) [0..<n] m) c r0 (0x20, fg, bg_color tc))"
  using assms(5)
proof (induction n)
  case (Suc n)
  then have n: "n < tc_cols tc" by simp
  note other = clear_char_at_cell(1)[OF assms(1,2)] and same = clear_char_at_cell(2)[OF assms(1-4) n]
  from Suc other[OF assms(3), of n r0] other[OF assms(4), of n r0] same show ?case by (auto simp: less_Suc_eq)
qed simp

lemma tc_scroll_shown:
  assumes "console_geometry tc" "grid_shown tc m g"
  shows "grid_shown tc (tc_scroll tc m) (\<lambda>c r. if r + 1 < tc_rows tc then g c (r + 1) else (0x20, fg, bg_color tc))"
proof -
  let ?fb = "tc_fb tc" and ?m = "fb_scroll (tc_fb tc) 1 16 m" and ?r0 = "tc_rows tc - 1"
  have ok: "fb_ok ?fb" "?r0 < tc_rows tc" using assms(1) by (simp_all add: console_geometry_def)
  have moved: "cell_shown ?fb ?m c r (g c (r + 1))" if c: "c < tc_cols tc" "r + 1 < tc_rows tc" for c r
  proof -
    have "16 < fb_height ?fb" using cell_pixel(2)[OF assms(1) c, of 0 0] by simp
    then have "pixel_at ?fb ?m (c * 8 + px) (r * 16 + py) = pixel_at ?fb m (c * 8 + px) ((r + 1) * 16 + py)"
      if "px < 8" "py < 16" for px py
      using fb_scroll_at[OF ok(1) cell_pixel[OF assms(1) c(1) _ that], of r r 16 m] c(2)
        cell_pixel(2)[OF assms(1) c that] by (simp add: algebra_simps)
    then have "cell_shown ?fb ?m c r (g c (r + 1)) = cell_shown ?fb m c (r + 1) (g c (r + 1))" by (rule cell_shown_move)
    with assms(2) c show ?thesis by (simp add: grid_shown_def)
  qed
  have eq: "tc_scroll tc m = fold (\<lambda>col. clear_char_at tc col ?r0) [0..<tc_cols tc] ?m"
    using ok(2) by (simp add: tc_scroll_def usize_sub_def vga_size)
  have "cell_shown ?fb (tc_scroll tc m) c r (if r + 1 < tc_rows tc then g c (r + 1) else (0x20, fg, bg_color tc))"
    if c: "c < tc_cols tc" "r < tc_rows tc" for c r
  proof (cases "r + 1 < tc_rows tc")
    case True
    then have "r \<noteq> ?r0" by auto
    with True moved[OF c(1) True] clear_row_shown[OF assms(1) c ok(2) order_refl, of ?m "g c (r + 1)"] show ?thesis
      unfolding eq by simp
  next
    case False
    then have "r = ?r0" using c(2) by simp
    with clear_row_shown[OF assms(1) c ok(2) order_refl, of ?m _ fg] c(1) False show ?thesis unfolding eq by simp
  qed
  then show ?thesis by (simp add: grid_shown_def)
qed

section \<open>The console implements the terminal\<close>

definition same_screen :: "TextConsole \<Rightarrow> TextConsole \<Rightarrow> bool" where
  "same_screen tc tc' \<longleftrightarrow> tc_fb tc' = tc_fb tc \<and> fg_color tc' = fg_color tc \<and> bg_color tc' = bg_color tc \<and>
     tc_cols tc' = tc_cols tc \<and> tc_rows tc' = tc_rows tc"

lemma same_screen_ops:
  assumes "same_screen tc tc'"
  shows "clear_char_at tc' = clear_char_at tc" "tc_scroll tc' = tc_scroll tc" "grid_shown tc' = grid_shown tc"
    "console_geometry tc' = console_geometry tc"
proof -
  show c: "clear_char_at tc' = clear_char_at tc" using assms by (simp add: same_screen_def clear_char_at_def fun_eq_iff)
  show "tc_scroll tc' = tc_scroll tc" using assms by (intro ext) (simp only: same_screen_def tc_scroll_def c)
  show "grid_shown tc' = grid_shown tc" "console_geometry tc' = console_geometry tc"
    using assms by (simp_all add: same_screen_def grid_shown_def console_geometry_def fun_eq_iff)
qed

lemma clear_grid:
  assumes "console_geometry tc" "c < tc_cols tc" "r < tc_rows tc" "grid_shown tc m (t_grid t)"
  shows "grid_shown tc (clear_char_at tc c r m) (t_grid (t_set c r (0x20, fg, bg_color tc) t))"
  using assms(4) clear_char_at_cell(1)[OF assms(1)] clear_char_at_cell(2)[OF assms(1-3,3,2)]
  by (auto simp: grid_shown_def t_set_def)

lemma render_grid:
  assumes "console_geometry tc" "c < tc_cols tc" "r < tc_rows tc" "grid_shown tc m (t_grid t)"
  shows "grid_shown tc (render_char tc ch c r m) (t_grid (t_set c r (ch, fg_color tc, bg_color tc) t))"
  using assms(4) render_char_cell(1)[OF assms(1) _ _ assms(2,3)] render_char_cell(2)[OF assms(1-3,2,3)]
  by (auto simp: grid_shown_def t_set_def)

lemma fb_only_cells:
  assumes "console_geometry tc"
  shows "fb_only (tc_fb tc) m (clear_char_at tc c r m)" "fb_only (tc_fb tc) m (render_char tc ch c r m)"
    "fb_only (tc_fb tc) m (tc_scroll tc m)"
proof -
  have ok: "fb_ok (tc_fb tc)" using assms by (simp add: console_geometry_def)
  show clear: "fb_only (tc_fb tc) m (clear_char_at tc c r m)" for c r m
    by (simp add: clear_char_at_def fb_only_fill_rect[OF ok])
  have "fb_only (tc_fb tc) m (fold (\<lambda>py. fold (\<lambda>px m. if glyph_pixel ch px py
      then put_pixel (tc_fb tc) (x + px) (y + py) (fg_color tc) m else m) [0..<8]) [0..<16] m)" for x y m
    by (intro fb_only_fold) (simp add: fb_only_put_pixel[OF ok])
  then show "fb_only (tc_fb tc) m (render_char tc ch c r m)"
    unfolding render_char_def Let_def vga_size by (rule fb_only_trans[OF fb_only_fill_rect[OF ok]])
  show "fb_only (tc_fb tc) m (tc_scroll tc m)"
    unfolding tc_scroll_def vga_size by (rule fb_only_trans[OF fb_only_scroll[OF ok, of 16]]) (auto intro: fb_only_fold clear)
qed

text \<open>The result of the effect of a character, before the check for scrolling.\<close>

definition effect_shows :: "TextConsole \<Rightarrow> memory \<Rightarrow> terminal \<Rightarrow> TextConsole \<times> memory \<Rightarrow> bool" where
  "effect_shows tc m t r \<longleftrightarrow> same_screen tc (fst r) \<and> cursor_x (fst r) = t_x t \<and> t_x t < tc_cols tc \<and>
     cursor_y (fst r) = t_y t \<and> t_y t \<le> tc_rows tc \<and> grid_shown tc (snd r) (t_grid t) \<and> fb_only (tc_fb tc) m (snd r)"

lemma wrap_line_shows:
  assumes "console_geometry tc" "same_screen tc tc'" "cursor_y tc' = t_y t" "t_y t < tc_rows tc"
    "grid_shown tc m' (t_grid t)" "fb_only (tc_fb tc) m m'"
  shows "effect_shows tc m (t_advance (tc_cols tc) (cursor_x tc') t) (wrap_line tc', m')"
  using assms by (auto simp: effect_shows_def t_advance_def wrap_line_def same_screen_def console_geometry_def)

lemma backspace_position:
  fixes x y cols :: nat
  assumes "x < cols" "(x, y) \<noteq> (0, 0)"
  shows "(y * cols + x - 1) mod cols = (if x = 0 then cols - 1 else x - 1)"
    and "(y * cols + x - 1) div cols = (if x = 0 then y - 1 else y)"
proof -
  have "(y * cols + x - 1) mod cols = (if x = 0 then cols - 1 else x - 1) \<and>
      (y * cols + x - 1) div cols = (if x = 0 then y - 1 else y)"
  proof (cases x)
    case 0
    then obtain z where z: "y = Suc z" using assms(2) by (cases y) auto
    have "y * cols + x - 1 = (cols - 1) + z * cols" using assms(1) unfolding 0 z by simp
    moreover have "((cols - 1) + z * cols) mod cols = cols - 1" "((cols - 1) + z * cols) div cols = z"
      using assms(1) by (subst mod_mult_self1, simp, subst div_mult_self1, simp_all)
    ultimately show ?thesis by (simp only: 0 z) simp
  next
    case (Suc k)
    have "y * cols + x - 1 = k + y * cols" unfolding Suc by simp
    moreover have "(k + y * cols) mod cols = k" "(k + y * cols) div cols = y"
      using assms(1) Suc by (subst mod_mult_self1, simp, subst div_mult_self1, simp_all)
    ultimately show ?thesis by (simp only: Suc) simp
  qed
  then show "(y * cols + x - 1) mod cols = (if x = 0 then cols - 1 else x - 1)"
    and "(y * cols + x - 1) div cols = (if x = 0 then y - 1 else y)" by blast+
qed

lemma backspace_shows:
  assumes "console_ok tc" "console_shows tc m t"
  shows "effect_shows tc m (t_effect (tc_cols tc) (fg_color tc) (bg_color tc) 0x08 t) (char_effect tc 0x08 m)"
proof (cases "(t_x t, t_y t) = (0, 0)")
  case True
  with assms show ?thesis
    by (simp add: effect_shows_def t_effect_def t_backspace_def char_effect_def console_shows_def console_ok_def same_screen_def)
next
  case False
  let ?c = "if t_x t = 0 then tc_cols tc - 1 else t_x t - 1" and ?r = "if t_x t = 0 then t_y t - 1 else t_y t"
  have g: "console_geometry tc" "grid_shown tc m (t_grid t)" "t_x t < tc_cols tc" "t_y t < tc_rows tc"
    "cursor_x tc = t_x t" "cursor_y tc = t_y t"
    using assms by (simp_all add: console_ok_def console_shows_def)
  have cr: "?c < tc_cols tc" "?r < tc_rows tc" using g(3,4) by auto
  let ?t = "t_set ?c ?r (0x20, fg_color tc, bg_color tc) (t\<lparr>t_x := ?c, t_y := ?r\<rparr>)"
  have t: "t_effect (tc_cols tc) (fg_color tc) (bg_color tc) 0x08 t = ?t"
  proof -
    have "t_backspace (tc_cols tc) (0x20, fg_color tc, bg_color tc) t = ?t"
      using False unfolding t_backspace_def Let_def backspace_position[OF g(3) False] by auto
    then show ?thesis by (simp add: t_effect_def)
  qed
  let ?tc = "if t_x t = 0 then tc\<lparr>cursor_y := t_y t - 1, cursor_x := tc_cols tc - 1\<rparr> else tc\<lparr>cursor_x := t_x t - 1\<rparr>"
  have s: "same_screen tc ?tc" "cursor_x ?tc = ?c" "cursor_y ?tc = ?r" using g(6) by (simp_all add: same_screen_def)
  have "usize_sub (tc_cols tc) 1 = tc_cols tc - 1" using g(3) by (simp add: usize_sub_def)
  then have e: "char_effect tc 0x08 m = (?tc, clear_char_at tc ?c ?r m)"
    using False g(5,6) by (auto simp: char_effect_def Let_def clear_char_at_def)
  have "grid_shown tc (clear_char_at tc ?c ?r m) (t_grid ?t)"
    using clear_grid[OF g(1) cr, of m "t\<lparr>t_x := ?c, t_y := ?r\<rparr>"] g(2) by simp
  moreover have "t_x ?t = ?c" "t_y ?t = ?r" by (simp_all add: t_set_def)
  ultimately show ?thesis
    using s cr fb_only_cells(1)[OF g(1)] unfolding t e effect_shows_def fst_conv snd_conv by simp
qed

lemma char_effect_shows:
  assumes "console_ok tc" "console_shows tc m t"
  shows "effect_shows tc m (t_effect (tc_cols tc) (fg_color tc) (bg_color tc) ch t) (char_effect tc ch m)"
proof -
  have g: "console_geometry tc" "grid_shown tc m (t_grid t)" "t_x t < tc_cols tc" "t_y t < tc_rows tc"
    "cursor_x tc = t_x t" "cursor_y tc = t_y t"
    using assms by (simp_all add: console_ok_def console_shows_def)
  consider "ch = 0x08" | "ch = 0x09" | "ch \<notin> {0x08, 0x09, 0x0A, 0x0D}" "0x20 \<le> ch \<and> ch \<le> 0x7E"
    | "ch \<notin> {0x08, 0x09}" "ch = 0x0A \<or> ch = 0x0D \<or> \<not> (0x20 \<le> ch \<and> ch \<le> 0x7E)"
    by blast
  then show ?thesis
  proof cases
    case 1
    then show ?thesis using backspace_shows[OF assms] by simp
  next
    case 2
    have "(t_x t + 8) div 8 = t_x t div 8 + 1" by (rule div_add_self2) simp
    then have tab: "(t_x t + 8) div 8 * 8 = 8 * (t_x t div 8 + 1)" by simp
    let ?tc = "tc\<lparr>cursor_x := 8 * (t_x t div 8 + 1)\<rparr>"
    have "t_effect (tc_cols tc) (fg_color tc) (bg_color tc) ch t = t_advance (tc_cols tc) (cursor_x ?tc) t"
      "char_effect tc ch m = (wrap_line ?tc, m)"
      using 2 tab g(5) by (simp_all add: t_effect_def char_effect_def)
    with wrap_line_shows[OF g(1), of ?tc t m m] g show ?thesis by (simp add: same_screen_def)
  next
    case 3
    let ?t = "t_set (t_x t) (t_y t) (ch, fg_color tc, bg_color tc) t"
    have "t_y ?t = t_y t" by (simp add: t_set_def)
    let ?tc = "tc\<lparr>cursor_x := t_x t + 1\<rparr>"
    have "t_effect (tc_cols tc) (fg_color tc) (bg_color tc) ch t = t_advance (tc_cols tc) (cursor_x ?tc) ?t"
      "char_effect tc ch m = (wrap_line ?tc, render_char tc ch (t_x t) (t_y t) m)"
      using 3 g(5,6) by (simp_all add: t_effect_def char_effect_def)
    with wrap_line_shows[OF g(1), of ?tc ?t "render_char tc ch (t_x t) (t_y t) m" m] \<open>t_y ?t = t_y t\<close>
      render_grid[OF g(1,3,4,2), of ch] fb_only_cells(2)[OF g(1)] g show ?thesis
      by (simp add: same_screen_def)
  next
    case 4
    let ?tc = "if ch = 0x0A then tc\<lparr>cursor_y := t_y t + 1, cursor_x := 0\<rparr> else if ch = 0x0D then tc\<lparr>cursor_x := 0\<rparr> else tc"
    let ?t = "if ch = 0x0A then t\<lparr>t_x := 0, t_y := t_y t + 1\<rparr> else if ch = 0x0D then t\<lparr>t_x := 0\<rparr> else t"
    have "t_effect (tc_cols tc) (fg_color tc) (bg_color tc) ch t = ?t" "char_effect tc ch m = (?tc, m)"
      using 4 g(6) by (auto simp: t_effect_def char_effect_def)
    then show ?thesis using g by (simp add: effect_shows_def same_screen_def)
  qed
qed

lemma tc_put_char_shows:
  assumes "console_ok tc" "console_shows tc m t" "tc_put_char tc ch m = (tc', m')"
  shows "console_ok tc' \<and> same_screen tc tc' \<and> fb_only (tc_fb tc) m m' \<and>
     console_shows tc' m' (t_put (tc_cols tc) (tc_rows tc) (fg_color tc) (bg_color tc) ch t)"
proof -
  obtain tc1 m1 where e: "char_effect tc ch m = (tc1, m1)" by fastforce
  let ?t = "t_effect (tc_cols tc) (fg_color tc) (bg_color tc) ch t"
  have s: "same_screen tc tc1" "cursor_x tc1 = t_x ?t" "t_x ?t < tc_cols tc" "cursor_y tc1 = t_y ?t"
    "grid_shown tc m1 (t_grid ?t)" "fb_only (tc_fb tc) m m1"
    using char_effect_shows[OF assms(1,2), of ch] e by (simp_all add: effect_shows_def)
  have g: "console_geometry tc" "0 < tc_rows tc" using assms(1) by (simp_all add: console_ok_def console_geometry_def)
  note ops = same_screen_ops[OF s(1)]
  show ?thesis
  proof (cases "t_y ?t < tc_rows tc")
    case True
    then have "tc' = tc1" "m' = m1" using assms(3) e s(1,4) by (simp_all add: tc_put_char_def same_screen_def)
    with True s g ops show ?thesis
      by (simp add: t_put_def t_scroll_def console_ok_def console_shows_def same_screen_def)
  next
    case False
    then have r: "tc' = tc1\<lparr>cursor_y := tc_rows tc - 1\<rparr>" "m' = tc_scroll tc m1"
      using assms(3) e s(1,4) g(2) ops(2) by (simp_all add: tc_put_char_def same_screen_def usize_sub_def)
    have s': "same_screen tc tc'" using s(1) r(1) by (simp add: same_screen_def)
    have "fb_only (tc_fb tc) m m'" using fb_only_trans[OF s(6) fb_only_cells(3)[OF g(1)]] r(2) by simp
    moreover have "grid_shown tc m' (t_grid (t_scroll (tc_rows tc) (fg_color tc) (bg_color tc) ?t))"
      using tc_scroll_shown[OF g(1) s(5)] False r(2) by (simp add: t_scroll_def)
    ultimately show ?thesis
      using s s' r(1) g False same_screen_ops[OF s']
      by (simp add: t_put_def t_scroll_def console_ok_def console_shows_def same_screen_def)
  qed
qed

lemma same_screen_trans: "same_screen a b \<Longrightarrow> same_screen b c \<Longrightarrow> same_screen a c"
  by (simp add: same_screen_def)

lemma tc_write_str_shows:
  assumes "console_ok tc" "console_shows tc m t" "tc_write_str tc s m = (tc', m')"
  shows "console_ok tc' \<and> same_screen tc tc' \<and> fb_only (tc_fb tc) m m' \<and>
     console_shows tc' m' (fold (t_put (tc_cols tc) (tc_rows tc) (fg_color tc) (bg_color tc)) s t)"
  using assms
proof (induction s arbitrary: tc m t)
  case Nil
  then show ?case by (simp add: same_screen_def)
next
  case (Cons b s)
  obtain tc1 m1 where p: "tc_put_char tc b m = (tc1, m1)" by fastforce
  note q = tc_put_char_shows[OF Cons.prems(1,2) p]
  have w: "tc_write_str tc1 s m1 = (tc', m')" using Cons.prems(3) p by simp
  from Cons.IH[OF _ _ w] q have r: "console_ok tc' \<and> same_screen tc1 tc' \<and> fb_only (tc_fb tc1) m1 m' \<and>
     console_shows tc' m' (fold (t_put (tc_cols tc1) (tc_rows tc1) (fg_color tc1) (bg_color tc1)) s
       (t_put (tc_cols tc) (tc_rows tc) (fg_color tc) (bg_color tc) b t))" by blast
  have s: "tc_fb tc1 = tc_fb tc" "fg_color tc1 = fg_color tc" "bg_color tc1 = bg_color tc"
    "tc_cols tc1 = tc_cols tc" "tc_rows tc1 = tc_rows tc" using q by (simp_all add: same_screen_def)
  from q r show ?case unfolding s by (auto intro: same_screen_trans fb_only_trans)
qed

text \<open>A console on a cleared framebuffer shows an empty terminal.\<close>

definition blank_terminal :: "Color \<Rightarrow> Color \<Rightarrow> terminal" where
  "blank_terminal fg bg = \<lparr>t_x = 0, t_y = 0, t_grid = (\<lambda>c r. (0x20, fg, bg))\<rparr>"

lemma tc_clear_shows:
  assumes "console_geometry tc" "tc_clear tc m = (tc', m')"
  shows "console_ok tc' \<and> console_shows tc' m' (blank_terminal (fg_color tc) (bg_color tc))"
proof -
  have ok: "fb_ok (tc_fb tc)" using assms(1) by (simp add: console_geometry_def)
  have r: "tc' = tc\<lparr>cursor_x := 0, cursor_y := 0\<rparr>" "m' = fb_clear (tc_fb tc) (bg_color tc) m"
    using assms(2) by (simp_all add: tc_clear_def)
  have "cell_shown (tc_fb tc) m' c r (0x20, fg_color tc, bg_color tc)" if "c < tc_cols tc" "r < tc_rows tc" for c r
    using cell_pixel[OF assms(1) that] by (simp add: cell_shown_def r(2) fb_clear_def fill_rect_at[OF ok])
  with assms(1) r show ?thesis
    by (simp add: console_ok_def console_shows_def grid_shown_def blank_terminal_def console_geometry_def)
qed

text \<open>
  The conversion of the reddest colour to sixteen bits and back loses the
  colour, because the scaling is done in eight bits.
\<close>

lemma rgb565_red_lost: "red (from_rgb565 (to_rgb565 \<lparr>red = 255, green = 0, blue = 0\<rparr>)) = 7"
  by (simp add: from_rgb565_def to_rgb565_def Let_def)

section \<open>Properties\<close>

text \<open>
  Claim C36 (the console is a terminal): when the framebuffer shows a grid of
  characters, writing any string of bytes leaves it showing the grid that a
  terminal with the same size and colours has after that string, glyph by glyph
  and pixel by pixel, with the same cursor, which stays on the screen; and
  memory outside the framebuffer is unchanged.  This covers line ends, line
  wrap, tabs, backspace over line ends and scrolling.
\<close>

theorem console_refines_terminal:
  assumes "console_ok tc" "console_shows tc m t" "tc_write_str tc s m = (tc', m')"
  shows "console_ok tc' \<and> fb_only (tc_fb tc) m m' \<and>
     console_shows tc' m' (fold (t_put (tc_cols tc) (tc_rows tc) (fg_color tc) (bg_color tc)) s t)"
  using tc_write_str_shows[OF assms] by blast

text \<open>A screen of two columns and two rows: writing three characters and a line end scrolls it.\<close>

theorem console_refines_terminal_witness:
  "\<exists>tc m tc' m'. console_ok tc \<and> tc_write_str tc [0x41, 0x42, 0x43, 0x0A] m = (tc', m') \<and>
     cell_shown (tc_fb tc) m' 0 0 (0x43, WHITE, BLACK) \<and> cursor_x tc' = 0 \<and> cursor_y tc' = 1"
proof -
  let ?fb = "\<lparr>base_addr = 0, fb_width = 16, fb_height = 32, pitch = 64, bpp = 32, fb_format = RGB\<rparr>"
  have g: "console_geometry (TextConsole_new ?fb)"
    by (simp add: console_geometry_def TextConsole_new_def fb_ok_def vga_size)
  obtain tc m where c: "tc_clear (TextConsole_new ?fb) (\<lambda>a. 0) = (tc, m)" by fastforce
  have tc: "console_ok tc" "console_shows tc m (blank_terminal WHITE BLACK)" "tc_cols tc = 2" "tc_rows tc = 2"
    "fg_color tc = WHITE" "bg_color tc = BLACK"
    using tc_clear_shows[OF g c] c by (auto simp: TextConsole_new_def tc_clear_def vga_size)
  obtain tc' m' where w: "tc_write_str tc [0x41, 0x42, 0x43, 0x0A] m = (tc', m')" by fastforce
  let ?t = "fold (t_put 2 2 WHITE BLACK) [0x41, 0x42, 0x43, 0x0A] (blank_terminal WHITE BLACK)"
  have t: "t_x ?t = 0" "t_y ?t = 1" "t_grid ?t 0 0 = (0x43, WHITE, BLACK)"
    by (simp_all add: t_put_def t_effect_def t_scroll_def t_advance_def t_set_def blank_terminal_def)
  from console_refines_terminal[OF tc(1,2) w] tc(3-6) have "console_shows tc' m' ?t" by simp
  moreover have "tc_fb tc' = tc_fb tc" "tc_cols tc' = 2" "tc_rows tc' = 2"
    using tc_write_str_shows[OF tc(1,2) w] tc(3,4) by (simp_all add: same_screen_def)
  ultimately have "cell_shown (tc_fb tc) m' 0 0 (t_grid ?t 0 0)" "cursor_x tc' = t_x ?t" "cursor_y tc' = t_y ?t"
    by (simp_all add: console_shows_def grid_shown_def del: fold_simps)
  then show ?thesis using tc(1) w unfolding t by blast
qed

end
