(* ===== verification/Tsc.thy ===== *)
theory Tsc
  imports Prelude
begin

text \<open>
  The time stamp counter (\<open>arch/amd64/tsc.rs\<close>): the cached frequency, the
  conversions between ticks and nanoseconds, and the busy-wait delays.  The
  counter itself is hardware: its successive values are an argument.
\<close>

section \<open>Model\<close>

definition DEFAULT_TSC_FREQUENCY :: u64 where "DEFAULT_TSC_FREQUENCY = 2000000000"

text \<open>The static \<open>TSC_FREQUENCY\<close> is the state; zero means that it has not been set.\<close>

definition x86_tsc_frequency :: "u64 \<Rightarrow> u64" where
  "x86_tsc_frequency cached = (if cached = 0 then DEFAULT_TSC_FREQUENCY else cached)"

definition x86_set_tsc_frequency :: "u64 \<Rightarrow> u64 \<Rightarrow> u64" where
  "x86_set_tsc_frequency cached freq = freq"

definition x86_calibrate_tsc :: "u64 \<Rightarrow> u64 \<times> u64" where
  "x86_calibrate_tsc cached =
     (let default_freq = DEFAULT_TSC_FREQUENCY in (x86_set_tsc_frequency cached default_freq, default_freq))"

text \<open>The products are of 128 bits and cannot overflow; the quotients are truncated to 64 bits.\<close>

definition tsc_to_ns :: "u64 \<Rightarrow> u64 \<Rightarrow> u64" where
  "tsc_to_ns cached ticks =
     (let freq = x86_tsc_frequency cached in
      if freq = 0 then 0 else of_nat (unat ticks * 1000000000 div unat freq))"

definition ns_to_tsc :: "u64 \<Rightarrow> u64 \<Rightarrow> u64" where
  "ns_to_tsc cached ns =
     (let freq = x86_tsc_frequency cached in
      if freq = 0 then 0 else of_nat (unat ns * unat freq div 1000000000))"

text \<open>
  The loop of the delays, over the values that the counter takes at successive
  reads; it does not end when none of them is late enough.
\<close>

fun delay_loop :: "u64 \<Rightarrow> u64 \<Rightarrow> u64 list \<Rightarrow> u64 outcome" where
  "delay_loop start target_ticks [] = Hang"
| "delay_loop start target_ticks (t # ts) =
     (let elapsed = t - start in if elapsed \<ge> target_ticks then Return t else delay_loop start target_ticks ts)"

definition tsc_delay_us :: "u64 \<Rightarrow> u64 \<Rightarrow> u64 \<Rightarrow> u64 list \<Rightarrow> u64 outcome" where
  "tsc_delay_us cached us start ts =
     (let target_ns = us * 1000; target_ticks = ns_to_tsc cached target_ns in delay_loop start target_ticks ts)"

definition tsc_delay_ms :: "u64 \<Rightarrow> u64 \<Rightarrow> u64 \<Rightarrow> u64 list \<Rightarrow> u64 outcome" where
  "tsc_delay_ms cached ms start ts =
     (let target_ns = ms * 1000000; target_ticks = ns_to_tsc cached target_ns in delay_loop start target_ticks ts)"

section \<open>Conversions\<close>

lemma x86_tsc_frequency_nonzero: "x86_tsc_frequency cached \<noteq> 0"
  by (simp add: x86_tsc_frequency_def DEFAULT_TSC_FREQUENCY_def)

text \<open>Without truncation the conversions are quotients.\<close>

definition ns_fits :: "u64 \<Rightarrow> u64 \<Rightarrow> bool" where
  "ns_fits cached ticks \<longleftrightarrow> unat ticks * 1000000000 div unat (x86_tsc_frequency cached) < 2 ^ 64"

lemma unat_tsc_to_ns:
  "ns_fits cached ticks \<Longrightarrow> unat (tsc_to_ns cached ticks) = unat ticks * 1000000000 div unat (x86_tsc_frequency cached)"
  using x86_tsc_frequency_nonzero[of cached] by (simp add: tsc_to_ns_def ns_fits_def Let_def unat_of_nat)

text \<open>A counter that advances does not make the clock go back.\<close>

lemma tsc_to_ns_mono:
  assumes "t \<le> t'" "ns_fits cached t'"
  shows "tsc_to_ns cached t \<le> tsc_to_ns cached t'"
proof -
  have "unat t * 1000000000 div unat (x86_tsc_frequency cached) \<le> unat t' * 1000000000 div unat (x86_tsc_frequency cached)"
    using assms(1) by (intro div_le_mono mult_le_mono1) (simp add: word_le_nat_alt)
  moreover from this have "ns_fits cached t" using assms(2) by (simp add: ns_fits_def)
  ultimately show ?thesis using assms(2) by (simp add: word_le_nat_alt unat_tsc_to_ns)
qed

text \<open>Converting to nanoseconds and back loses less than the ticks of one nanosecond, rounded up.\<close>

lemma tsc_roundtrip:
  assumes "ns_fits cached t"
  shows "unat (ns_to_tsc cached (tsc_to_ns cached t)) \<le> unat t"
    and "unat t \<le> unat (ns_to_tsc cached (tsc_to_ns cached t)) + unat (x86_tsc_frequency cached) div 1000000000 + 1"
proof -
  let ?f = "unat (x86_tsc_frequency cached)" and ?n = "unat t * 1000000000 div unat (x86_tsc_frequency cached)"
  have f: "0 < ?f" using x86_tsc_frequency_nonzero[of cached] by (simp add: unat_gt_0)
  have le: "?n * ?f \<le> unat t * 1000000000" by simp
  have "?n * ?f div 1000000000 \<le> unat t * 1000000000 div 1000000000" using le by (rule div_le_mono)
  then have q: "?n * ?f div 1000000000 \<le> unat t" by simp
  moreover have "unat t < 2 ^ 64" using unsigned_less[of t] by simp
  ultimately have "?n * ?f div 1000000000 < 2 ^ 64" by (rule le_less_trans)
  then have u: "unat (ns_to_tsc cached (tsc_to_ns cached t)) = ?n * ?f div 1000000000"
    using f unat_tsc_to_ns[OF assms] by (simp add: ns_to_tsc_def Let_def unat_of_nat)
  then show "unat (ns_to_tsc cached (tsc_to_ns cached t)) \<le> unat t" using q by simp
  have "unat t * 1000000000 < ?n * ?f + ?f"
    using f dividend_less_times_div[of ?f "unat t * 1000000000"] by (simp add: mult.commute)
  moreover have "?n * ?f < (?n * ?f div 1000000000 + 1) * 1000000000" "?f < (?f div 1000000000 + 1) * 1000000000"
    by (simp_all add: div_mult_mod_eq mult.commute dividend_less_times_div)
  ultimately have "unat t * 1000000000 < (?n * ?f div 1000000000 + ?f div 1000000000 + 2) * 1000000000"
    by (simp add: algebra_simps)
  then show "unat t \<le> unat (ns_to_tsc cached (tsc_to_ns cached t)) + ?f div 1000000000 + 1" using u by simp
qed

section \<open>Delays\<close>

text \<open>A delay returns at the first reading that is late enough.\<close>

lemma delay_loop_returns:
  "delay_loop start target_ticks ts = Return t \<longleftrightarrow>
   (\<exists>us vs. ts = us @ t # vs \<and> t - start \<ge> target_ticks \<and> (\<forall>u \<in> set us. u - start < target_ticks))"
  (is "?l ts \<longleftrightarrow> ?r ts")
proof (induction ts)
  case (Cons r rs)
  have "?r (r # rs) \<longleftrightarrow> r = t \<and> t - start \<ge> target_ticks \<or> r - start < target_ticks \<and> ?r rs"
  proof
    assume "?r (r # rs)"
    then obtain us vs where "r # rs = us @ t # vs" "t - start \<ge> target_ticks" "\<forall>u \<in> set us. u - start < target_ticks"
      by blast
    then show "r = t \<and> t - start \<ge> target_ticks \<or> r - start < target_ticks \<and> ?r rs"
      by (cases us) auto
  next
    assume "r = t \<and> t - start \<ge> target_ticks \<or> r - start < target_ticks \<and> ?r rs"
    then show "?r (r # rs)"
    proof
      assume "r - start < target_ticks \<and> ?r rs"
      then obtain us vs where "rs = us @ t # vs" "t - start \<ge> target_ticks" "\<forall>u \<in> set (r # us). u - start < target_ticks"
        by auto
      then show ?thesis by (intro exI[of _ "r # us"] exI[of _ vs]) simp
    qed force
  qed
  with Cons.IH show ?case by (auto simp: Let_def not_le)
qed simp

end
