(* ===== verification/Syscalls.thy ===== *)
theory Syscalls
  imports Loader Process_Table Vfs Keyboard Console Tsc
begin

text \<open>
  The system call layer (\<open>syscall/mod.rs\<close>): the argument block, the
  dispatcher and every handler.  The handlers work on one kernel state that
  joins physical memory and the page tables, the process table and its
  scheduler, the ramdisk, the keyboard and the console.

  Pointers from user programs are followed as the processor follows them,
  through the page tables of the active address space, which map user memory
  by 4 KiB pages; a page fault is a \<open>Panic\<close>.  A read of the ramdisk that would
  leave the image is a \<open>Panic\<close> as well, standing for the undefined behaviour
  of the raw pointers.  A \<open>SyscallRet\<close> is the 64-bit word that holds it in
  two's complement.
\<close>

section \<open>Arguments and results\<close>

record SyscallArgs =
  sc_number :: u32
  sc_args :: "u64 list"

definition SyscallArgs_new :: "u32 \<Rightarrow> u64 list \<Rightarrow> SyscallArgs" where
  "SyscallArgs_new n as = \<lparr>sc_number = n, sc_args = as\<rparr>"

definition arg :: "SyscallArgs \<Rightarrow> nat \<Rightarrow> u64" where
  "arg a i = (if i < 6 then sc_args a ! i else 0)"

definition arg_u32 :: "SyscallArgs \<Rightarrow> nat \<Rightarrow> u32" where
  "arg_u32 a i = ucast (arg a i)"

fun status_code :: "RxStatus \<Rightarrow> u64" where
  "status_code OK = 0" | "status_code ERR_INVALID_ARGS = 1" | "status_code ERR_NO_MEMORY = 2"
| "status_code ERR_NOT_IMPLEMENTED = 3" | "status_code ERR_ACCESS_DENIED = 4" | "status_code ERR_NOT_FOUND = 5"
| "status_code ERR_BUSY = 6" | "status_code ERR_IO = 7" | "status_code ERR_INTERNAL = 8"
| "status_code ERR_NOT_SUPPORTED = 9"

definition err_to_ret :: "RxStatus \<Rightarrow> u64" where "err_to_ret e = - status_code e"
definition ok_to_ret :: "u64 \<Rightarrow> u64" where "ok_to_ret v = v"
definition ok_to_ret_isize :: "u64 \<Rightarrow> u64" where "ok_to_ret_isize v = v"

section \<open>Statistics\<close>

record SyscallStats =
  ss_count :: u64
  ss_total_time :: u64
  ss_max_time :: u64

definition SyscallStats_new :: SyscallStats where
  "SyscallStats_new = \<lparr>ss_count = 0, ss_total_time = 0, ss_max_time = 0\<rparr>"

definition record_syscall :: "SyscallStats list \<Rightarrow> u32 \<Rightarrow> SyscallStats list outcome" where
  "record_syscall stats n =
     (if unat n < length stats
      then Return (stats[unat n := (stats ! unat n)\<lparr>ss_count := ss_count (stats ! unat n) + 1\<rparr>])
      else Panic ''index out of bounds'')"

definition get_syscall_stats :: "SyscallStats list \<Rightarrow> u32 \<Rightarrow> SyscallStats option" where
  "get_syscall_stats stats n = (if unat n < length stats then Some (stats ! unat n) else None)"

section \<open>The kernel state\<close>

text \<open>
  \<open>debug_port\<close> is what this layer has written to port 0xE9.  The components
  it calls write messages of their own there, which are not recorded.
\<close>

record sworld =
  aw :: aworld
  sched :: RoundRobinScheduler
  procs :: ProcessTable
  ramdisk :: "Ramdisk option"
  kbd :: keyboard
  display :: "TextConsole option"
  display_initialized :: bool
  debug_port :: "u8 list"
  tsc_cached :: u64

text \<open>
  What the hardware does during a call: the value of the time stamp counter,
  and the keyboard interrupts, as status and data bytes, that are taken before
  each retry of a read from the keyboard.
\<close>

record syscall_env =
  env_tsc :: u64
  env_irqs :: "(u8 \<times> u8) list list"

type_synonym sys_result = "(sworld \<times> u64) outcome"

definition ret_err :: "sworld \<Rightarrow> RxStatus \<Rightarrow> sys_result" where
  "ret_err w e = Return (w, err_to_ret e)"

definition out_port :: "sworld \<Rightarrow> u8 list \<Rightarrow> sworld" where
  "out_port w bs = w\<lparr>debug_port := debug_port w @ bs\<rparr>"

definition ascii :: "string \<Rightarrow> u8 list" where
  "ascii s = map of_char s"

text \<open>The loops that print a number: the digits are collected from the last and written from the first.\<close>

fun dec_digits :: "nat \<Rightarrow> u8 list" where
  "dec_digits n = (if n < 10 then [0x30 + of_nat n] else dec_digits (n div 10) @ [0x30 + of_nat (n mod 10)])"

declare dec_digits.simps [simp del]

definition hex_digit :: "nat \<Rightarrow> u8" where
  "hex_digit d = (if d < 10 then 0x30 + of_nat d else 0x61 + of_nat d - 10)"

fun hex_digits :: "nat \<Rightarrow> u8 list" where
  "hex_digits n = (if n < 16 then [hex_digit n] else hex_digits (n div 16) @ [hex_digit (n mod 16)])"

declare hex_digits.simps [simp del]

section \<open>User memory\<close>

definition uaddr :: "aworld \<Rightarrow> u64 \<Rightarrow> nat option" where
  "uaddr a va = (case walk (mem_of a) (active_root a) va of None \<Rightarrow> None
     | Some e \<Rightarrow> Some (unat (paddr_to_vaddr (pte_frame e)) + unat va mod 4096))"

text \<open>Write protection is on in the kernel too (\<open>CR0.WP\<close>), so a store needs the writable bit.\<close>

definition uaddr_writable :: "aworld \<Rightarrow> u64 \<Rightarrow> nat option" where
  "uaddr_writable a va = (case walk (mem_of a) (active_root a) va of None \<Rightarrow> None
     | Some e \<Rightarrow> if bit e 1 then Some (unat (paddr_to_vaddr (pte_frame e)) + unat va mod 4096) else None)"

definition load_byte :: "aworld \<Rightarrow> u64 \<Rightarrow> u8 outcome" where
  "load_byte a va = (case uaddr a va of None \<Rightarrow> Panic ''page fault'' | Some p \<Rightarrow> Return (mem_of a p))"

fun load_bytes :: "aworld \<Rightarrow> u64 \<Rightarrow> nat \<Rightarrow> u8 list outcome" where
  "load_bytes a va 0 = Return []"
| "load_bytes a va (Suc n) =
     outcome_bind (load_byte a va) (\<lambda>b. outcome_bind (load_bytes a (va + 1) n) (\<lambda>bs. Return (b # bs)))"

definition store_byte :: "aworld \<Rightarrow> u64 \<Rightarrow> u8 \<Rightarrow> aworld outcome" where
  "store_byte a va b =
     (case uaddr_writable a va of None \<Rightarrow> Panic ''page fault''
      | Some p \<Rightarrow> Return (set_memory a (mem_write (mem_of a) p [b])))"

fun store_bytes :: "aworld \<Rightarrow> u64 \<Rightarrow> u8 list \<Rightarrow> aworld outcome" where
  "store_bytes a va [] = Return a"
| "store_bytes a va (b # bs) = outcome_bind (store_byte a va b) (\<lambda>a1. store_bytes a1 (va + 1) bs)"

text \<open>
  The loop that reads a path ending in a zero byte: \<open>None\<close> when there is no
  zero among the first \<open>n\<close> bytes.
\<close>

fun path_loop :: "nat \<Rightarrow> aworld \<Rightarrow> u64 \<Rightarrow> u8 list option outcome" where
  "path_loop 0 a va = Return None"
| "path_loop (Suc n) a va =
     outcome_bind (load_byte a va) (\<lambda>c.
       if c = 0 then Return (Some [])
       else outcome_bind (path_loop n a (va + 1)) (\<lambda>r. Return (map_option ((#) c) r)))"

text \<open>
  \<open>core::str::from_utf8\<close>: the well-formed byte sequences of the Unicode
  standard, without overlong forms and surrogates.
\<close>

definition utf8_tail :: "u8 \<Rightarrow> bool" where "utf8_tail b \<longleftrightarrow> 0x80 \<le> b \<and> b \<le> 0xBF"

fun utf8_valid :: "u8 list \<Rightarrow> bool" where
  "utf8_valid [] = True"
| "utf8_valid (a # bs) =
     (if a < 0x80 then utf8_valid bs
      else if 0xC2 \<le> a \<and> a \<le> 0xDF then
        (case bs of b # r \<Rightarrow> utf8_tail b \<and> utf8_valid r | _ \<Rightarrow> False)
      else if 0xE0 \<le> a \<and> a \<le> 0xEF then
        (case bs of b # c # r \<Rightarrow> utf8_tail b \<and> (a = 0xE0 \<longrightarrow> 0xA0 \<le> b) \<and> (a = 0xED \<longrightarrow> b \<le> 0x9F) \<and>
           utf8_tail c \<and> utf8_valid r | _ \<Rightarrow> False)
      else if 0xF0 \<le> a \<and> a \<le> 0xF4 then
        (case bs of b # c # d # r \<Rightarrow> utf8_tail b \<and> (a = 0xF0 \<longrightarrow> 0x90 \<le> b) \<and> (a = 0xF4 \<longrightarrow> b \<le> 0x8F) \<and>
           utf8_tail c \<and> utf8_tail d \<and> utf8_valid r | _ \<Rightarrow> False)
      else False)"

section \<open>Processes\<close>

fun alloc_kernel_pages :: "nat \<Rightarrow> aworld \<Rightarrow> (aworld \<times> u64 list option) outcome" where
  "alloc_kernel_pages 0 a = Return (a, Some [])"
| "alloc_kernel_pages (Suc n) a =
     outcome_bind (pmm_alloc_kernel_page (phys_of a)) (\<lambda>(st, r).
       case r of
         Inl e \<Rightarrow> Return (set_phys a st, None)
       | Inr p \<Rightarrow> outcome_bind (alloc_kernel_pages n (set_phys a st)) (\<lambda>(a1, ps). Return (a1, map_option ((#) p) ps)))"

definition kernel_stack_top :: "u64 list \<Rightarrow> u64" where
  "kernel_stack_top paddrs = paddr_to_vaddr (paddrs ! 3) + 4096"

definition created_message :: "nat \<Rightarrow> u64 \<Rightarrow> u8 list" where
  "created_message pid e = ascii ''[SPAWN] Created process PID='' @ dec_digits pid @ ascii '' entry=0x'' @ hex_digits (unat e) @ [0x0A]"

definition load_failed_message :: "string \<Rightarrow> u8 list" where
  "load_failed_message e = ascii ''[SPAWN] Failed to load ELF: '' @ ascii e @ [0x0A]"

definition current_or_zero :: "ProcessTable \<Rightarrow> nat" where
  "current_or_zero t = (case pt_current t of Some p \<Rightarrow> p | None \<Rightarrow> 0)"

text \<open>
  The bytes of the executable are read as a whole before they are loaded, so a
  byte that is not mapped is a \<open>Panic\<close> wherever it is in the range; the
  source makes a slice of the range and faults only on the bytes that the
  loader reads.
\<close>

definition sys_process_create :: "sworld \<Rightarrow> SyscallArgs \<Rightarrow> sys_result" where
  "sys_process_create w args =
     (let elf_ptr = arg args 0; elf_size = arg args 1 in
      if elf_ptr = 0 \<or> elf_size = 0 then ret_err w ERR_INVALID_ARGS
      else let parent_pid = current_or_zero (procs w) in
        outcome_bind (load_bytes (aw w) elf_ptr (unat elf_size)) (\<lambda>elf_data.
        outcome_bind (load_elf_process (aw w) elf_data) (\<lambda>(a1, r).
          case r of
            Inl e \<Rightarrow> ret_err (out_port (w\<lparr>aw := a1\<rparr>) (load_failed_message e)) ERR_INVALID_ARGS
          | Inr process_image \<Rightarrow>
              outcome_bind (alloc_kernel_pages 4 a1) (\<lambda>(a2, ps).
                let w2 = w\<lparr>aw := a2\<rparr> in
                case ps of
                  None \<Rightarrow> ret_err w2 ERR_NO_MEMORY
                | Some paddrs \<Rightarrow>
                    (case alloc_pid (procs w2) of
                       (t1, None) \<Rightarrow> ret_err (w2\<lparr>procs := t1\<rparr>) ERR_NO_MEMORY
                     | (t1, Some pid) \<Rightarrow>
                         let process = Process_new pid parent_pid (ptb_phys (as_page_table (pi_address_space process_image)))
                               (kernel_stack_top paddrs) (pi_stack_top process_image) (pi_entry process_image)
                         in outcome_bind (pt_insert t1 process) (\<lambda>t2.
                              Return (out_port (w2\<lparr>procs := pt_set_current t2 pid\<rparr>)
                                        (created_message pid (pi_entry process_image)),
                                      ok_to_ret (of_nat pid))))))))"

text \<open>The part of a path after its last slash.\<close>

definition path_name :: "u8 list \<Rightarrow> u8 list" where
  "path_name p = rev (takeWhile (\<lambda>b. b \<noteq> 0x2F) (rev p))"

definition string_of_bytes :: "u8 list \<Rightarrow> string" where
  "string_of_bytes bs = map (\<lambda>b. char_of (unat b)) bs"

definition sys_spawn :: "sworld \<Rightarrow> SyscallArgs \<Rightarrow> sys_result" where
  "sys_spawn w args =
     (let path_ptr = arg args 0 in
      if path_ptr = 0 then ret_err w ERR_INVALID_ARGS
      else outcome_bind (path_loop 256 (aw w) path_ptr) (\<lambda>pr.
        case pr of
          None \<Rightarrow> ret_err w ERR_INVALID_ARGS
        | Some path_bytes \<Rightarrow>
            if \<not> utf8_valid path_bytes then ret_err w ERR_INVALID_ARGS
            else case get_ramdisk (ramdisk w) of
              Inl e \<Rightarrow> ret_err w ERR_NOT_FOUND
            | Inr rd \<Rightarrow>
                (case find_file rd path_bytes of
                   None \<Rightarrow> Panic ''read outside the ramdisk''
                 | Some None \<Rightarrow> ret_err w ERR_NOT_FOUND
                 | Some (Some f) \<Rightarrow>
                     let w0 = out_port w (ascii ''[SPAWN] Loading process from ramdisk: '' @ path_bytes @ [0x0A]) in
                     (case window (rd_data rd) (rf_data_offset f) (rf_size f) of
                        None \<Rightarrow> Panic ''read outside the ramdisk''
                      | Some elf_data \<Rightarrow>
                          outcome_bind (load_elf_process (aw w0) elf_data) (\<lambda>(a1, r).
                            case r of
                              Inl e \<Rightarrow> ret_err (out_port (w0\<lparr>aw := a1\<rparr>) (load_failed_message e)) ERR_INVALID_ARGS
                            | Inr process_image \<Rightarrow>
                                let parent_pid = current_or_zero (procs w0) in
                                outcome_bind (alloc_kernel_pages 4 a1) (\<lambda>(a2, ps).
                                  let w2 = w0\<lparr>aw := a2\<rparr> in
                                  case ps of
                                    None \<Rightarrow> ret_err w2 ERR_NO_MEMORY
                                  | Some paddrs \<Rightarrow>
                                      (case alloc_pid (procs w2) of
                                         (t1, None) \<Rightarrow> ret_err (w2\<lparr>procs := t1\<rparr>) ERR_NO_MEMORY
                                       | (t1, Some pid) \<Rightarrow>
                                           let process = Process_set_name (Process_new pid parent_pid
                                                 (ptb_phys (as_page_table (pi_address_space process_image)))
                                                 (kernel_stack_top paddrs) (pi_stack_top process_image) (pi_entry process_image))
                                                 (string_of_bytes (path_name path_bytes))
                                           in outcome_bind (pt_insert t1 process) (\<lambda>t2.
                                                Return (out_port (w2\<lparr>procs := t2\<rparr>)
                                                          (created_message pid (pi_entry process_image)),
                                                        ok_to_ret (of_nat pid))))))))))"

text \<open>Exit prints a mark and halts the processor for ever; the process stays in the table.\<close>

definition sys_process_exit :: "sworld \<Rightarrow> SyscallArgs \<Rightarrow> sys_result" where
  "sys_process_exit w args = (let w1 = out_port w (ascii ''[EXIT]'') in Hang)"

definition sys_handle_close :: "sworld \<Rightarrow> SyscallArgs \<Rightarrow> sys_result" where
  "sys_handle_close w args = Return (w, ok_to_ret 0)"

text \<open>The handlers that the macro \<open>syscall_stub\<close> generates.\<close>

definition syscall_stub :: "sworld \<Rightarrow> SyscallArgs \<Rightarrow> sys_result" where
  "syscall_stub w args = ret_err w ERR_NOT_SUPPORTED"

definition sys_clock_get :: "syscall_env \<Rightarrow> sworld \<Rightarrow> SyscallArgs \<Rightarrow> sys_result" where
  "sys_clock_get env w args = Return (w, ok_to_ret_isize (tsc_to_ns (tsc_cached w) (env_tsc env)))"

definition sys_getpid :: "sworld \<Rightarrow> SyscallArgs \<Rightarrow> sys_result" where
  "sys_getpid w args = Return (w, case get_current_pid (sched w, procs w) of
     Some pid \<Rightarrow> ok_to_ret (of_nat pid) | None \<Rightarrow> ok_to_ret 0)"

definition sys_getppid :: "sworld \<Rightarrow> SyscallArgs \<Rightarrow> sys_result" where
  "sys_getppid w args = Return (w, case get_current_ppid (sched w, procs w) of
     Some pid \<Rightarrow> ok_to_ret (of_nat pid) | None \<Rightarrow> ok_to_ret 0)"

text \<open>
  The request to the assembly routine is left out of the result: the scheduler
  makes none (\<open>rr_context_switch_eq\<close>).
\<close>

definition yield_world :: "sworld \<Rightarrow> (sworld \<times> unit result) outcome" where
  "yield_world w = outcome_bind (rr_yield_cpu (sched w, procs w)) (\<lambda>((rr, t), req, r).
     Return (w\<lparr>sched := rr, procs := t\<rparr>, r))"

definition sys_yield :: "sworld \<Rightarrow> SyscallArgs \<Rightarrow> sys_result" where
  "sys_yield w args = outcome_bind (yield_world w) (\<lambda>(w1, r).
     case r of
       Inr _ \<Rightarrow> Return (w1, ok_to_ret 0)
     | Inl e \<Rightarrow> ret_err (out_port w1 (ascii ''[YIELD] Failed: '' @ ascii e @ [0x0A])) ERR_INVALID_ARGS)"

section \<open>Output\<close>

definition console_of :: "sworld \<Rightarrow> console_world" where
  "console_of w = \<lparr>CONSOLE = display w, CONSOLE_INITIALIZED = display_initialized w, fb_memory = mem_of (aw w)\<rparr>"

definition put_console :: "sworld \<Rightarrow> console_world \<Rightarrow> sworld" where
  "put_console w c = w\<lparr>display := CONSOLE c, display_initialized := CONSOLE_INITIALIZED c,
     aw := set_memory (aw w) (fb_memory c)\<rparr>"

text \<open>The loops over the bytes of the caller's buffer, to the debug port and to the console.\<close>

fun debug_loop :: "nat \<Rightarrow> sworld \<Rightarrow> u64 \<Rightarrow> sworld outcome" where
  "debug_loop 0 w ptr = Return w"
| "debug_loop (Suc n) w ptr = outcome_bind (load_byte (aw w) ptr) (\<lambda>c. debug_loop n (out_port w [c]) (ptr + 1))"

fun display_loop :: "nat \<Rightarrow> sworld \<Rightarrow> u64 \<Rightarrow> sworld outcome" where
  "display_loop 0 w ptr = Return w"
| "display_loop (Suc n) w ptr = outcome_bind (load_byte (aw w) ptr) (\<lambda>c.
     display_loop n (put_console w (console_put_char c (console_of w))) (ptr + 1))"

definition sys_debug_write :: "sworld \<Rightarrow> SyscallArgs \<Rightarrow> sys_result" where
  "sys_debug_write w args =
     (let ptr = arg args 0; len = arg args 1 in
      outcome_bind (debug_loop (unat len) w ptr) (\<lambda>w1. Return (w1, ok_to_ret_isize len)))"

definition sys_write :: "sworld \<Rightarrow> SyscallArgs \<Rightarrow> sys_result" where
  "sys_write w args =
     (let fd = ucast (arg args 0) :: u8; ptr = arg args 1; len = arg args 2 in
      if fd = 1 \<or> fd = 2 then
        outcome_bind (if is_initialized (console_of w) then display_loop (unat len) w ptr else debug_loop (unat len) w ptr)
          (\<lambda>w1. Return (w1, ok_to_ret_isize len))
      else if fd = 0 then ret_err w ERR_INVALID_ARGS
      else Return (w, ok_to_ret_isize len))"

section \<open>Files\<close>

text \<open>\<open>files.get(inode)\<close>; the outer \<open>None\<close> is a read outside the image.\<close>

definition file_header :: "Ramdisk \<Rightarrow> nat \<Rightarrow> RamdiskFile option option" where
  "file_header rd i =
     (if i < sb_num_files (rd_superblock rd)
      then map_option Some (read_header (rd_data rd) (sb_files_offset (rd_superblock rd) + 16 * i))
      else Some None)"

text \<open>\<open>files.iter().position(..)\<close>, with \<open>n\<close> headers left and \<open>i\<close> the index of the next.\<close>

fun header_position :: "nat \<Rightarrow> Ramdisk \<Rightarrow> nat \<Rightarrow> RamdiskFile \<Rightarrow> nat option option" where
  "header_position 0 rd i f = Some None"
| "header_position (Suc n) rd i f =
     (case read_header (rd_data rd) (sb_files_offset (rd_superblock rd) + 16 * i) of
        None \<Rightarrow> None
      | Some g \<Rightarrow> if rf_data_offset g = rf_data_offset f \<and> rf_name_offset g = rf_name_offset f then Some (Some i)
                  else header_position n rd (i + 1) f)"

text \<open>A change of the current process, as through \<open>table.current_mut()\<close>.\<close>

definition update_current :: "ProcessTable \<Rightarrow> (Process \<Rightarrow> Process) \<Rightarrow> ProcessTable" where
  "update_current t f = (case pt_current t of None \<Rightarrow> t | Some pid \<Rightarrow> pt_update t pid f)"

definition set_fd_offset :: "u8 \<Rightarrow> (u64 \<Rightarrow> u64) \<Rightarrow> Process \<Rightarrow> Process" where
  "set_fd_offset fd g p = p\<lparr>pr_fd_table := FdTable_update (pr_fd_table p) fd (\<lambda>d.
     d\<lparr>fd_kind := (case fd_kind d of File inode offset \<Rightarrow> File inode (g offset) | k \<Rightarrow> k)\<rparr>)\<rparr>"

text \<open>
  The wait for a character: read the buffer, else yield and try again after the
  interrupts of the next round.  When no more interrupts come it never returns.
\<close>

fun stdin_wait :: "(u8 \<times> u8) list list \<Rightarrow> sworld \<Rightarrow> (sworld \<times> u8) outcome" where
  "stdin_wait irqs w =
     (case read_char (kbd w) of
        (k, Some ch) \<Rightarrow> Return (w\<lparr>kbd := k\<rparr>, ch)
      | (k, None) \<Rightarrow>
          outcome_bind (yield_world (w\<lparr>kbd := k\<rparr>)) (\<lambda>(w1, _).
            case irqs of
              [] \<Rightarrow> Hang
            | b # bs \<Rightarrow> stdin_wait bs (w1\<lparr>kbd := fold (\<lambda>(status, data) k. handle_irq k status data) b (kbd w1)\<rparr>)))"

declare stdin_wait.simps [simp del]

definition read_file_at :: "sworld \<Rightarrow> Ramdisk \<Rightarrow> RamdiskFile \<Rightarrow> u8 \<Rightarrow> u64 \<Rightarrow> u64 \<Rightarrow> u64 \<Rightarrow> sys_result" where
  "read_file_at w rd f fd offset ptr len =
     (let fsize = of_nat (rf_size f);
          remaining = (if offset \<ge> fsize then 0 else fsize - offset)
      in if remaining = 0 then Return (w, ok_to_ret_isize 0)
         else let to_read = min len remaining;
                  data_offset = rf_data_offset f + unat offset
              in case window (rd_data rd) data_offset (unat to_read) of
                   None \<Rightarrow> Panic ''read outside the ramdisk''
                 | Some bs \<Rightarrow>
                     outcome_bind (store_bytes (aw w) ptr bs) (\<lambda>a1.
                       Return (w\<lparr>aw := a1, procs := update_current (procs w) (set_fd_offset fd (\<lambda>off. off + to_read))\<rparr>,
                               ok_to_ret_isize to_read)))"

definition sys_read :: "syscall_env \<Rightarrow> sworld \<Rightarrow> SyscallArgs \<Rightarrow> sys_result" where
  "sys_read env w args =
     (let fd = ucast (arg args 0) :: u8; ptr = arg args 1; len = arg args 2 in
      case pt_current_process (procs w) of
        None \<Rightarrow> ret_err w ERR_INVALID_ARGS
      | Some current \<Rightarrow>
          (case FdTable_get (pr_fd_table current) fd of
             None \<Rightarrow> ret_err w ERR_INVALID_ARGS
           | Some file_desc \<Rightarrow>
               (case fd_kind file_desc of
                  Stdin \<Rightarrow>
                    if len = 0 then Return (w, ok_to_ret_isize 0)
                    else outcome_bind (stdin_wait (env_irqs env) w) (\<lambda>(w1, ch).
                           outcome_bind (store_byte (aw w1) ptr ch) (\<lambda>a1. Return (w1\<lparr>aw := a1\<rparr>, ok_to_ret_isize 1)))
                | File inode offset \<Rightarrow>
                    (case get_ramdisk (ramdisk w) of
                       Inl e \<Rightarrow> ret_err w ERR_NOT_FOUND
                     | Inr rd \<Rightarrow>
                         (case file_header rd (unat inode) of
                            None \<Rightarrow> Panic ''read outside the ramdisk''
                          | Some None \<Rightarrow> ret_err w ERR_INVALID_ARGS
                          | Some (Some f) \<Rightarrow> read_file_at w rd f fd offset ptr len))
                | _ \<Rightarrow> ret_err w ERR_INVALID_ARGS)))"

definition sys_open :: "sworld \<Rightarrow> SyscallArgs \<Rightarrow> sys_result" where
  "sys_open w args =
     (let path_ptr = arg args 0; flags_val = arg_u32 args 1 in
      if path_ptr = 0 then ret_err w ERR_INVALID_ARGS
      else outcome_bind (path_loop 256 (aw w) path_ptr) (\<lambda>pr.
        case pr of
          None \<Rightarrow> ret_err w ERR_INVALID_ARGS
        | Some path_bytes \<Rightarrow>
            if \<not> utf8_valid path_bytes then ret_err w ERR_INVALID_ARGS
            else case get_ramdisk (ramdisk w) of
              Inl e \<Rightarrow> ret_err w (case e of ENODEV \<Rightarrow> ERR_NOT_FOUND | _ \<Rightarrow> ERR_INVALID_ARGS)
            | Inr rd \<Rightarrow>
                (case find_file rd path_bytes of
                   None \<Rightarrow> Panic ''read outside the ramdisk''
                 | Some None \<Rightarrow> ret_err w ERR_NOT_FOUND
                 | Some (Some f) \<Rightarrow>
                     (case pt_current_process (procs w) of
                        None \<Rightarrow> ret_err w ERR_INVALID_ARGS
                      | Some current \<Rightarrow>
                          (case header_position (sb_num_files (rd_superblock rd)) rd 0 f of
                             None \<Rightarrow> Panic ''read outside the ramdisk''
                           | Some pos \<Rightarrow>
                               let inode = of_nat (case pos of Some i \<Rightarrow> i | None \<Rightarrow> 0) in
                               (case FdTable_alloc (pr_fd_table current) (File inode 0) flags_val of
                                  None \<Rightarrow> ret_err w ERR_NO_MEMORY
                                | Some (ft, fd) \<Rightarrow>
                                    Return (w\<lparr>procs := update_current (procs w) (\<lambda>p. p\<lparr>pr_fd_table := ft\<rparr>)\<rparr>,
                                            ok_to_ret (ucast fd))))))))"

definition sys_close :: "sworld \<Rightarrow> SyscallArgs \<Rightarrow> sys_result" where
  "sys_close w args =
     (let fd = ucast (arg args 0) :: u8 in
      case pt_current_process (procs w) of
        None \<Rightarrow> ret_err w ERR_INVALID_ARGS
      | Some current \<Rightarrow>
          (case FdTable_close (pr_fd_table current) fd of
             (ft, r) \<Rightarrow>
               let w1 = w\<lparr>procs := update_current (procs w) (\<lambda>p. p\<lparr>pr_fd_table := ft\<rparr>)\<rparr> in
               (case r of Some _ \<Rightarrow> Return (w1, ok_to_ret 0) | None \<Rightarrow> ret_err w1 ERR_INVALID_ARGS)))"

text \<open>
  The target of a seek, \<open>None\<close> where the code returns an error; the additions
  of signed 64-bit numbers wrap, and the sign is read from the result.
\<close>

definition lseek_target :: "u32 \<Rightarrow> u64 \<Rightarrow> u64 \<Rightarrow> u64 \<Rightarrow> u64 option" where
  "lseek_target whence offset current_offset fsize =
     (if whence = 0 then (if sint offset < 0 then None else Some offset)
      else if whence = 1 then (let new = current_offset + offset in if sint new < 0 then None else Some new)
      else if whence = 2 then (let new = fsize + offset in if sint new < 0 then None else Some new)
      else None)"

definition sys_lseek :: "sworld \<Rightarrow> SyscallArgs \<Rightarrow> sys_result" where
  "sys_lseek w args =
     (let fd = ucast (arg args 0) :: u8; offset = arg args 1; whence = ucast (arg args 2) :: u32 in
      if whence > 2 then ret_err w ERR_INVALID_ARGS
      else case pt_current_process (procs w) of
        None \<Rightarrow> ret_err w ERR_INVALID_ARGS
      | Some current \<Rightarrow>
          (case FdTable_get (pr_fd_table current) fd of
             None \<Rightarrow> ret_err w ERR_INVALID_ARGS
           | Some file_desc \<Rightarrow>
               (case fd_kind file_desc of
                  File inode current_offset \<Rightarrow>
                    (case get_ramdisk (ramdisk w) of
                       Inl e \<Rightarrow> ret_err w ERR_NOT_FOUND
                     | Inr rd \<Rightarrow>
                         (case file_header rd (unat inode) of
                            None \<Rightarrow> Panic ''read outside the ramdisk''
                          | Some None \<Rightarrow> ret_err w ERR_INVALID_ARGS
                          | Some (Some f) \<Rightarrow>
                              let fsize = of_nat (rf_size f) in
                              (case lseek_target whence offset current_offset fsize of
                                 None \<Rightarrow> ret_err w ERR_INVALID_ARGS
                               | Some new_offset \<Rightarrow>
                                   let clamped = (if sint new_offset > sint fsize then fsize else new_offset)
                                   in Return (w\<lparr>procs := update_current (procs w) (set_fd_offset fd (\<lambda>off. clamped))\<rparr>,
                                              ok_to_ret_isize clamped))))
                | _ \<Rightarrow> ret_err w ERR_INVALID_ARGS)))"

section \<open>Dispatch\<close>

definition syscall_dispatch :: "syscall_env \<Rightarrow> sworld \<Rightarrow> SyscallArgs \<Rightarrow> sys_result" where
  "syscall_dispatch env w args =
     (let num = sc_number args in
      if num = 0x01 then sys_process_create w args
      else if num = 0x02 then syscall_stub w args
      else if num = 0x03 then sys_spawn w args
      else if num = 0x04 then syscall_stub w args
      else if num = 0x05 then syscall_stub w args
      else if num = 0x06 then sys_process_exit w args
      else if num = 0x07 then sys_handle_close w args
      else if num \<in> {0x10, 0x11, 0x12, 0x13, 0x14, 0x15, 0x16} then syscall_stub w args
      else if num \<in> {0x20, 0x21, 0x22, 0x23, 0x24, 0x25, 0x26, 0x27} then syscall_stub w args
      else if num \<in> {0x30, 0x31, 0x32} then syscall_stub w args
      else if num = 0x40 then sys_clock_get env w args
      else if num \<in> {0x41, 0x42, 0x43} then syscall_stub w args
      else if num = 0x50 then sys_debug_write w args
      else if num = 0x60 then sys_write w args
      else if num = 0x61 then sys_read env w args
      else if num = 0x62 then sys_open w args
      else if num = 0x63 then sys_close w args
      else if num = 0x64 then sys_lseek w args
      else if num = 0x70 then sys_getpid w args
      else if num = 0x71 then sys_getppid w args
      else if num = 0x72 then sys_yield w args
      else ret_err w ERR_NOT_SUPPORTED)"

text \<open>The entry point of the \<open>syscall\<close> instruction (\<open>arch/amd64/syscall.rs\<close>), with the registers it passes on.\<close>

definition x86_64_syscall_entry :: "syscall_env \<Rightarrow> sworld \<Rightarrow> u64 \<Rightarrow> u64 \<Rightarrow> u64 \<Rightarrow> u64 \<Rightarrow> u64 \<Rightarrow> u64 \<Rightarrow> u32 \<Rightarrow> sys_result" where
  "x86_64_syscall_entry env w rdi rsi rdx r10 r8 r9 rax =
     syscall_dispatch env w (SyscallArgs_new rax [rdi, rsi, rdx, r10, r8, r9])"

end
