(* ===== verification/Syscall_Laws.thy ===== *)
theory Syscall_Laws
  imports Syscalls
begin

text \<open>
  What every system call guarantees: the process table, the descriptor tables
  and the keyboard buffer stay well formed, and a file call that fails leaves
  the kernel state as it was.
\<close>

section \<open>Partial outcomes\<close>

text \<open>A property of the value, when there is one.\<close>

definition outcome_all :: "('a \<Rightarrow> bool) \<Rightarrow> 'a outcome \<Rightarrow> bool" where
  "outcome_all P m \<longleftrightarrow> (\<forall>x. m = Return x \<longrightarrow> P x)"

lemma outcome_all_simps [simp]:
  "outcome_all P (Return x) = P x" "outcome_all P (Panic e)" "outcome_all P Hang"
  by (simp_all add: outcome_all_def)

lemma outcome_all_bindI: "(\<And>x. m = Return x \<Longrightarrow> outcome_all P (f x)) \<Longrightarrow> outcome_all P (outcome_bind m f)"
  by (auto simp: outcome_all_def outcome_bind_Return_iff)

lemma outcome_allD: "outcome_all P m \<Longrightarrow> m = Return x \<Longrightarrow> P x"
  by (simp add: outcome_all_def)

section \<open>Well-formed kernel states\<close>

definition procs_ok :: "ProcessTable \<Rightarrow> bool" where
  "procs_ok t \<longleftrightarrow> fresh_from t \<and> (\<forall>i p. pt_get t i = Some p \<longrightarrow> pr_pid p = i \<and> fd_inv (pr_fd_table p))"

definition kernel_ok :: "sworld \<Rightarrow> bool" where
  "kernel_ok w \<longleftrightarrow> procs_ok (procs w) \<and> kbd_inv (kbd w)"

lemma fresh_from_update: "fresh_from t \<Longrightarrow> fresh_from (pt_update t i f)"
  by (auto simp: fresh_from_def pt_shape_def pt_update_def nth_list_update)

lemma procs_ok_update:
  assumes "procs_ok t" "\<And>p. pr_pid (f p) = pr_pid p" "\<And>p. fd_inv (pr_fd_table p) \<Longrightarrow> pt_get t i = Some p \<Longrightarrow> fd_inv (pr_fd_table (f p))"
  shows "procs_ok (pt_update t i f)"
  using assms by (auto simp: procs_ok_def fresh_from_update pt_get_update split: if_splits)

lemma procs_ok_set_current: "procs_ok t \<Longrightarrow> procs_ok (pt_set_current t c)"
  by (simp add: procs_ok_def fresh_from_def) (simp add: pt_set_current_def)

lemma pt_get_next [simp]: "pt_get (t\<lparr>pt_next_pid := n\<rparr>) i = pt_get t i"
  by (simp add: pt_get_def)

lemma pt_insert_get:
  assumes "pt_insert t p = Return t'" "pt_shape t"
  shows "pt_get t' i = (if i = pr_pid p then Some p else pt_get t i)" and "pt_shape t'" "pt_next_pid t' = pt_next_pid t"
    "pt_current t' = pt_current t" "pt_get t (pr_pid p) = None"
  using assms by (auto simp: pt_insert_def Let_def pt_get_def pt_shape_def MAX_PROCESSES_def nth_list_update split: if_splits)

lemma procs_ok_set_state: "procs_ok t \<Longrightarrow> procs_ok (pt_update t i (set_state s))"
  by (rule procs_ok_update) (simp_all add: set_state_def)

lemma procs_ok_ready: "procs_ok t \<Longrightarrow> procs_ok (pt_update t i ready_if_running)"
  by (rule procs_ok_update) (simp_all add: ready_if_running_def)

lemmas procs_ok_steps = procs_ok_set_current procs_ok_set_state procs_ok_ready

lemma procs_ok_schedule:
  "procs_ok t \<Longrightarrow> rr_schedule (rr, t) = Return ((rr', t'), n) \<Longrightarrow> procs_ok t'"
  by (auto simp: rr_schedule_def outcome_bind_Return_iff Let_def procs_ok_steps split: option.splits)

lemma procs_ok_context_switch:
  assumes "procs_ok t" "rr_context_switch (rr, t) = Return ((rr', t'), q)"
  shows "procs_ok t'"
proof -
  obtain rr1 t1 n where s: "rr_schedule (rr, t) = Return ((rr1, t1), n)"
    using assms(2) by (auto simp: rr_context_switch_def outcome_bind_Return_iff)
  have "procs_ok t1" by (rule procs_ok_schedule[OF assms(1) s])
  with assms(2) s show ?thesis
    by (auto simp: rr_context_switch_def Let_def procs_ok_steps split: option.splits if_splits)
qed

lemma procs_ok_yield:
  assumes "procs_ok t" "rr_yield_cpu (rr, t) = Return ((rr', t'), q, r)"
  shows "procs_ok t'"
  using assms procs_ok_context_switch[OF assms(1), of rr]
  by (auto simp: rr_yield_cpu_def outcome_bind_Return_iff split: option.splits if_splits)

lemma procs_ok_insert:
  assumes "procs_ok t" "alloc_pid t = (t1, r)"
  shows "procs_ok t1"
    and "r = Some pid \<Longrightarrow> pt_insert t1 p = Return t2 \<Longrightarrow> pr_pid p = pid \<Longrightarrow> fd_inv (pr_fd_table p) \<Longrightarrow> procs_ok t2"
proof -
  have f: "fresh_from t" using assms(1) by (simp add: procs_ok_def)
  have t1: "r = None \<and> t1 = t \<or> (\<exists>n. n = pt_next_pid t \<and> n < 256 \<and> r = Some n \<and> t1 = t\<lparr>pt_next_pid := n + 1\<rparr>)"
    using alloc_pid_fresh[OF f] assms(2) f by (auto simp: fresh_from_def split: if_splits)
  then show p1: "procs_ok t1"
    using assms(1) by (auto simp: procs_ok_def fresh_from_def) (auto simp: pt_shape_def)
  assume p: "r = Some pid" "pt_insert t1 p = Return t2" "pr_pid p = pid" "fd_inv (pr_fd_table p)"
  have n: "pt_next_pid t1 = Suc pid" "pt_shape t1" "pid < 256" using t1 p(1) p1 by (auto simp: procs_ok_def fresh_from_def)
  note g = pt_insert_get[OF p(2) n(2)]
  have "processes t2 ! i = None" if "Suc pid \<le> i" "i < 256" for i
    using p1 that n g(1)[of i] g(2) p(3) by (auto simp: procs_ok_def fresh_from_def pt_shape_def pt_get_def)
  with p1 p(3,4) n g show "procs_ok t2" by (auto simp: procs_ok_def fresh_from_def)
qed

lemma Process_new_ok: "pr_pid (Process_new pid pp pt ks us e) = pid" "fd_inv (pr_fd_table (Process_new pid pp pt ks us e))"
  using fd_inv_at_init by (auto simp: Process_new_def fd_inv_def)

lemma Process_set_name_ok [simp]: "pr_pid (Process_set_name p n) = pr_pid p" "pr_fd_table (Process_set_name p n) = pr_fd_table p"
  by (simp_all add: Process_set_name_def)

lemma procs_ok_update_current:
  assumes "procs_ok t" "\<And>p. pr_pid (f p) = pr_pid p"
    and "\<And>p. fd_inv (pr_fd_table p) \<Longrightarrow> pt_current_process t = Some p \<Longrightarrow> fd_inv (pr_fd_table (f p))"
  shows "procs_ok (update_current t f)"
  using assms by (auto simp: update_current_def pt_current_process_def split: option.splits intro: procs_ok_update)

lemma fd_inv_update: "fd_inv t \<Longrightarrow> fd_inv (FdTable_update t fd f)"
  by (auto simp: fd_inv_def fd_inv_at_def FdTable_update_def nth_list_update)

lemma procs_ok_fd_offset: "procs_ok t \<Longrightarrow> procs_ok (update_current t (set_fd_offset fd g))"
  by (rule procs_ok_update_current) (simp_all add: set_fd_offset_def fd_inv_update)

section \<open>Calls that keep the state well formed\<close>

lemma kernel_ok_fields [simp]:
  "kernel_ok (w\<lparr>aw := a\<rparr>) = kernel_ok w" "kernel_ok (out_port w bs) = kernel_ok w" "kernel_ok (put_console w c) = kernel_ok w"
  by (simp_all add: kernel_ok_def out_port_def put_console_def)

lemma kernel_ok_yield: "kernel_ok w \<Longrightarrow> yield_world w = Return (w', r) \<Longrightarrow> kernel_ok w'"
  by (auto simp: yield_world_def outcome_bind_Return_iff kernel_ok_def intro: procs_ok_yield)

lemma kbd_inv_modifiers [simp]:
  "kbd_inv (k\<lparr>modifier_state := m\<rparr>) = kbd_inv k" "kbd_inv (k\<lparr>extended_scancode := x\<rparr>) = kbd_inv k"
  by (simp_all add: kbd_inv_def)

lemma kbd_inv_special: "kbd_inv k \<Longrightarrow> kbd_inv (special_pressed x k)"
  by (cases x) (simp_all add: buffer_write_pending)

lemma kbd_inv_irq: "kbd_inv k \<Longrightarrow> kbd_inv (handle_irq k status data)"
  by (simp add: handle_irq_def handle_scancode_def key_released_def Let_def buffer_write_pending kbd_inv_special
      split: KeyEvent.split)

lemma kbd_inv_irqs: "kbd_inv k \<Longrightarrow> kbd_inv (fold (\<lambda>(status, data) k. handle_irq k status data) b k)"
  by (induction b arbitrary: k) (auto simp: kbd_inv_irq)

lemma stdin_wait_ok: "kernel_ok w \<Longrightarrow> stdin_wait irqs w = Return (w', ch) \<Longrightarrow> kernel_ok w'"
proof (induction irqs arbitrary: w)
  case Nil
  then show ?case using read_char_pending(1)[of "kbd w"]
    by (auto simp: stdin_wait.simps outcome_bind_Return_iff kernel_ok_def split: prod.splits option.splits)
next
  case (Cons b bs)
  obtain k c where rc: "read_char (kbd w) = (k, c)" by fastforce
  have k: "kernel_ok (w\<lparr>kbd := k\<rparr>)" using Cons.prems(1) rc read_char_pending(1)[of "kbd w"] by (simp add: kernel_ok_def)
  show ?case
  proof (cases c)
    case None
    with rc Cons.prems(2) obtain w1 u where
      y: "yield_world (w\<lparr>kbd := k\<rparr>) = Return (w1, u)"
        "stdin_wait bs (w1\<lparr>kbd := fold (\<lambda>(status, data) k. handle_irq k status data) b (kbd w1)\<rparr>) = Return (w', ch)"
      by (auto simp: stdin_wait.simps[of "b # bs"] outcome_bind_Return_iff)
    show ?thesis
      by (rule Cons.IH[OF _ y(2)]) (use kernel_ok_yield[OF k y(1)] in \<open>simp add: kernel_ok_def kbd_inv_irqs\<close>)
  next
    case (Some x)
    with rc Cons.prems(2) k show ?thesis by (simp add: stdin_wait.simps[of "b # bs"])
  qed
qed

abbreviation keeps_ok :: "sys_result \<Rightarrow> bool" where
  "keeps_ok \<equiv> outcome_all (\<lambda>(w', r). kernel_ok w')"

lemma debug_loop_ok: "kernel_ok w \<Longrightarrow> outcome_all kernel_ok (debug_loop n w ptr)"
  by (induction n arbitrary: w ptr) (auto intro!: outcome_all_bindI)

lemma display_loop_ok: "kernel_ok w \<Longrightarrow> outcome_all kernel_ok (display_loop n w ptr)"
  by (induction n arbitrary: w ptr) (auto intro!: outcome_all_bindI)

lemma keeps_ok_ret_err [simp]: "keeps_ok (ret_err w e) = kernel_ok w"
  by (simp add: ret_err_def)

lemma sys_write_ok: "kernel_ok w \<Longrightarrow> keeps_ok (sys_write w args)"
  using debug_loop_ok[of w] display_loop_ok[of w]
  by (auto simp: sys_write_def Let_def outcome_all_def[of kernel_ok] intro!: outcome_all_bindI)

lemma sys_debug_write_ok: "kernel_ok w \<Longrightarrow> keeps_ok (sys_debug_write w args)"
  using debug_loop_ok[of w] by (auto simp: sys_debug_write_def Let_def outcome_all_def[of kernel_ok] intro!: outcome_all_bindI)

lemma kernel_ok_fd_offset:
  "kernel_ok w \<Longrightarrow> kernel_ok (w\<lparr>procs := update_current (procs w) (set_fd_offset fd g)\<rparr>)"
  by (simp add: kernel_ok_def procs_ok_fd_offset)

lemma read_file_at_ok: "kernel_ok w \<Longrightarrow> keeps_ok (read_file_at w rd f fd off ptr len)"
  by (auto simp: read_file_at_def Let_def kernel_ok_def procs_ok_fd_offset intro!: outcome_all_bindI split: option.split)

lemma sys_read_ok: "kernel_ok w \<Longrightarrow> keeps_ok (sys_read env w args)"
  by (auto simp: sys_read_def Let_def read_file_at_ok dest: stdin_wait_ok intro!: outcome_all_bindI
      split: option.split FdKind.split sum.split)

lemma sys_lseek_ok: "kernel_ok w \<Longrightarrow> keeps_ok (sys_lseek w args)"
  by (auto simp: sys_lseek_def Let_def kernel_ok_fd_offset split: option.split FdKind.split sum.split)

lemma kernel_ok_fd_table:
  assumes "kernel_ok w" "\<And>p. pt_current_process (procs w) = Some p \<Longrightarrow> fd_inv (pr_fd_table p) \<Longrightarrow> fd_inv ft"
  shows "kernel_ok (w\<lparr>procs := update_current (procs w) (\<lambda>p. p\<lparr>pr_fd_table := ft\<rparr>)\<rparr>)"
  using assms by (simp add: kernel_ok_def procs_ok_update_current)

lemma fd_inv_alloc: "FdTable_alloc t k f = Some (t', fd) \<Longrightarrow> fd_inv t \<Longrightarrow> fd_inv t'"
  unfolding fd_inv_def using fd_alloc_inv(3) by blast

lemma fd_inv_close: "FdTable_close t fd = (t', r) \<Longrightarrow> fd_inv t \<Longrightarrow> fd_inv t'"
  unfolding fd_inv_def using fd_close_inv[of _ t fd] by auto

lemma sys_open_ok: "kernel_ok w \<Longrightarrow> keeps_ok (sys_open w args)"
  by (auto simp: sys_open_def Let_def intro!: outcome_all_bindI kernel_ok_fd_table
      split: option.split sum.split prod.split) (erule fd_inv_alloc, assumption)+

lemma sys_close_ok: "kernel_ok w \<Longrightarrow> keeps_ok (sys_close w args)"
  by (auto simp: sys_close_def Let_def intro!: kernel_ok_fd_table intro: fd_inv_close split: option.split prod.split)

lemma created_procs_ok:
  "alloc_pid t = (t1, Some pid) \<Longrightarrow> pt_insert t1 p = Return t2 \<Longrightarrow> procs_ok t \<Longrightarrow> pr_pid p = pid \<Longrightarrow>
   fd_inv (pr_fd_table p) \<Longrightarrow> procs_ok t2"
  using procs_ok_insert(2)[of t t1 "Some pid" pid p t2] by simp

lemma no_pid_procs_ok: "alloc_pid t = (t1, r) \<Longrightarrow> procs_ok t \<Longrightarrow> procs_ok t1"
  using procs_ok_insert(1) .

lemma out_port_fields [simp]:
  "procs (out_port w bs) = procs w" "kbd (out_port w bs) = kbd w" "aw (out_port w bs) = aw w"
  by (simp_all add: out_port_def)

lemma sys_process_create_ok: "kernel_ok w \<Longrightarrow> keeps_ok (sys_process_create w args)"
  by (auto simp: sys_process_create_def ret_err_def Let_def kernel_ok_def Process_new_ok
      intro!: outcome_all_bindI procs_ok_set_current split: option.split sum.split prod.split)
    (erule no_pid_procs_ok, assumption, erule created_procs_ok, assumption, simp_all add: Process_new_ok)

lemma sys_spawn_ok: "kernel_ok w \<Longrightarrow> keeps_ok (sys_spawn w args)"
  by (auto simp: sys_spawn_def ret_err_def Let_def kernel_ok_def Process_new_ok
      intro!: outcome_all_bindI split: option.split sum.split prod.split)
    (erule no_pid_procs_ok, assumption, erule created_procs_ok, assumption, simp_all add: Process_new_ok)

lemma sys_yield_ok: "kernel_ok w \<Longrightarrow> keeps_ok (sys_yield w args)"
  by (auto simp: sys_yield_def intro!: outcome_all_bindI dest: kernel_ok_yield split: sum.split)

section \<open>Dispatch\<close>

lemma dispatch_ok: "kernel_ok w \<Longrightarrow> keeps_ok (syscall_dispatch env w args)"
  by (simp add: syscall_dispatch_def Let_def sys_process_create_ok sys_spawn_ok sys_write_ok sys_debug_write_ok sys_read_ok
      sys_open_ok sys_close_ok sys_lseek_ok syscall_stub_def sys_process_exit_def sys_handle_close_def sys_clock_get_def
      sys_getpid_def sys_getppid_def sys_yield_ok)

text \<open>The numbers that have a handler of their own.\<close>

definition implemented :: "u32 \<Rightarrow> bool" where
  "implemented n \<longleftrightarrow> n \<in> {0x01, 0x03, 0x06, 0x07, 0x40, 0x50, 0x60, 0x61, 0x62, 0x63, 0x64, 0x70, 0x71, 0x72}"

lemma dispatch_unimplemented:
  "\<not> implemented (sc_number args) \<Longrightarrow> syscall_dispatch env w args = Return (w, err_to_ret ERR_NOT_SUPPORTED)"
  by (simp add: implemented_def syscall_dispatch_def Let_def syscall_stub_def ret_err_def)

section \<open>The state after an error\<close>

text \<open>A call that fails leaves the state as it was and returns the code of an error.\<close>

definition fails_cleanly :: "sworld \<Rightarrow> sys_result \<Rightarrow> bool" where
  "fails_cleanly w = outcome_all (\<lambda>(w', r). sint r < 0 \<longrightarrow> w' = w \<and> (\<exists>e. e \<noteq> OK \<and> r = err_to_ret e))"

lemma fails_cleanly_err [simp]: "e \<noteq> OK \<Longrightarrow> fails_cleanly w (ret_err w e)"
  by (auto simp: fails_cleanly_def ret_err_def)

lemma fails_cleanly_Panic [simp]: "fails_cleanly w (Panic m)" "fails_cleanly w Hang"
  by (simp_all add: fails_cleanly_def)

lemma fails_cleanly_value: "0 \<le> sint r \<Longrightarrow> fails_cleanly w (Return (w', r))"
  by (simp add: fails_cleanly_def)

lemma fails_cleanly_bind: "(\<And>x. m = Return x \<Longrightarrow> fails_cleanly w (f x)) \<Longrightarrow> fails_cleanly w (outcome_bind m f)"
  unfolding fails_cleanly_def by (rule outcome_all_bindI)

lemma uint_less_unat: "uint (x :: u64) < 2 ^ 63 \<longleftrightarrow> unat x < 2 ^ 63"
proof -
  have "uint x < 2 ^ 63 \<longleftrightarrow> int (unat x) < int (2 ^ 63)" unfolding uint_nat by simp
  then show ?thesis unfolding of_nat_less_iff .
qed

lemma sint_small: "unat (x :: u64) < 2 ^ 63 \<Longrightarrow> sint x = int (unat x)"
proof -
  assume "unat x < 2 ^ 63"
  then have "uint x < 2 ^ 63" using uint_less_unat by blast
  then have "signed_take_bit 63 (uint x) = uint x" by (intro signed_take_bit_int_eq_self) (auto intro: order_trans[of _ 0])
  moreover have "sint x = signed_take_bit 63 (uint x)" using sint_uint[of x] by simp
  ultimately show ?thesis by simp
qed

lemma sint_nonneg: "0 \<le> sint (x :: u64) \<Longrightarrow> sint x = int (unat x) \<and> unat x < 2 ^ 63"
proof -
  assume a: "0 \<le> sint x"
  have u: "uint x < 2 ^ 64" using uint_bounded[of x] by simp
  have "sint x = uint x - 2 ^ 64 * of_bool (bit (uint x) 63)"
    using sint_uint[of x] signed_take_bit_eq_take_bit_minus[of 63 "uint x"] u by (simp add: take_bit_int_eq_self)
  with a u have e: "sint x = uint x" by (cases "bit (uint x) 63") auto
  moreover have "sint x < 2 ^ 63" using sint_lt[of x] by simp
  ultimately show ?thesis using uint_less_unat by simp
qed

lemma read_header_size: "read_header d off = Some f \<Longrightarrow> rf_size f < 0x100000000"
  by (auto simp: read_header_def dest!: read_le_bound split: option.splits)

lemma file_header_size: "file_header rd i = Some (Some f) \<Longrightarrow> rf_size f < 0x100000000"
  by (auto simp: file_header_def read_header_size split: if_splits)

lemma size_word:
  assumes "n < 0x100000000"
  shows "unat (of_nat n :: u64) = n" "sint (of_nat n :: u64) = int n"
proof -
  show "unat (of_nat n :: u64) = n" using assms by (simp add: unat_of_nat)
  with sint_small[of "of_nat n"] assms show "sint (of_nat n :: u64) = int n" by simp
qed

lemma read_file_at_fails:
  assumes "rf_size f < 0x100000000"
  shows "fails_cleanly w (read_file_at w rd f fd off ptr len)"
proof -
  have "0 \<le> sint (min len (of_nat (rf_size f) - off))" if "\<not> of_nat (rf_size f) \<le> off"
  proof -
    have "unat (of_nat (rf_size f) - off) \<le> rf_size f"
      using that size_word[OF assms] by (simp add: unat_sub not_le order_less_imp_le)
    moreover have "unat (min len (of_nat (rf_size f) - off)) \<le> unat (of_nat (rf_size f) - off)"
      by (simp add: word_le_nat_alt flip: word_le_nat_alt)
    ultimately have "unat (min len (of_nat (rf_size f) - off)) < 2 ^ 63" using assms by simp
    then show ?thesis by (simp add: sint_small)
  qed
  then show ?thesis
    by (auto simp: read_file_at_def Let_def ok_to_ret_isize_def intro!: fails_cleanly_bind fails_cleanly_value split: option.split)
qed

lemma sys_read_fails: "fails_cleanly w (sys_read env w args)"
  by (auto simp: sys_read_def Let_def ok_to_ret_isize_def read_file_at_fails file_header_size
      intro!: fails_cleanly_bind fails_cleanly_value split: option.split FdKind.split sum.split)

lemma lseek_target_nonneg: "lseek_target wh off cur s = Some n \<Longrightarrow> 0 \<le> sint n"
  by (auto simp: lseek_target_def Let_def split: if_splits)

lemma sys_lseek_fails: "fails_cleanly w (sys_lseek w args)"
  by (auto simp: sys_lseek_def Let_def ok_to_ret_isize_def lseek_target_nonneg size_word file_header_size
      intro!: fails_cleanly_value split: option.split FdKind.split sum.split)

lemma sys_open_fails: "fails_cleanly w (sys_open w args)"
proof -
  have "0 \<le> sint (ucast fd :: u64)" for fd :: u8
    using sint_small[of "ucast fd"] unat_u8_less[of fd] by (simp add: unsigned_ucast_eq take_bit_nat_eq_self)
  then show ?thesis
    by (auto simp: sys_open_def Let_def ok_to_ret_def
        intro!: fails_cleanly_bind fails_cleanly_value split: option.split sum.split prod.split Errno.split)
qed

lemma update_current_id:
  assumes "pt_current_process t = Some p" "f p = p"
  shows "update_current t f = t"
proof -
  obtain c where c: "pt_current t = Some c" "pt_get t c = Some p" using assms(1) by (auto simp: pt_current_process_def split: option.splits)
  then have "c < length (processes t)" "processes t ! c = Some p" by (auto simp: pt_get_def split: if_splits)
  then have "(processes t)[c := map_option f (processes t ! c)] = processes t" using assms(2) by (metis list_update_id option.map(2))
  with c show ?thesis by (simp add: update_current_def pt_update_def)
qed

lemma FdTable_close_none: "FdTable_close t fd = (t', None) \<Longrightarrow> t' = t"
  by (cases t) (auto simp: FdTable_close_def list_update_same_conv split: if_splits)

lemma sys_close_fails: "fails_cleanly w (sys_close w args)"
  by (auto simp: sys_close_def Let_def ok_to_ret_def update_current_id dest!: FdTable_close_none
      intro!: fails_cleanly_value split: option.split prod.split)

section \<open>A sample state\<close>

text \<open>A kernel with one process, number 1, which is current.\<close>

definition empty_ramdisk :: Ramdisk where
  "empty_ramdisk = \<lparr>rd_data = [], rd_superblock = \<lparr>sb_magic = 0x52555458, sb_num_files = 0, sb_files_offset = 12\<rparr>\<rparr>"

definition sample_process :: Process where
  "sample_process = Process_new 1 0 0x1000 0 0x7FFFFFFFF000 0x400000"

definition sample_kernel :: "aworld \<Rightarrow> Ramdisk \<Rightarrow> sworld" where
  "sample_kernel a rd = \<lparr>aw = a, sched = RoundRobinScheduler_new,
     procs = \<lparr>processes = (replicate 256 None)[1 := Some sample_process], pt_current = Some 1, pt_next_pid = 2\<rparr>,
     ramdisk = Some rd, kbd = keyboard_init, display = None, display_initialized = False, debug_port = [], tsc_cached = 0\<rparr>"

lemma sample_kernel_ok: "kernel_ok (sample_kernel a rd)"
proof -
  let ?t = "\<lparr>processes = (replicate 256 None)[1 := Some sample_process], pt_current = Some 1, pt_next_pid = 2\<rparr>"
  have "fresh_from ?t" by (simp add: fresh_from_def pt_shape_def)
  moreover have "pt_get ?t i = (if i = 1 then Some sample_process else None)" for i by (simp add: pt_get_def)
  moreover have "kbd_inv keyboard_init"
    using cb_inv_new[of 256, where 'a = u8] by (simp add: kbd_inv_def keyboard_init_def INPUT_BUFFER_SIZE_def)
  ultimately show ?thesis by (simp add: kernel_ok_def procs_ok_def sample_kernel_def sample_process_def Process_new_ok)
qed

lemma sample_current: "pt_current_process (procs (sample_kernel a rd)) = Some sample_process"
  by (simp add: pt_current_process_def pt_get_def sample_kernel_def)

section \<open>Properties\<close>

text \<open>
  Claim C39 (well-formed states): whatever a system call does, and whatever the
  hardware does meanwhile, when it returns the process table again has 256
  slots with every process at the index of its number and no process at or
  above the next number, every descriptor table is again well formed, and the
  indices of the keyboard's input buffer are in range.
\<close>

theorem syscall_keeps_kernel_ok:
  assumes "kernel_ok w" "syscall_dispatch env w args = Return (w', r)"
  shows "kernel_ok w'"
  using outcome_allD[OF dispatch_ok[OF assms(1)] assms(2)] by simp

text \<open>The sample kernel has no current process in its scheduler: a yield reports that on the debug port.\<close>

theorem syscall_keeps_kernel_ok_witness:
  "\<exists>w'. syscall_dispatch \<lparr>env_tsc = 0, env_irqs = []\<rparr> (sample_kernel sample_aworld empty_ramdisk)
     (SyscallArgs_new 0x72 [0, 0, 0, 0, 0, 0]) = Return (w', err_to_ret ERR_INVALID_ARGS) \<and> debug_port w' \<noteq> [] \<and> kernel_ok w'"
proof -
  let ?w = "sample_kernel sample_aworld empty_ramdisk" and ?e = "\<lparr>env_tsc = 0, env_irqs = []\<rparr>"
  let ?w' = "out_port ?w (ascii ''[YIELD] Failed: '' @ ascii ''No current process'' @ [0x0A])"
  have "syscall_dispatch ?e ?w (SyscallArgs_new 0x72 [0, 0, 0, 0, 0, 0]) = Return (?w', err_to_ret ERR_INVALID_ARGS)"
    by (simp add: syscall_dispatch_def SyscallArgs_new_def Let_def sys_yield_def yield_world_def rr_yield_cpu_def
        sample_kernel_def RoundRobinScheduler_new_def ret_err_def)
  moreover from syscall_keeps_kernel_ok[OF sample_kernel_ok this] have "kernel_ok ?w'" .
  moreover have "debug_port ?w' \<noteq> []" by (simp add: out_port_def ascii_def)
  ultimately show ?thesis by blast
qed

text \<open>
  Claim C40 (errors change nothing): a number without a handler of its own
  returns \<open>ERR_NOT_SUPPORTED\<close> and changes nothing.  When \<open>read\<close>, \<open>open\<close>,
  \<open>close\<close> or \<open>lseek\<close> returns a negative value, it is the code of an error and
  the whole kernel state is as before the call.
\<close>

theorem syscall_errors_change_nothing:
  "(\<not> implemented (sc_number args) \<longrightarrow> syscall_dispatch env w args = Return (w, err_to_ret ERR_NOT_SUPPORTED)) \<and>
   (sc_number args \<in> {0x61, 0x62, 0x63, 0x64} \<and> syscall_dispatch env w args = Return (w', r) \<and> sint r < 0 \<longrightarrow>
      w' = w \<and> (\<exists>e. e \<noteq> OK \<and> r = err_to_ret e))"
proof -
  have "fails_cleanly w (syscall_dispatch env w args)" if "sc_number args \<in> {0x61, 0x62, 0x63, 0x64}"
    using that sys_read_fails sys_open_fails sys_close_fails sys_lseek_fails
    by (auto simp: syscall_dispatch_def Let_def)
  then show ?thesis using dispatch_unimplemented by (auto simp: fails_cleanly_def outcome_all_def)
qed

text \<open>Seeking with an unknown \<open>whence\<close>, and a call that has no handler.\<close>

theorem syscall_errors_change_nothing_witness:
  "\<exists>w'. syscall_dispatch \<lparr>env_tsc = 0, env_irqs = []\<rparr> (sample_kernel sample_aworld empty_ramdisk)
     (SyscallArgs_new 0x64 [3, 0, 9, 0, 0, 0]) = Return (w', - 1) \<and> w' = sample_kernel sample_aworld empty_ramdisk \<and>
   syscall_dispatch \<lparr>env_tsc = 0, env_irqs = []\<rparr> w' (SyscallArgs_new 0x10 [0, 0, 0, 0, 0, 0]) = Return (w', - 9)"
proof -
  let ?w = "sample_kernel sample_aworld empty_ramdisk" and ?e = "\<lparr>env_tsc = 0, env_irqs = []\<rparr>"
    and ?s = "SyscallArgs_new 0x64 [3, 0, 9, 0, 0, 0]" and ?n = "SyscallArgs_new 0x10 [0, 0, 0, 0, 0, 0]"
  have "syscall_dispatch ?e ?w ?s = ret_err ?w ERR_INVALID_ARGS"
    by (simp add: syscall_dispatch_def SyscallArgs_new_def Let_def sys_lseek_def arg_def)
  then obtain w' where w': "syscall_dispatch ?e ?w ?s = Return (w', - 1)" by (simp add: ret_err_def err_to_ret_def)
  have "w' = ?w" using syscall_errors_change_nothing[of ?s ?e ?w w' "- 1"] w' by (simp add: SyscallArgs_new_def)
  moreover have "syscall_dispatch ?e ?w ?n = Return (?w, - 9)"
    using syscall_errors_change_nothing[of ?n ?e ?w] by (simp add: SyscallArgs_new_def implemented_def err_to_ret_def)
  ultimately show ?thesis using w' by blast
qed

end
