(* ===== verification/Syscall_Files.thy ===== *)
theory Syscall_Files
  imports Syscall_Laws
begin

text \<open>
  The file calls: \<open>sys_open\<close>, \<open>sys_read\<close> and \<open>sys_lseek\<close> on a ramdisk file,
  compared with the file operations of \<open>fs/vfs.rs\<close>, and the user memory that
  they read and write.
\<close>

section \<open>User memory\<close>

text \<open>
  A buffer of the caller: every byte of it is mapped writable to a page of the
  user zone, and no two of its addresses are mapped to the same byte.
\<close>

definition user_buffer :: "aworld \<Rightarrow> u64 \<Rightarrow> nat \<Rightarrow> bool" where
  "user_buffer a ptr n \<longleftrightarrow> (\<forall>i < n. \<exists>e s. walk (mem_of a) (active_root a) (ptr + of_nat i) = Some e \<and> bit e 1 \<and>
     user_page (phys_of a) s (pte_frame e)) \<and> inj_on (\<lambda>i. uaddr a (ptr + of_nat i)) {..<n}"

text \<open>A step that only writes user pages.\<close>

definition user_step :: "aworld \<Rightarrow> aworld \<Rightarrow> bool" where
  "user_step a a' \<longleftrightarrow> phys_of a' = phys_of a \<and> cr3 a' = cr3 a \<and> user_only (vw a) (vw a')"

lemma user_step_walk:
  assumes "active_ok a" "user_step a a'"
  shows "active_ok a'" "walk (mem_of a') (active_root a') va = walk (mem_of a) (active_root a) va"
    "uaddr a' va = uaddr a va" "uaddr_writable a' va = uaddr_writable a va"
    "user_buffer a' ptr n = user_buffer a ptr n"
proof -
  have st: "phys_of a' = phys_of a" "cr3 a' = cr3 a" "user_only (vw a) (vw a')" using assms(2) by (simp_all add: user_step_def)
  have r: "active_root a' = active_root a" using st(2) by (simp add: active_root_def)
  have "active_ok (a\<lparr>vw := vw a'\<rparr>)" by (rule user_only_active(1)[OF assms(1) st(3)])
  then show "active_ok a'" using st(2) by (simp add: active_ok_def active_root_def)
  have t: "walk (mem_of a') (active_root a') va = walk (mem_of a) (active_root a) va" for va
    unfolding r by (rule user_only_tables(2)[OF st(3)]) (use assms(1) in \<open>simp add: active_ok_def\<close>)
  then show "walk (mem_of a') (active_root a') va = walk (mem_of a) (active_root a) va" .
  have u: "uaddr a' va = uaddr a va" for va by (simp add: uaddr_def t)
  then show "uaddr a' va = uaddr a va" .
  show "uaddr_writable a' va = uaddr_writable a va" by (simp add: uaddr_writable_def t)
  show "user_buffer a' ptr n = user_buffer a ptr n" by (simp add: user_buffer_def t u st(1))
qed

lemma user_step_refl: "active_ok a \<Longrightarrow> user_step a a"
  by (simp add: user_step_def active_ok_def user_only_refl)

lemma user_step_trans:
  assumes "user_step a b" "user_step b c"
  shows "user_step a c"
  using assms unfolding user_step_def user_only_def by metis

lemma user_buffer_address:
  assumes "active_ok a" "user_buffer a ptr n" "i < n"
  shows "\<exists>q s. user_page (phys_of a) s q \<and> uaddr_writable a (ptr + of_nat i) = Some (unat q + unat (ptr + of_nat i) mod 4096) \<and>
    uaddr a (ptr + of_nat i) = Some (unat q + unat (ptr + of_nat i) mod 4096)"
proof -
  obtain e s where e: "walk (mem_of a) (active_root a) (ptr + of_nat i) = Some e" "bit e 1" "user_page (phys_of a) s (pte_frame e)"
    using assms(2,3) unfolding user_buffer_def by blast
  have "zone_low (phys_of a)" using assms(1) by (simp add: active_ok_def world_inv_def)
  then have "low_page (pte_frame e)" using e(3) zone_low_user_page by (auto simp: low_page_def)
  then have "paddr_to_vaddr (pte_frame e) = pte_frame e" by (rule low_page_vaddr)
  with e show ?thesis by (intro exI[of _ "pte_frame e"] exI[of _ s]) (simp add: uaddr_def uaddr_writable_def)
qed

lemma store_byte_step:
  assumes "active_ok a" "user_page (phys_of a) s q" "uaddr_writable a va = Some (unat q + j)" "j < 4096"
  shows "store_byte a va b = Return (set_memory a (mem_write (mem_of a) (unat q + j) [b]))"
    and "user_step a (set_memory a (mem_write (mem_of a) (unat q + j) [b]))"
proof -
  show "store_byte a va b = Return (set_memory a (mem_write (mem_of a) (unat q + j) [b]))"
    using assms(3) by (simp add: store_byte_def)
  have "mem_write (mem_of a) (unat q + j) [b] x = mem_of a x" if "x \<noteq> unat q + j" for x
    using that by (auto simp: mem_write_def)
  then have "user_only (vw a) (vw (set_memory a (mem_write (mem_of a) (unat q + j) [b])))"
    using assms unfolding user_only_def set_memory_def
    by (simp add: grows_refl active_ok_def world_inv_def) (metis add_less_cancel_left le_add1)
  then show "user_step a (set_memory a (mem_write (mem_of a) (unat q + j) [b]))"
    by (simp add: user_step_def set_memory_def)
qed

lemma next_address: "ptr + 1 + of_nat i = (ptr :: u64) + of_nat (Suc i)"
  by simp

lemma user_buffer_tail:
  assumes "user_buffer a ptr (Suc n)"
  shows "user_buffer a (ptr + 1) n" "i < n \<Longrightarrow> uaddr a (ptr + 1 + of_nat i) \<noteq> uaddr a ptr"
proof -
  have inj: "inj_on (\<lambda>i. uaddr a (ptr + of_nat i)) {..<Suc n}" using assms by (simp add: user_buffer_def)
  have "inj_on (\<lambda>i. uaddr a (ptr + 1 + of_nat i)) {..<n}"
    unfolding next_address using inj by (auto simp: inj_on_def simp del: of_nat_Suc)
  then show "user_buffer a (ptr + 1) n" using assms unfolding user_buffer_def next_address by (simp del: of_nat_Suc)
  show "uaddr a (ptr + 1 + of_nat i) \<noteq> uaddr a ptr" if "i < n"
    unfolding next_address using inj_onD[OF inj, of "Suc i" 0] that by auto
qed

lemma store_bytes_correct:
  assumes "active_ok a" "user_buffer a ptr (length bs)"
  shows "\<exists>a'. store_bytes a ptr bs = Return a' \<and> user_step a a' \<and>
    (\<forall>i < length bs. load_byte a' (ptr + of_nat i) = Return (bs ! i)) \<and>
    (\<forall>x. (\<forall>i < length bs. uaddr a (ptr + of_nat i) \<noteq> Some x) \<longrightarrow> mem_of a' x = mem_of a x)"
  using assms
proof (induction bs arbitrary: a ptr)
  case Nil
  then show ?case by (simp add: user_step_refl)
next
  case (Cons b bs)
  obtain q s where q: "user_page (phys_of a) s q" "uaddr_writable a ptr = Some (unat q + unat ptr mod 4096)"
    "uaddr a ptr = Some (unat q + unat ptr mod 4096)"
    using user_buffer_address[OF Cons.prems, of 0] by auto
  let ?p = "unat q + unat ptr mod 4096" and ?a = "set_memory a (mem_write (mem_of a) (unat q + unat ptr mod 4096) [b])"
  note st = store_byte_step[OF Cons.prems(1) q(1,2), of b, simplified]
  note w = user_step_walk[OF Cons.prems(1) st(2)]
  have tail: "user_buffer a (ptr + 1) (length bs)" "\<And>i. i < length bs \<Longrightarrow> uaddr a (ptr + 1 + of_nat i) \<noteq> Some ?p"
    using user_buffer_tail[of a ptr "length bs"] Cons.prems(2) q(3) by simp_all
  from Cons.IH[OF w(1)] w(5) tail(1) obtain a' where
    a': "store_bytes ?a (ptr + 1) bs = Return a'" "user_step ?a a'"
      "\<And>i. i < length bs \<Longrightarrow> load_byte a' (ptr + 1 + of_nat i) = Return (bs ! i)"
      "\<And>x. (\<And>i. i < length bs \<Longrightarrow> uaddr a (ptr + 1 + of_nat i) \<noteq> Some x) \<Longrightarrow> mem_of a' x = mem_of ?a x"
    unfolding w(3) by blast
  have "uaddr a' ptr = Some ?p" using user_step_walk(3)[OF w(1) a'(2)] w(3) q(3) by simp
  moreover have "mem_of a' ?p = b" using a'(4)[OF tail(2)] by (simp add: set_memory_def mem_write_def)
  ultimately have b: "load_byte a' ptr = Return b" by (simp add: load_byte_def)
  have "load_byte a' (ptr + of_nat i) = Return ((b # bs) ! i)" if "i < length (b # bs)" for i
    using that b a'(3)[unfolded next_address] by (cases i) auto
  moreover have "mem_of a' x = mem_of a x" if x: "\<forall>i < length (b # bs). uaddr a (ptr + of_nat i) \<noteq> Some x" for x
  proof -
    have "mem_of a' x = mem_of ?a x" by (rule a'(4)) (use x in \<open>auto simp only: next_address length_Cons\<close>)
    moreover have "x \<noteq> ?p" using x q(3) by auto
    ultimately show ?thesis by (auto simp: set_memory_def mem_write_def)
  qed
  moreover have "store_bytes a ptr (b # bs) = Return a'" using st(1) a'(1) by simp
  ultimately show ?case using user_step_trans[OF st(2) a'(2)] by blast
qed

lemma load_bytes_each:
  "(\<And>i. i < length bs \<Longrightarrow> load_byte a (ptr + of_nat i) = Return (bs ! i)) \<Longrightarrow> load_bytes a ptr (length bs) = Return bs"
proof (induction bs arbitrary: ptr)
  case (Cons b bs)
  have "load_bytes a (ptr + 1) (length bs) = Return bs"
    by (rule Cons.IH) (use Cons.prems[of "Suc _"] in \<open>simp add: add.assoc\<close>)
  with Cons.prems[of 0] show ?case by simp
qed simp

lemma user_buffer_le: "user_buffer a ptr n \<Longrightarrow> m \<le> n \<Longrightarrow> user_buffer a ptr m"
  unfolding user_buffer_def by (auto intro: inj_on_subset)

section \<open>Open files\<close>

text \<open>The descriptor \<open>fd\<close> of the current process stands for the open file \<open>fo\<close> on the ramdisk.\<close>

definition fd_refers :: "sworld \<Rightarrow> u8 \<Rightarrow> Ramdisk \<Rightarrow> RamdiskFileOps \<Rightarrow> bool" where
  "fd_refers w fd rd fo \<longleftrightarrow> ramdisk w = Some rd \<and> fo_size fo = of_nat (rf_size (fo_file fo)) \<and>
     (\<exists>p d inode. pt_current_process (procs w) = Some p \<and> FdTable_get (pr_fd_table p) fd = Some d \<and>
        fd_kind d = File inode (fo_offset fo) \<and> file_header rd (unat inode) = Some (Some (fo_file fo)))"

lemma current_update_current:
  "pt_current_process t = Some p \<Longrightarrow> pt_current_process (update_current t f) = Some (f p)"
  by (auto simp: pt_current_process_def update_current_def pt_get_update split: option.splits)

lemma fd_refers_offset:
  assumes "fd_refers w fd rd fo" "ramdisk w' = ramdisk w" "procs w' = update_current (procs w) (set_fd_offset fd g)"
  shows "fd_refers w' fd rd (fo\<lparr>fo_offset := g (fo_offset fo)\<rparr>)"
proof -
  obtain p d inode where p: "pt_current_process (procs w) = Some p" "FdTable_get (pr_fd_table p) fd = Some d"
    "fd_kind d = File inode (fo_offset fo)" "file_header rd (unat inode) = Some (Some (fo_file fo))"
    using assms(1) unfolding fd_refers_def by blast
  have "FdTable_get (pr_fd_table (set_fd_offset fd g p)) fd = Some (d\<lparr>fd_kind := File inode (g (fo_offset fo))\<rparr>)"
    using p(2,3) by (auto simp: set_fd_offset_def FdTable_get_def FdTable_update_def split: if_splits)
  with p(4) current_update_current[OF p(1)] assms show ?thesis by (fastforce simp: fd_refers_def)
qed

lemma read_file_at_equiv:
  assumes "active_ok (aw w)" "fd_refers w fd rd fo" "file_ok rd fo c" "user_buffer (aw w) ptr (unat n)"
  shows "\<exists>w' fo' bs. read_file_at w rd (fo_file fo) fd (fo_offset fo) ptr n = Return (w', of_nat (length bs)) \<and>
    fo_read (Some rd) fo (unat n) = Some (fo', Inr bs) \<and> load_bytes (aw w') ptr (length bs) = Return bs \<and>
    fd_refers w' fd rd fo' \<and> user_step (aw w) (aw w') \<and> length bs \<le> unat n"
proof -
  have sz: "of_nat (rf_size (fo_file fo)) = fo_size fo" "fo_offset fo \<le> fo_size fo"
    using assms(2,3) by (simp_all add: fd_refers_def file_ok_def)
  obtain fo' bs where fo': "fo_read (Some rd) fo (unat n) = Some (fo', Inr bs)" using fo_read_ok[OF assms(3)] by blast
  show ?thesis
  proof (cases "fo_size fo \<le> fo_offset fo")
    case True
    with sz(2) have "fo_size fo = fo_offset fo" by simp
    with True sz(1) assms(1,2) show ?thesis
      by (auto simp: read_file_at_def fo_read_def get_ramdisk_def ok_to_ret_isize_def Let_def user_step_refl)
  next
    case False
    let ?k = "min n (fo_size fo - fo_offset fo)"
    have k: "unat ?k = min (unat n) (unat (fo_size fo - fo_offset fo))" by (simp add: min_def word_le_nat_alt)
    have "unat (fo_size fo - fo_offset fo) \<noteq> 0" using unat_sub[OF sz(2)] False by (simp add: word_le_nat_alt)
    with fo' have win: "window (rd_data rd) (rf_data_offset (fo_file fo) + unat (fo_offset fo)) (unat ?k) = Some bs"
      and fo'_eq: "fo' = fo\<lparr>fo_offset := fo_offset fo + ?k\<rparr>"
      unfolding k by (auto simp: fo_read_def get_ramdisk_def Let_def simp flip: k split: option.splits)
    have len: "length bs = unat ?k" by (rule window_length[OF win])
    then have le: "length bs \<le> unat n" using k by simp
    from store_bytes_correct[OF assms(1) user_buffer_le[OF assms(4) le]] obtain a' where
      a': "store_bytes (aw w) ptr bs = Return a'" "user_step (aw w) a'"
        "\<forall>i < length bs. load_byte a' (ptr + of_nat i) = Return (bs ! i)" by blast
    let ?w = "w\<lparr>aw := a', procs := update_current (procs w) (set_fd_offset fd (\<lambda>off. off + ?k))\<rparr>"
    have "read_file_at w rd (fo_file fo) fd (fo_offset fo) ptr n = Return (?w, of_nat (length bs))"
      using False win a'(1) len sz(1) by (auto simp: read_file_at_def ok_to_ret_isize_def Let_def)
    moreover have "fd_refers ?w fd rd fo'" unfolding fo'_eq by (rule fd_refers_offset[OF assms(2)]) simp_all
    moreover have "load_bytes (aw ?w) ptr (length bs) = Return bs" using load_bytes_each[of bs a'] a'(3) by simp
    ultimately show ?thesis using fo' a'(2) le by (intro exI[of _ ?w] exI[of _ fo'] exI[of _ bs]) simp
  qed
qed

fun whence_code :: "Whence \<Rightarrow> u64" where
  "whence_code Set = 0" | "whence_code Cur = 1" | "whence_code Whence.End = 2"

lemma lseek_target_equiv:
  "lseek_target (ucast (whence_code wh)) off (fo_offset fo) (fo_size fo) =
     (case seek_target fo off wh of Inl _ \<Rightarrow> None | Inr new \<Rightarrow> Some new)"
  "seek_target fo off wh = Inl e \<Longrightarrow> e = EINVAL"
  by (cases wh; auto simp: lseek_target_def Let_def split: if_splits)+

text \<open>For a size below \<open>2\<^sup>63\<close> the signed comparison of \<open>sys_lseek\<close> is the unsigned one of \<open>fo_seek\<close>.\<close>

lemma signed_clamp:
  assumes "0 \<le> sint new" "unat (sz :: u64) < 2 ^ 63"
  shows "(if sint new > sint sz then sz else new) = (if new > sz then sz else new)"
  using sint_nonneg[OF assms(1)] sint_small[OF assms(2)] by (simp add: word_less_def)

lemma sys_lseek_equiv:
  assumes "fd_refers w fd rd fo" "file_ok rd fo c" "ucast (arg args 0) = fd" "arg args 1 = off" "arg args 2 = whence_code wh"
  shows "case fo_seek fo off wh of
      (fo', Inl _) \<Rightarrow> fo' = fo \<and> sys_lseek w args = Return (w, err_to_ret ERR_INVALID_ARGS)
    | (fo', Inr new) \<Rightarrow> \<exists>w'. sys_lseek w args = Return (w', new) \<and> fd_refers w' fd rd fo' \<and> aw w' = aw w \<and> 0 \<le> sint new"
proof -
  obtain p d inode where p: "pt_current_process (procs w) = Some p" "FdTable_get (pr_fd_table p) fd = Some d"
    "fd_kind d = File inode (fo_offset fo)" "file_header rd (unat inode) = Some (Some (fo_file fo))"
    and rd: "ramdisk w = Some rd" "of_nat (rf_size (fo_file fo)) = fo_size fo"
    using assms(1) unfolding fd_refers_def by auto
  have wh: "\<not> ucast (arg args 2) > (2 :: u32)" unfolding assms(5) by (cases wh) simp_all
  have sys: "sys_lseek w args = (case lseek_target (ucast (whence_code wh)) off (fo_offset fo) (fo_size fo) of
      None \<Rightarrow> ret_err w ERR_INVALID_ARGS
    | Some new \<Rightarrow> let clamped = (if sint new > sint (fo_size fo) then fo_size fo else new)
        in Return (w\<lparr>procs := update_current (procs w) (set_fd_offset fd (\<lambda>off. clamped))\<rparr>, ok_to_ret_isize clamped))"
    using p rd assms(3-5) wh by (simp add: sys_lseek_def get_ramdisk_def Let_def)
  show ?thesis
  proof (cases "seek_target fo off wh")
    case (Inl e)
    then show ?thesis unfolding sys lseek_target_equiv(1) by (simp add: fo_seek_def ret_err_def)
  next
    case (Inr new)
    have nn: "0 \<le> sint new" using lseek_target_nonneg lseek_target_equiv(1)[of wh off fo] Inr by fastforce
    have sz: "unat (fo_size fo) < 2 ^ 63" using assms(2) by (simp add: file_ok_def)
    let ?cl = "if new > fo_size fo then fo_size fo else new"
    have "0 \<le> sint ?cl" using nn sint_small[OF sz] by simp
    moreover have "fd_refers (w\<lparr>procs := update_current (procs w) (set_fd_offset fd (\<lambda>off. ?cl))\<rparr>) fd rd (fo\<lparr>fo_offset := ?cl\<rparr>)"
      by (rule fd_refers_offset[OF assms(1)]) simp_all
    ultimately show ?thesis
      unfolding sys lseek_target_equiv(1) by (auto simp: Inr fo_seek_def signed_clamp[OF nn sz] Let_def ok_to_ret_isize_def simp del: if_split)
  qed
qed

section \<open>Runs of file calls\<close>

datatype file_call = CallRead u64 u64 | CallSeek u64 Whence

fun call_args :: "u8 \<Rightarrow> file_call \<Rightarrow> SyscallArgs" where
  "call_args fd (CallRead ptr n) = SyscallArgs_new 0x61 [ucast fd, ptr, n, 0, 0, 0]"
| "call_args fd (CallSeek off wh) = SyscallArgs_new 0x64 [ucast fd, off, whence_code wh, 0, 0, 0]"

fun call_op :: "file_call \<Rightarrow> file_op" where
  "call_op (CallRead ptr n) = Read (unat n)"
| "call_op (CallSeek off wh) = Seek off wh"

text \<open>What the caller gets: the bytes in its buffer, or the new offset, or an error.\<close>

fun call_out :: "file_call \<Rightarrow> sworld \<times> u64 \<Rightarrow> file_out outcome" where
  "call_out (CallRead ptr n) (w, r) =
     outcome_bind (load_bytes (aw w) ptr (unat r)) (\<lambda>bs. Return (GotBytes (Inr bs)))"
| "call_out (CallSeek off wh) (w, r) =
     Return (GotOffset (if r = err_to_ret ERR_INVALID_ARGS then Inl EINVAL else Inr r))"

fun run_calls :: "syscall_env \<Rightarrow> u8 \<Rightarrow> file_call list \<Rightarrow> sworld \<Rightarrow> (sworld \<times> file_out list) outcome" where
  "run_calls env fd [] w = Return (w, [])"
| "run_calls env fd (c # cs) w =
     outcome_bind (syscall_dispatch env w (call_args fd c)) (\<lambda>(w1, r).
       outcome_bind (call_out c (w1, r)) (\<lambda>out.
         outcome_bind (run_calls env fd cs w1) (\<lambda>(w2, outs). Return (w2, out # outs))))"

fun call_buffer_ok :: "aworld \<Rightarrow> file_call \<Rightarrow> bool" where
  "call_buffer_ok a (CallRead ptr n) = user_buffer a ptr (unat n)"
| "call_buffer_ok a (CallSeek off wh) = True"

lemma u8_roundtrip [simp]: "ucast (ucast (fd :: u8) :: u64) = fd"
  by (rule ucast_up_ucast_id) (simp add: is_up)

lemma dispatch_calls:
  "syscall_dispatch env w (call_args fd (CallRead ptr n)) = sys_read env w (call_args fd (CallRead ptr n))"
  "syscall_dispatch env w (call_args fd (CallSeek off wh)) = sys_lseek w (call_args fd (CallSeek off wh))"
  by (simp_all add: syscall_dispatch_def SyscallArgs_new_def Let_def)

lemma sys_read_equiv:
  assumes "fd_refers w fd rd fo"
  shows "sys_read env w (call_args fd (CallRead ptr n)) = read_file_at w rd (fo_file fo) fd (fo_offset fo) ptr n"
  using assms by (auto simp: fd_refers_def sys_read_def SyscallArgs_new_def arg_def get_ramdisk_def Let_def)

lemma read_call_step:
  assumes "active_ok (aw w)" "fd_refers w fd rd fo" "file_ok rd fo c" "user_buffer (aw w) ptr (unat n)"
  shows "\<exists>w' r fo' out. syscall_dispatch env w (call_args fd (CallRead ptr n)) = Return (w', r) \<and>
    call_out (CallRead ptr n) (w', r) = Return out \<and> file_step rd (Read (unat n)) fo = Some (fo', out) \<and>
    fd_refers w' fd rd fo' \<and> user_step (aw w) (aw w')"
proof -
  from read_file_at_equiv[OF assms] obtain w' fo' bs where
    r: "read_file_at w rd (fo_file fo) fd (fo_offset fo) ptr n = Return (w', of_nat (length bs))"
      "fo_read (Some rd) fo (unat n) = Some (fo', Inr bs)" "load_bytes (aw w') ptr (length bs) = Return bs"
      "fd_refers w' fd rd fo'" "user_step (aw w) (aw w')" "length bs \<le> unat n" by blast
  have "unat n < 2 ^ 64" using unsigned_less[of n] by simp
  with r(6) have "unat (of_nat (length bs) :: u64) = length bs" by (simp add: unat_of_nat)
  with r sys_read_equiv[OF assms(2)] show ?thesis unfolding dispatch_calls by simp
qed

lemma seek_call_step:
  assumes "active_ok (aw w)" "fd_refers w fd rd fo" "file_ok rd fo c"
  shows "\<exists>w' r fo' out. syscall_dispatch env w (call_args fd (CallSeek off wh)) = Return (w', r) \<and>
    call_out (CallSeek off wh) (w', r) = Return out \<and> file_step rd (Seek off wh) fo = Some (fo', out) \<and>
    fd_refers w' fd rd fo' \<and> user_step (aw w) (aw w')"
proof -
  obtain fo' x where x: "fo_seek fo off wh = (fo', x)" by fastforce
  have a: "ucast (arg (call_args fd (CallSeek off wh)) 0) = fd" "arg (call_args fd (CallSeek off wh)) 1 = off"
    "arg (call_args fd (CallSeek off wh)) 2 = whence_code wh"
    by (simp_all add: SyscallArgs_new_def arg_def)
  note l = sys_lseek_equiv[OF assms(2,3) a, unfolded x]
  have neg: "sint (err_to_ret ERR_INVALID_ARGS) < 0" by (simp add: err_to_ret_def)
  show ?thesis
  proof (cases x)
    case (Inl e)
    have "e = EINVAL" using x Inl lseek_target_equiv(2)[of fo off wh] by (auto simp: fo_seek_def Let_def split: sum.splits)
    with l Inl x assms(1,2) show ?thesis unfolding dispatch_calls by (auto simp: user_step_refl)
  next
    case (Inr new)
    with l obtain w' where w': "sys_lseek w (call_args fd (CallSeek off wh)) = Return (w', new)" "fd_refers w' fd rd fo'"
      "aw w' = aw w" "0 \<le> sint new" by auto
    have "new \<noteq> err_to_ret ERR_INVALID_ARGS" using w'(4) neg by auto
    with w' x Inr assms(1) show ?thesis unfolding dispatch_calls by (auto simp: user_step_refl)
  qed
qed

lemma run_calls_equiv:
  assumes "active_ok (aw w)" "fd_refers w fd rd fo" "file_ok rd fo c" "\<forall>cl \<in> set calls. call_buffer_ok (aw w) cl"
  shows "\<exists>w' fo' outs. run_calls env fd calls w = Return (w', outs) \<and> file_run rd (map call_op calls) fo = Some (fo', outs) \<and>
    fd_refers w' fd rd fo' \<and> user_step (aw w) (aw w')"
  using assms
proof (induction calls arbitrary: w fo)
  case Nil
  then show ?case by (simp add: user_step_refl)
next
  case (Cons cl calls)
  have "\<exists>w1 r fo1 out. syscall_dispatch env w (call_args fd cl) = Return (w1, r) \<and> call_out cl (w1, r) = Return out \<and>
    file_step rd (call_op cl) fo = Some (fo1, out) \<and> fd_refers w1 fd rd fo1 \<and> user_step (aw w) (aw w1)"
    using read_call_step[OF Cons.prems(1-3)] seek_call_step[OF Cons.prems(1-3)] Cons.prems(4) by (cases cl) auto
  then obtain w1 r fo1 out where
    s: "syscall_dispatch env w (call_args fd cl) = Return (w1, r)" "call_out cl (w1, r) = Return out"
      "file_step rd (call_op cl) fo = Some (fo1, out)" "fd_refers w1 fd rd fo1" "user_step (aw w) (aw w1)" by blast
  have f1: "file_ok rd fo1 c" using file_step_refines[OF Cons.prems(3), of "call_op cl"] s(3) by auto
  note w1 = user_step_walk[OF Cons.prems(1) s(5)]
  have "call_buffer_ok (aw w1) x = call_buffer_ok (aw w) x" for x by (cases x) (simp_all add: w1(5))
  with Cons.prems(4) have "\<forall>cl \<in> set calls. call_buffer_ok (aw w1) cl" by simp
  from Cons.IH[OF w1(1) s(4) f1 this] obtain w' fo' outs where
    "run_calls env fd calls w1 = Return (w', outs)" "file_run rd (map call_op calls) fo1 = Some (fo', outs)"
    "fd_refers w' fd rd fo'" "user_step (aw w1) (aw w')" by blast
  with s(1-3) user_step_trans[OF s(5)] show ?case by fastforce
qed

section \<open>Opening a file\<close>

text \<open>
  The header that the search by name returns is the one that the search by
  offsets finds again: a header before it has another name, so another offset
  of its name.
\<close>

lemma find_from_position:
  assumes "find_from n (rd_data rd) (sb_files_offset (rd_superblock rd) + 16 * i) nm = Some (Some f)"
  shows "name_at (rd_data rd) (rf_name_offset f) = Some nm \<and> (\<exists>k < i + n. header_position n rd i f = Some (Some k) \<and>
    read_header (rd_data rd) (sb_files_offset (rd_superblock rd) + 16 * k) = Some f)"
  using assms
proof (induction n arbitrary: i)
  case (Suc n)
  let ?off = "sb_files_offset (rd_superblock rd) + 16 * i"
  obtain g fname where g: "read_header (rd_data rd) ?off = Some g" "name_at (rd_data rd) (rf_name_offset g) = Some fname"
    using Suc.prems by (auto split: option.splits)
  show ?case
  proof (cases "fname = nm")
    case True
    with Suc.prems g show ?thesis by simp
  next
    case False
    have "find_from n (rd_data rd) (sb_files_offset (rd_superblock rd) + 16 * Suc i) nm = Some (Some f)"
      using Suc.prems g False by (simp add: add.commute add.left_commute)
    from Suc.IH[OF this] have f: "name_at (rd_data rd) (rf_name_offset f) = Some nm"
      "\<exists>k < Suc i + n. header_position n rd (Suc i) f = Some (Some k) \<and>
         read_header (rd_data rd) (sb_files_offset (rd_superblock rd) + 16 * k) = Some f" by blast+
    have "rf_name_offset g \<noteq> rf_name_offset f" using f(1) g(2) False by auto
    with f g show ?thesis by auto
  qed
qed simp

text \<open>A path in the memory of the caller, and a free descriptor in the table of the current process.\<close>

definition open_ready :: "sworld \<Rightarrow> u64 \<Rightarrow> u8 list \<Rightarrow> bool" where
  "open_ready w ptr nm \<longleftrightarrow> ptr \<noteq> 0 \<and> path_loop 256 (aw w) ptr = Return (Some nm) \<and> utf8_valid nm \<and>
     (\<exists>p. pt_current_process (procs w) = Some p \<and> fd_inv (pr_fd_table p) \<and> next_fd (pr_fd_table p) \<noteq> 0)"

definition open_args :: "u64 \<Rightarrow> u32 \<Rightarrow> SyscallArgs" where
  "open_args ptr flags = SyscallArgs_new 0x62 [ptr, ucast flags, 0, 0, 0, 0]"

lemma sys_open_equiv:
  assumes "open_ready w ptr nm" "ramdisk w = Some rd" "sb_num_files (rd_superblock rd) < 2 ^ 32"
    and "open_ramdisk_file (Some rd) nm = Some (Inr fo)"
  shows "\<exists>w' fd. syscall_dispatch env w (open_args ptr flags) = Return (w', ucast fd) \<and> 3 \<le> fd \<and> fd_refers w' fd rd fo \<and> aw w' = aw w"
proof -
  obtain p where p: "pt_current_process (procs w) = Some p" "fd_inv (pr_fd_table p)" "next_fd (pr_fd_table p) \<noteq> 0"
    and o1: "ptr \<noteq> 0" "path_loop 256 (aw w) ptr = Return (Some nm)" "utf8_valid nm"
    using assms(1) by (auto simp: open_ready_def)
  obtain f where f: "find_file rd nm = Some (Some f)" "fo = RamdiskFileOps_new f"
    using assms(4) by (auto simp: open_ramdisk_file_def get_ramdisk_def split: option.splits)
  let ?n = "sb_num_files (rd_superblock rd)"
  from find_from_position[of ?n rd 0 "strip_slash nm" f] f(1) obtain k where
    k: "k < ?n" "header_position ?n rd 0 f = Some (Some k)"
      "read_header (rd_data rd) (sb_files_offset (rd_superblock rd) + 16 * k) = Some f"
    by (auto simp: find_file_def)
  obtain ft fd where a: "FdTable_alloc (pr_fd_table p) (File (of_nat k) 0) (arg_u32 (open_args ptr flags) 1) = Some (ft, fd)"
    using p(3) by (auto simp: FdTable_alloc_def Let_def)
  obtain m where m: "fd_inv_at m (pr_fd_table p)" using p(2) by (auto simp: fd_inv_def)
  note al = fd_alloc_inv[OF m a]
  let ?w = "w\<lparr>procs := update_current (procs w) (\<lambda>p. p\<lparr>pr_fd_table := ft\<rparr>)\<rparr>"
  have "syscall_dispatch env w (open_args ptr flags) = sys_open w (open_args ptr flags)"
    by (simp add: syscall_dispatch_def open_args_def SyscallArgs_new_def Let_def)
  moreover have "arg (open_args ptr flags) 0 = ptr" by (simp add: open_args_def SyscallArgs_new_def arg_def)
  ultimately have d: "syscall_dispatch env w (open_args ptr flags) = Return (?w, ucast fd)"
    using o1 assms(2) f(1) p(1) k(2) a by (simp add: sys_open_def get_ramdisk_def ok_to_ret_def Let_def)
  have "FdTable_get ft fd = Some (FileDescriptor_new (File (of_nat k) 0) (arg_u32 (open_args ptr flags) 1))"
    using al(4)[of fd] by simp
  moreover have "unat (of_nat k :: u32) = k" using k(1) assms(3) by (simp add: unat_of_nat)
  ultimately have "fd_refers ?w fd rd fo"
    using current_update_current[OF p(1)] k assms(2) f(2)
    by (simp add: fd_refers_def RamdiskFileOps_new_def file_header_def FileDescriptor_new_def)
  moreover have "3 \<le> fd" using al(2) by (simp add: word_le_nat_alt)
  ultimately show ?thesis using d by (intro exI[of _ ?w] exI[of _ fd]) simp
qed

section \<open>A sample state\<close>

lemma list_files_count: "list_files rd = Some ns \<Longrightarrow> length ns = sb_num_files (rd_superblock rd)"
proof -
  have "list_from n d off = Some ns \<Longrightarrow> length ns = n" for n d off ns
    by (induction n arbitrary: off ns) (auto split: option.splits)
  then show "list_files rd = Some ns \<Longrightarrow> length ns = sb_num_files (rd_superblock rd)" unfolding list_files_def by blast
qed

text \<open>
  A process running the sample program: its address space is active, the bytes
  7, 9, 0 are at address \<open>0x600000\<close>, and there is memory to load the program a
  second time.
\<close>

lemma sample_pages:
  "load_headers sample_segments = sample_segments" "sum_list (map segment_pages sample_segments) = 4"
  by (simp_all add: load_headers_def sample_segments_def sample_segment_def PT_LOAD_def segment_pages_def page_count_def unat_mem_size)

lemma sample_loadable_again:
  assumes "active_ok a" "4 < user_free (phys_of a)" "16 \<le> kernel_free (phys_of a)"
  shows "process_loadable a (sample_elf sample_segments) (sample_header 3) sample_segments"
  using sample_process_loadable(1) assms by (simp add: process_loadable_def loadable_def active_ok_def sample_pages)

lemma sample_image: "segment_image (sample_elf sample_segments) (sample_segment 0x600000 4) = [7, 9, 0, 0]"
proof -
  have "replicate 2 (0 :: u8) = [0, 0]" by (simp add: numeral_2_eq_2)
  then show ?thesis using sample_segments_shape(2)
    by (simp add: segment_image_def sample_segment_def sample_elf_tail mem_size_def)
qed

definition sample_user :: "aworld \<Rightarrow> bool" where
  "sample_user a \<longleftrightarrow> active_ok a \<and> load_byte a 0x600000 = Return 7 \<and> load_byte a 0x600001 = Return 9 \<and> load_byte a 0x600002 = Return 0 \<and>
     (\<exists>q. stack_page a (active_root a) q) \<and> 1000 \<le> user_free (phys_of a) \<and> 1000 \<le> kernel_free (phys_of a)"

lemma load_byte_vread: "load_byte a va = (case vread (mem_of a) (active_root a) va of None \<Rightarrow> Panic ''page fault'' | Some b \<Rightarrow> Return b)"
  by (simp add: load_byte_def uaddr_def vread_def split: option.split)

lemma sample_user_exists: "\<exists>a. sample_user a"
proof -
  let ?d = "sample_elf sample_segments" and ?ph = "sample_segment 0x600000 4"
  from load_elf_process_correct[OF sample_process_loadable(1)] obtain w' img r where
    l: "process_loaded sample_aworld ?d (sample_header 3) sample_segments w' img r" by blast
  let ?a = "activate w' (pi_address_space img)"
  have w': "aspace w' r" "ptb_phys (as_page_table (pi_address_space img)) = r" "\<exists>q. stack_page w' r q"
    "\<forall>ph \<in> set sample_segments. sees_segment (mem_of w') r ?d ph"
    using l sample_process_loadable(2) by (simp_all add: process_loaded_def sample_pages)
  have a: "active_ok ?a" "active_root ?a = r" "mem_of ?a = mem_of w'" "phys_of ?a = phys_of w'"
    using activate_ok[OF w'(1,2)] by (simp_all add: activate_def)
  have "sees_segment (mem_of w') r ?d ?ph" using w'(4) by (simp add: sample_segments_def)
  moreover have "unat (mem_size ?ph) = 4" "p_vaddr ?ph = 0x600000" by (simp_all add: sample_segment_def mem_size_def)
  ultimately have see: "vread (mem_of w') r (0x600000 + of_nat i) = Some ([7, 9, 0, 0] ! i)" if "i < 4" for i
    using that sample_image by (simp add: sees_segment_def)
  have "load_byte ?a 0x600000 = Return 7" "load_byte ?a 0x600001 = Return 9" "load_byte ?a 0x600002 = Return 0"
    using see[of 0] see[of 1] see[of 2] a by (simp_all add: load_byte_vread)
  moreover have "3520 \<le> kernel_free (phys_of sample_aworld)" "user_free (phys_of sample_aworld) = 24576"
    using boot_kernel_free user_free_sample by (simp_all add: sample_aworld_def sample_vworld_def)
  ultimately show ?thesis using l w'(3) a
    by (intro exI[of _ ?a]) (simp add: sample_user_def process_loaded_def sample_pages stack_page_def)
qed

lemma sample_path:
  assumes "sample_user a"
  shows "path_loop 256 a 0x600000 = Return (Some [7, 9])"
proof -
  have "path_loop (Suc (Suc (Suc n))) a 0x600000 = Return (Some [7, 9])" for n
    using assms by (simp add: sample_user_def)
  from this[of 253] show ?thesis by simp
qed

lemma sample_buffer:
  assumes "sample_user a" "n \<le> 4096"
  shows "user_buffer a 0x7FFFFFFFE000 n"
proof -
  obtain q where q: "user_page (phys_of a) Allocated q"
    "\<And>i. i < 4096 \<Longrightarrow> walk (mem_of a) (active_root a) (0x7FFFFFFFE000 + of_nat i) = Some (leaf_entry q 6)"
    using assms(1) by (auto simp: sample_user_def stack_page_def)
  have "zone_low (phys_of a)" using assms(1) by (simp add: sample_user_def active_ok_def world_inv_def)
  then have low: "low_page q" using q(1) zone_low_user_page by (auto simp: low_page_def)
  have b: "bit (leaf_entry q 6) 1" by (simp add: leaf_entry_def Let_def bit_or_iff)
  have "unat (0x7FFFFFFFE000 + of_nat i :: u64) mod 4096 = i" if "i < 4096" for i
  proof -
    have "unat (0x7FFFFFFFE000 + of_nat i :: u64) = 0x7FFFFFFFE000 + i" using that by (simp add: unat_word_ariths unat_of_nat)
    then show ?thesis using that by (simp add: mod_add_eq[symmetric])
  qed
  then have "uaddr a (0x7FFFFFFFE000 + of_nat i) = Some (unat q + i)" if "i < 4096" for i
    using that q(2) leaf_entry_frame[OF low] low_page_vaddr[OF low] by (simp add: uaddr_def)
  then have "inj_on (\<lambda>i. uaddr a (0x7FFFFFFFE000 + of_nat i)) {..<n}" using assms(2) by (auto simp: inj_on_def)
  moreover have "\<exists>e s. walk (mem_of a) (active_root a) (0x7FFFFFFFE000 + of_nat i) = Some e \<and> bit e 1 \<and>
      user_page (phys_of a) s (pte_frame e)" if "i < n" for i
    using q(1) q(2)[of i] that assms(2) b leaf_entry_frame[OF low, of 6]
    by (intro exI[of _ "leaf_entry q 6"] exI[of _ Allocated]) simp
  ultimately show ?thesis unfolding user_buffer_def by blast
qed

section \<open>Properties\<close>

text \<open>
  Claim C37 (two implementations of files agree): opening a file by system call
  and then issuing any sequence of \<open>read\<close> and \<open>lseek\<close> calls on the returned
  descriptor gives the caller the same bytes in its buffers and the same
  results as opening the file with \<open>open_ramdisk_file\<close> and running the same
  operations of \<open>RamdiskFileOps\<close>, although the calls find the file again by its
  index and keep the offset in the descriptor table.
\<close>

theorem file_calls_equivalent:
  assumes "active_ok (aw w)" "open_ready w ptr nm" "ramdisk w = Some rd" "sb_num_files (rd_superblock rd) < 2 ^ 32"
    and "open_ramdisk_file (Some rd) nm = Some (Inr fo)" "file_ok rd fo c" "\<forall>cl \<in> set calls. call_buffer_ok (aw w) cl"
  shows "\<exists>w1 fd w' fo' outs. syscall_dispatch env w (open_args ptr flags) = Return (w1, ucast fd) \<and> 3 \<le> fd \<and>
    run_calls env fd calls w1 = Return (w', outs) \<and> file_run rd (map call_op calls) fo = Some (fo', outs)"
proof -
  from sys_open_equiv[OF assms(2-5)] obtain w1 fd where
    o1: "syscall_dispatch env w (open_args ptr flags) = Return (w1, ucast fd)" "3 \<le> fd" "fd_refers w1 fd rd fo" "aw w1 = aw w" by blast
  from run_calls_equiv[of w1 fd rd fo c calls env] o1(3,4) assms(1,6,7) obtain w' fo' outs where
    "run_calls env fd calls w1 = Return (w', outs)" "file_run rd (map call_op calls) fo = Some (fo', outs)" by auto
  with o1(1,2) show ?thesis by blast
qed

text \<open>Reading two bytes, going back one from the end, and reading the rest.\<close>

theorem file_calls_equivalent_witness:
  "\<exists>w w1 fd w'. syscall_dispatch \<lparr>env_tsc = 0, env_irqs = []\<rparr> w (open_args 0x600000 0) = Return (w1, ucast fd) \<and> 3 \<le> fd \<and>
     run_calls \<lparr>env_tsc = 0, env_irqs = []\<rparr> fd
       [CallRead 0x7FFFFFFFE000 2, CallSeek (- 1) Whence.End, CallRead 0x7FFFFFFFE000 9] w1 =
     Return (w', [GotBytes (Inr [1, 2]), GotOffset (Inr 2), GotBytes (Inr [3])])"
proof -
  let ?calls = "[CallRead 0x7FFFFFFFE000 2, CallSeek (- 1) Whence.End, CallRead 0x7FFFFFFFE000 9]"
  obtain a where a: "sample_user a" using sample_user_exists by blast
  from single_file_image[of "[7, 9]" "[1, 2, 3]"] obtain rd f where
    rd: "list_files rd = Some [[7, 9]]" "find_file rd [7, 9] = Some (Some f)"
      "drop (rf_data_offset f) (rd_data rd) = [1, 2, 3]" "rf_data_offset f + length [1, 2, 3 :: u8] = length (rd_data rd)"
      "rf_size f = length [1, 2, 3 :: u8]" by auto
  let ?fo = "RamdiskFileOps_new f" and ?w = "sample_kernel a rd"
  have n: "sb_num_files (rd_superblock rd) = 1" using list_files_count[OF rd(1)] by simp
  have ok: "file_ok rd ?fo [1, 2, 3]" by (rule file_ok_open[OF rd(3-5)]) simp
  have fd: "fd_inv (pr_fd_table sample_process)" "next_fd (pr_fd_table sample_process) \<noteq> 0"
    by (simp_all add: sample_process_def Process_new_ok) (simp add: Process_new_def FdTable_init_def FdTable_new_def)
  have r: "open_ready ?w 0x600000 [7, 9]"
    using sample_path[OF a] sample_current[of a rd] fd by (simp add: open_ready_def) (simp add: sample_kernel_def)
  have b: "\<forall>cl \<in> set ?calls. call_buffer_ok (aw ?w) cl"
    using sample_buffer[OF a] by (simp add: sample_kernel_def)
  have o1: "open_ramdisk_file (Some rd) [7, 9] = Some (Inr ?fo)" using rd(2) by (simp add: open_ramdisk_file_def get_ramdisk_def)
  have w: "active_ok (aw ?w)" "ramdisk ?w = Some rd" using a by (simp_all add: sample_kernel_def sample_user_def)
  from file_calls_equivalent[OF w(1) r w(2) _ o1 ok b, of "\<lparr>env_tsc = 0, env_irqs = []\<rparr>" 0] n obtain w1 fd w' fo' outs where
    e: "syscall_dispatch \<lparr>env_tsc = 0, env_irqs = []\<rparr> ?w (open_args 0x600000 0) = Return (w1, ucast fd)" "3 \<le> fd"
      "run_calls \<lparr>env_tsc = 0, env_irqs = []\<rparr> fd ?calls w1 = Return (w', outs)"
      "file_run rd (map call_op ?calls) ?fo = Some (fo', outs)"
    by (simp del: run_calls.simps file_run.simps list.map) blast
  have z: "unat (fo_offset ?fo) = 0" by (simp add: RamdiskFileOps_new_def)
  have sp: "spec_run [1, 2, 3] (map call_op ?calls) 0 = (3, [GotBytes (Inr [1, 2]), GotOffset (Inr 2), GotBytes (Inr [3])])"
    by (simp add: Let_def)
  from file_run_refines[OF ok, of "map call_op ?calls"] obtain fo2 rs where
    "file_run rd (map call_op ?calls) ?fo = Some (fo2, rs)" "spec_run [1, 2, 3] (map call_op ?calls) 0 = (unat (fo_offset fo2), rs)"
    unfolding z by blast
  then have "outs = [GotBytes (Inr [1, 2]), GotOffset (Inr 2), GotBytes (Inr [3])]"
    unfolding e(4) sp by (simp only: option.inject prod.inject)
  with e(1-3) show ?thesis by blast
qed

end
