(* ===== verification/Syscall_Spawn.thy ===== *)
theory Syscall_Spawn
  imports Syscall_Files
begin

text \<open>The processes that \<open>sys_spawn\<close> creates, from the path in user memory to the page tables of the new process.\<close>

section \<open>Spawning a process\<close>

lemma aspace_kernel_grows:
  assumes "aspace a r" "kernel_grows (phys_of a) st"
  shows "aspace (set_phys a st) r"
proof -
  have t: "table_page (phys_of a) x \<Longrightarrow> table_page st x" for x using assms(2) by (simp add: kernel_grows_def)
  have "space_ok st (tables (mem_of a) r) (tables (mem_of a) (active_root a))"
    using aspace_space[OF assms(1)] t unfolding space_ok_def by blast
  with assms show ?thesis by (simp add: aspace_def set_phys_def active_root_def world_inv_def kernel_grows_def)
qed

lemma alloc_kernel_pages_correct:
  assumes "aspace a r" "n \<le> kernel_free (phys_of a)"
  shows "\<exists>a' ps. alloc_kernel_pages n a = Return (a', Some ps) \<and> length ps = n \<and> aspace a' r \<and> mem_of a' = mem_of a \<and> cr3 a' = cr3 a"
  using assms
proof (induction n arbitrary: a)
  case (Suc n)
  have inv: "pmm_inv (phys_of a)" "zone_low (phys_of a)" "kzone_ok (phys_of a)"
    using Suc.prems(1) by (simp_all add: aspace_def world_inv_def)
  from kernel_alloc_fresh[OF inv] Suc.prems(2) obtain st p where
    p: "pmm_alloc_kernel_page (phys_of a) = Return (st, Inr p)" "kernel_grows (phys_of a) st"
      "kernel_free (phys_of a) = Suc (kernel_free st)" by auto
  have "n \<le> kernel_free (phys_of (set_phys a st))" using p(3) Suc.prems(2) by (simp add: set_phys_def)
  from Suc.IH[OF aspace_kernel_grows[OF Suc.prems(1) p(2)] this] obtain a' ps where
    "alloc_kernel_pages n (set_phys a st) = Return (a', Some ps)" "length ps = n" "aspace a' r"
    "mem_of a' = mem_of (set_phys a st)" "cr3 a' = cr3 (set_phys a st)" by blast
  with p(1) show ?case by (simp add: set_phys_def)
qed simp

text \<open>
  The conditions under which a program can be spawned: its path is in the
  memory of the caller, the ramdisk has an executable of that name that can be
  loaded, and there is a free process number and memory for the kernel stack.
\<close>

definition spawn_ready :: "sworld \<Rightarrow> u64 \<Rightarrow> u8 list \<Rightarrow> u8 list \<Rightarrow> ElfHeader \<Rightarrow> ProgramHeader list \<Rightarrow> bool" where
  "spawn_ready w ptr nm d h phs \<longleftrightarrow> kernel_ok w \<and> pt_next_pid (procs w) < 256 \<and> ptr \<noteq> 0 \<and>
     path_loop 256 (aw w) ptr = Return (Some nm) \<and> utf8_valid nm \<and>
     (\<exists>rd f. ramdisk w = Some rd \<and> find_file rd nm = Some (Some f) \<and>
        window (rd_data rd) (rf_data_offset f) (rf_size f) = Some d) \<and>
     process_loadable (aw w) d h phs \<and>
     3 * sum_list (map segment_pages (load_headers phs)) + 10 \<le> kernel_free (phys_of (aw w))"

definition spawn_args :: "u64 \<Rightarrow> SyscallArgs" where
  "spawn_args ptr = SyscallArgs_new 0x03 [ptr, 0, 0, 0, 0, 0]"

lemma pt_insert_fresh:
  assumes "procs_ok t" "pt_next_pid t < 256" "pr_pid p = pt_next_pid t"
  shows "\<exists>t'. alloc_pid t = (t\<lparr>pt_next_pid := pt_next_pid t + 1\<rparr>, Some (pt_next_pid t)) \<and>
    pt_insert (t\<lparr>pt_next_pid := pt_next_pid t + 1\<rparr>) p = Return t' \<and> pt_current t' = pt_current t \<and>
    pt_get t (pr_pid p) = None \<and> (\<forall>i. pt_get t' i = (if i = pr_pid p then Some p else pt_get t i))"
proof -
  let ?t = "t\<lparr>pt_next_pid := pt_next_pid t + 1\<rparr>"
  have f: "fresh_from t" "pt_shape ?t" using assms(1) by (simp_all add: procs_ok_def fresh_from_def pt_shape_def)
  have "processes ?t ! pr_pid p = None" using f assms(2,3) by (simp add: fresh_from_def)
  then obtain t' where i: "pt_insert ?t p = Return t'" using assms(2,3) by (simp add: pt_insert_def MAX_PROCESSES_def Let_def)
  have "alloc_pid t = (?t, Some (pt_next_pid t))" using alloc_pid_fresh[OF f(1)] assms(2) by simp
  with i pt_insert_get[OF i f(2)] show ?thesis by (intro exI[of _ t']) simp
qed

lemma sys_spawn_steps:
  assumes "spawn_ready w ptr nm d h phs"
  shows "\<exists>w' p r. syscall_dispatch env w (spawn_args ptr) = Return (w', of_nat (pr_pid p)) \<and>
    p = Process_set_name (Process_new (pt_next_pid (procs w)) (current_or_zero (procs w)) r (pr_kernel_stack p)
          0x7FFFFFFFF000 (e_entry h)) (string_of_bytes (path_name nm)) \<and>
    (\<forall>ph \<in> set (nonempty_segments (load_headers phs)). sees_segment (mem_of (aw w')) r d ph) \<and>
    (\<forall>i < 4096. vread (mem_of (aw w')) r (0x7FFFFFFFE000 + of_nat i) = Some 0) \<and>
    pt_get (procs w) (pr_pid p) = None \<and> (\<forall>i. pt_get (procs w') i = (if i = pr_pid p then Some p else pt_get (procs w) i)) \<and>
    pt_current (procs w') = pt_current (procs w) \<and> sched w' = sched w"
proof -
  obtain rd f where sr: "kernel_ok w" "pt_next_pid (procs w) < 256" "ptr \<noteq> 0" "path_loop 256 (aw w) ptr = Return (Some nm)" "utf8_valid nm"
    "ramdisk w = Some rd" "find_file rd nm = Some (Some f)" "window (rd_data rd) (rf_data_offset f) (rf_size f) = Some d"
    "process_loadable (aw w) d h phs" "3 * sum_list (map segment_pages (load_headers phs)) + 10 \<le> kernel_free (phys_of (aw w))"
    using assms unfolding spawn_ready_def by blast
  from load_elf_process_correct[OF sr(9)] obtain a1 img r where
    l: "load_elf_process (aw w) d = Return (a1, Inr img)" "process_loaded (aw w) d h phs a1 img r" by blast
  have "aspace a1 r" "4 \<le> kernel_free (phys_of a1)" using l(2) sr(10) by (simp_all add: process_loaded_def)
  from alloc_kernel_pages_correct[OF this] obtain a2 ps where
    k: "alloc_kernel_pages 4 a1 = Return (a2, Some ps)" "mem_of a2 = mem_of a1" by blast
  let ?pid = "pt_next_pid (procs w)"
  let ?p = "Process_set_name (Process_new ?pid (current_or_zero (procs w)) r (kernel_stack_top ps)
          0x7FFFFFFFF000 (e_entry h)) (string_of_bytes (path_name nm))"
  have pid: "pr_pid ?p = ?pid" "pr_kernel_stack ?p = kernel_stack_top ps"
    by (simp_all add: Process_new_ok) (simp add: Process_set_name_def Process_new_def)
  from pt_insert_fresh[of "procs w" ?p] sr(1,2) pid obtain t' where
    t: "alloc_pid (procs w) = ((procs w)\<lparr>pt_next_pid := ?pid + 1\<rparr>, Some ?pid)"
      "pt_insert ((procs w)\<lparr>pt_next_pid := ?pid + 1\<rparr>) ?p = Return t'" "pt_current t' = pt_current (procs w)"
      "pt_get (procs w) ?pid = None" "\<forall>i. pt_get t' i = (if i = ?pid then Some ?p else pt_get (procs w) i)"
    by (auto simp: kernel_ok_def)
  let ?w0 = "out_port w (ascii ''[SPAWN] Loading process from ramdisk: '' @ nm @ [0x0A])"
  let ?w' = "out_port (?w0\<lparr>aw := a2, procs := t'\<rparr>) (created_message ?pid (e_entry h))"
  have "syscall_dispatch env w (spawn_args ptr) = sys_spawn w (spawn_args ptr)" "arg (spawn_args ptr) 0 = ptr"
    by (simp_all add: syscall_dispatch_def spawn_args_def SyscallArgs_new_def arg_def Let_def)
  moreover have "ramdisk ?w0 = ramdisk w" "aw ?w0 = aw w" "procs ?w0 = procs w" by (simp_all add: out_port_def)
  ultimately have "syscall_dispatch env w (spawn_args ptr) = Return (?w', of_nat ?pid)"
    using sr(3-8) l(1) k(1) t(1,2) l(2)
    by (simp add: sys_spawn_def get_ramdisk_def process_loaded_def ok_to_ret_def Let_def)
  moreover have "pt_current (procs ?w') = pt_current (procs w)" "sched ?w' = sched w" "procs ?w' = t'" "mem_of (aw ?w') = mem_of a1"
    using t(3) k(2) by (simp_all add: out_port_def)
  ultimately show ?thesis using l(2) t(4,5) pid
    by (intro exI[of _ ?w'] exI[of _ ?p] exI[of _ r]) (simp add: process_loaded_def)
qed


section \<open>Properties\<close>

text \<open>
  Claim C38 (spawn creates a runnable process): when the path in user memory names an
  executable of the ramdisk that can be loaded, \<open>sys_spawn\<close> returns the number
  of a new process, the next free one.  The process is ready and runnable, its
  parent is the current process, its name is the last component of the path,
  and its saved registers start it in user mode at the entry point of the file
  with the stack pointer at the top of its stack.  Through its page table it
  sees the segments of the file and a zeroed stack, by the translation of
  4 KiB pages.  All other processes, the current process and the scheduler are
  as before.
\<close>

theorem sys_spawn_creates_process:
  assumes "spawn_ready w ptr nm d h phs"
  shows "\<exists>w' p. let pid = pt_next_pid (procs w) in
    syscall_dispatch env w (spawn_args ptr) = Return (w', of_nat pid) \<and>
    pt_get (procs w) pid = None \<and> pt_get (procs w') pid = Some p \<and> (\<forall>i. i \<noteq> pid \<longrightarrow> pt_get (procs w') i = pt_get (procs w) i) \<and>
    pt_current (procs w') = pt_current (procs w) \<and> sched w' = sched w \<and> runnable_at (procs w') pid \<and>
    pr_state p = Ready \<and> pr_ppid p = current_or_zero (procs w) \<and> pr_name p = Some (string_of_bytes (path_name nm)) \<and>
    s_rip (pr_saved_state p) = e_entry h \<and> s_rsp (pr_saved_state p) = 0x7FFFFFFFF000 \<and>
    s_cr3 (pr_saved_state p) = pr_page_table p \<and> s_cs (pr_saved_state p) = 0x1B \<and> s_ss (pr_saved_state p) = 0x23 \<and>
    (\<forall>ph \<in> set (nonempty_segments (load_headers phs)). sees_segment (mem_of (aw w')) (pr_page_table p) d ph) \<and>
    (\<forall>i < 4096. vread (mem_of (aw w')) (pr_page_table p) (0x7FFFFFFFE000 + of_nat i) = Some 0)"
proof -
  from sys_spawn_steps[OF assms, of env] obtain w' p r where
    s: "syscall_dispatch env w (spawn_args ptr) = Return (w', of_nat (pr_pid p))"
      "p = Process_set_name (Process_new (pt_next_pid (procs w)) (current_or_zero (procs w)) r (pr_kernel_stack p)
          0x7FFFFFFFF000 (e_entry h)) (string_of_bytes (path_name nm))"
      "\<forall>ph \<in> set (nonempty_segments (load_headers phs)). sees_segment (mem_of (aw w')) r d ph"
      "\<forall>i < 4096. vread (mem_of (aw w')) r (0x7FFFFFFFE000 + of_nat i) = Some 0"
      "pt_get (procs w) (pr_pid p) = None" "\<forall>i. pt_get (procs w') i = (if i = pr_pid p then Some p else pt_get (procs w) i)"
      "pt_current (procs w') = pt_current (procs w)" "sched w' = sched w" by blast
  have p: "pr_pid p = pt_next_pid (procs w)" "pr_page_table p = r" "pr_state p = Ready" "pr_ppid p = current_or_zero (procs w)"
    "pr_name p = Some (string_of_bytes (path_name nm))" "pr_saved_state p = SavedState_for_userspace (e_entry h) 0x7FFFFFFFF000 r"
    by (subst s(2); simp add: Process_set_name_def Process_new_def)+
  have "runnable_at (procs w') (pr_pid p)" using s(6) p(3) by (simp add: runnable_at_def)
  with s(1,3-8) p show ?thesis
    by (intro exI[of _ w'] exI[of _ p]) (simp add: Let_def SavedState_for_userspace_def)
qed

text \<open>The sample program, run as process 1, spawns itself under the name that it has in its data.\<close>

theorem sys_spawn_creates_process_witness:
  "\<exists>w w' p. syscall_dispatch \<lparr>env_tsc = 0, env_irqs = []\<rparr> w (spawn_args 0x600000) = Return (w', 2) \<and>
     pt_get (procs w') 2 = Some p \<and> pr_ppid p = 1 \<and> s_rip (pr_saved_state p) = 0x400000 \<and>
     vread (mem_of (aw w')) (pr_page_table p) 0x600001 = Some 9"
proof -
  let ?d = "sample_elf sample_segments" and ?ph = "sample_segment 0x600000 4"
  obtain a where a: "sample_user a" using sample_user_exists by blast
  have len: "length ?d = 234" using sample_elf_tail(1)[of sample_segments] sample_segments_shape by simp
  from single_file_image[of "[7, 9]" ?d] len obtain rd f where
    rd: "find_file rd [7, 9] = Some (Some f)" "drop (rf_data_offset f) (rd_data rd) = ?d"
      "rf_data_offset f + length ?d = length (rd_data rd)" "rf_size f = length ?d" by auto
  let ?w = "sample_kernel a rd"
  have win: "window (rd_data rd) (rf_data_offset f) (rf_size f) = Some ?d"
    using rd(2-4) by (simp add: window_def)
  have "active_ok a" "4 < user_free (phys_of a)" "22 \<le> kernel_free (phys_of a)" using a by (simp_all add: sample_user_def)
  then have r: "spawn_ready ?w 0x600000 [7, 9] ?d (sample_header 3) sample_segments"
    using sample_path[OF a] sample_kernel_ok[of a rd] sample_loadable_again[of a] rd(1) win
    by (simp add: spawn_ready_def sample_pages) (simp add: sample_kernel_def)
  have w: "pt_next_pid (procs ?w) = 2" "current_or_zero (procs ?w) = 1" by (simp_all add: sample_kernel_def current_or_zero_def)
  have ph: "?ph \<in> set (nonempty_segments (load_headers sample_segments))"
    using sample_process_loadable(2) by (simp add: sample_segments_def)
  have im: "unat (mem_size ?ph) = 4" "p_vaddr ?ph = 0x600000" by (simp_all add: sample_segment_def mem_size_def)
  from sys_spawn_creates_process[OF r] w obtain w' p where
    s: "syscall_dispatch \<lparr>env_tsc = 0, env_irqs = []\<rparr> ?w (spawn_args 0x600000) = Return (w', 2)" "pt_get (procs w') 2 = Some p"
      "pr_ppid p = 1" "s_rip (pr_saved_state p) = e_entry (sample_header 3)"
      "\<forall>ph \<in> set (nonempty_segments (load_headers sample_segments)). sees_segment (mem_of (aw w')) (pr_page_table p) ?d ph"
    by (simp add: Let_def) blast
  from s(5) ph im sample_image have "vread (mem_of (aw w')) (pr_page_table p) (0x600000 + of_nat 1) = Some 9"
    unfolding sees_segment_def by (auto dest!: bspec spec[of _ 1])
  with s(1-4) show ?thesis by (auto simp: sample_header_def)
qed

end
