(* ===== verification/Heap_Allocator.thy ===== *)
theory Heap_Allocator
  imports Bytes
begin

text \<open>
  The kernel heap (\<open>mm/allocator.rs\<close>): blocks with a header of 40 bytes in the
  memory they manage, and a doubly linked free list through the headers.  A
  header is read and written field by field in byte memory, at the offsets of
  its C layout; addresses and sizes are 64-bit words and wrap.  The loops follow
  pointers and sizes found in memory, so they may not end: they are partial
  functions whose value is then \<open>None\<close>.  The messages to the debug port, and
  the counters that only limit them, are left out; they print numbers below
  $10^{16}$ into a buffer of 16 digits, so the laws are stated for heaps and
  requests below $2^{48}$ bytes.
\<close>

section \<open>Block headers\<close>

definition load64 :: "memory \<Rightarrow> u64 \<Rightarrow> u64" where
  "load64 m a = of_nat (le_nat (mem_read m (unat a) 8))"

definition store64 :: "memory \<Rightarrow> u64 \<Rightarrow> u64 \<Rightarrow> memory" where
  "store64 m a v = mem_write m (unat a) (nat_le 8 (unat v))"

definition hd_size :: "memory \<Rightarrow> u64 \<Rightarrow> u64" where "hd_size m b = load64 m b"
definition hd_free :: "memory \<Rightarrow> u64 \<Rightarrow> bool" where "hd_free m b \<longleftrightarrow> m (unat (b + 8)) \<noteq> 0"
definition hd_magic :: "memory \<Rightarrow> u64 \<Rightarrow> u64" where "hd_magic m b = load64 m (b + 16)"
definition hd_prev :: "memory \<Rightarrow> u64 \<Rightarrow> u64" where "hd_prev m b = load64 m (b + 24)"
definition hd_next :: "memory \<Rightarrow> u64 \<Rightarrow> u64" where "hd_next m b = load64 m (b + 32)"

definition set_hd_size :: "u64 \<Rightarrow> u64 \<Rightarrow> memory \<Rightarrow> memory" where "set_hd_size b v m = store64 m b v"
definition set_hd_free :: "u64 \<Rightarrow> bool \<Rightarrow> memory \<Rightarrow> memory" where
  "set_hd_free b v m = mem_write m (unat (b + 8)) [if v then 1 else 0]"
definition set_hd_magic :: "u64 \<Rightarrow> u64 \<Rightarrow> memory \<Rightarrow> memory" where "set_hd_magic b v m = store64 m (b + 16) v"
definition set_hd_prev :: "u64 \<Rightarrow> u64 \<Rightarrow> memory \<Rightarrow> memory" where "set_hd_prev b v m = store64 m (b + 24) v"
definition set_hd_next :: "u64 \<Rightarrow> u64 \<Rightarrow> memory \<Rightarrow> memory" where "set_hd_next b v m = store64 m (b + 32) v"

definition HEADER_SIZE :: u64 where "HEADER_SIZE = 40"
definition MIN_BLOCK_SIZE :: u64 where "MIN_BLOCK_SIZE = 1024"
definition BLOCK_ALIGN :: u64 where "BLOCK_ALIGN = 8"
definition BLOCK_MAGIC :: u64 where "BLOCK_MAGIC = 0xDEADBEEFCAFEBABE"

definition BlockHeader_new :: "u64 \<Rightarrow> u64 \<Rightarrow> bool \<Rightarrow> memory \<Rightarrow> memory" where
  "BlockHeader_new b sz fr m =
     set_hd_next b 0 (set_hd_prev b 0 (set_hd_magic b BLOCK_MAGIC (set_hd_free b fr (set_hd_size b sz m))))"

definition block_end :: "memory \<Rightarrow> u64 \<Rightarrow> u64" where "block_end m b = b + hd_size m b"
definition payload :: "u64 \<Rightarrow> u64" where "payload b = b + HEADER_SIZE"
definition is_valid :: "memory \<Rightarrow> u64 \<Rightarrow> bool" where "is_valid m b \<longleftrightarrow> hd_magic m b = BLOCK_MAGIC"
definition total_size :: "u64 \<Rightarrow> u64" where "total_size alloc_size = max (alloc_size + HEADER_SIZE) MIN_BLOCK_SIZE"

section \<open>The allocator\<close>

record LinkedListAllocator =
  free_list :: u64
  heap_start :: u64
  heap_size :: u64
  heap_initialized :: bool

type_synonym heap = "LinkedListAllocator \<times> memory"

definition LinkedListAllocator_new :: LinkedListAllocator where
  "LinkedListAllocator_new = \<lparr>free_list = 0, heap_start = 0, heap_size = 0, heap_initialized = False\<rparr>"

definition heap_init :: "u64 \<Rightarrow> u64 \<Rightarrow> heap \<Rightarrow> heap" where
  "heap_init start sz h = (case h of (al, m) \<Rightarrow>
     let m1 = BlockHeader_new start sz True m;
         m2 = set_hd_next start 0 (set_hd_prev start 0 m1)
     in (al\<lparr>heap_start := start, heap_size := sz, heap_initialized := True, free_list := start\<rparr>, m2))"

definition heap_align_page_up :: "u64 \<Rightarrow> u64" where
  "heap_align_page_up addr = and (addr + 0xFFF) (not 0xFFF)"

definition init_aligned :: "u64 \<Rightarrow> u64 \<Rightarrow> heap \<Rightarrow> heap \<times> u64" where
  "init_aligned start_addr sz h =
     (let aligned_start = heap_align_page_up start_addr; aligned_size = heap_align_page_up sz
      in (heap_init aligned_start aligned_size h, aligned_start))"

text \<open>The start of the aligned payload of a block, and its offset from the block.\<close>

definition aligned_start :: "u64 \<Rightarrow> u64 \<Rightarrow> u64" where
  "aligned_start actual_align b = and (payload b + actual_align - 1) (not (actual_align - 1))"

definition block_fits :: "memory \<Rightarrow> u64 \<Rightarrow> u64 \<Rightarrow> u64 \<Rightarrow> u64 \<Rightarrow> bool" where
  "block_fits m block_size sz actual_align b \<longleftrightarrow>
     is_valid m b \<and> hd_free m b \<and> hd_size m b \<ge> block_size \<and>
     (let offset = aligned_start actual_align b - b in hd_size m b \<ge> offset + sz)"

text \<open>The search along the free list: the previous block and the block, or that there is none.\<close>

partial_function (option) find_block :: "memory \<Rightarrow> u64 \<Rightarrow> u64 \<Rightarrow> u64 \<Rightarrow> u64 \<Rightarrow> u64 \<Rightarrow> (u64 \<times> u64) option option" where
  "find_block m block_size sz actual_align prev current =
     (if current = 0 then Some None
      else if block_fits m block_size sz actual_align current then Some (Some (prev, current))
      else find_block m block_size sz actual_align current (hd_next m current))"

text \<open>Taking a block off the free list.  Its links are cleared before they are used to relink the list.\<close>

definition unlink_block :: "u64 \<Rightarrow> u64 \<Rightarrow> heap \<Rightarrow> heap" where
  "unlink_block prev current h = (case h of (al, m) \<Rightarrow>
     let m1 = set_hd_prev current 0 (set_hd_next current 0 (set_hd_free current False m));
         (al2, m2) = (if prev \<noteq> 0 then (al, set_hd_next prev (hd_next m1 current) m1)
                      else (al\<lparr>free_list := hd_next m1 current\<rparr>, m1));
         m3 = (if hd_next m2 current \<noteq> 0 then set_hd_prev (hd_next m2 current) (hd_prev m2 current) m2 else m2)
     in (al2, set_hd_next current 0 (set_hd_prev current 0 m3)))"

definition push_free :: "u64 \<Rightarrow> heap \<Rightarrow> heap" where
  "push_free b h = (case h of (al, m) \<Rightarrow>
     let m1 = set_hd_next b (free_list al) m;
         m2 = (if free_list al \<noteq> 0 then set_hd_prev (free_list al) b m1 else m1)
     in (al\<lparr>free_list := b\<rparr>, m2))"

text \<open>
  Splitting off the rest of a block.  The start of the new block is rounded with
  the mask \<open>!(40 - 1)\<close>.
\<close>

definition new_block_at :: "u64 \<Rightarrow> u64" where
  "new_block_at alloc_end = and (alloc_end + HEADER_SIZE - 1) (not (HEADER_SIZE - 1))"

definition split_block :: "u64 \<Rightarrow> u64 \<Rightarrow> u64 \<Rightarrow> heap \<Rightarrow> heap" where
  "split_block current offset sz h = (case h of (al, m) \<Rightarrow>
     let alloc_end = current + offset + sz;
         new_block = new_block_at alloc_end;
         new_block_size = (current + hd_size m current) - new_block;
         m1 = set_hd_size current (offset + sz) m
     in if new_block_size \<ge> MIN_BLOCK_SIZE then
          let m2 = set_hd_size current (offset + sz) m1;
              m3 = set_hd_prev new_block 0 (BlockHeader_new new_block new_block_size True m2)
          in push_free new_block (al, m3)
        else (al, m1))"

definition allocate :: "u64 \<Rightarrow> u64 \<Rightarrow> heap \<Rightarrow> (heap \<times> u64) outcome" where
  "allocate sz align h = (case h of (al, m) \<Rightarrow>
     if \<not> heap_initialized al \<or> sz = 0 then Return (h, 0)
     else let block_size = total_size sz; actual_align = max align BLOCK_ALIGN in
       case find_block m block_size sz actual_align 0 (free_list al) of
         None \<Rightarrow> Hang
       | Some None \<Rightarrow> Return (h, 0)
       | Some (Some (prev, current)) \<Rightarrow>
           let start = aligned_start actual_align current;
               offset = start - current;
               remaining = hd_size m current - offset - sz;
               h1 = unlink_block prev current h;
               h2 = (if remaining \<ge> MIN_BLOCK_SIZE then split_block current offset sz h1 else h1)
           in Return (h2, start))"

text \<open>The walk over the blocks from the start of the heap, to the block that holds a pointer.\<close>

partial_function (option) walk_blocks :: "memory \<Rightarrow> u64 \<Rightarrow> u64 \<Rightarrow> u64 \<Rightarrow> u64 option option" where
  "walk_blocks m limit ptr b =
     (if \<not> b < limit then Some None
      else if \<not> is_valid m b then Some None
      else if payload b = ptr \<or> payload b < ptr \<and> ptr < block_end m b then Some (Some b)
      else walk_blocks m limit ptr (block_end m b))"

partial_function (option) find_prev_block :: "memory \<Rightarrow> u64 \<Rightarrow> u64 \<Rightarrow> u64 option option" where
  "find_prev_block m b pb =
     (if \<not> pb < b then Some None
      else if \<not> is_valid m pb then Some None
      else if block_end m pb = b \<and> hd_free m pb then Some (Some pb)
      else find_prev_block m b (block_end m pb))"

definition merge_next :: "u64 \<Rightarrow> memory \<Rightarrow> memory" where
  "merge_next b m =
     (let nx = hd_next m b in
      if nx \<noteq> 0 \<and> is_valid m nx \<and> hd_free m nx then
        let m1 = set_hd_size b (hd_size m b + hd_size m nx) m;
            m2 = set_hd_next b (hd_next m1 nx) m1;
            next_next = hd_next m2 nx
        in if next_next \<noteq> 0 then set_hd_prev next_next b m2 else m2
      else m)"

definition merge_prev :: "u64 \<Rightarrow> u64 \<Rightarrow> memory \<Rightarrow> memory" where
  "merge_prev pb b m =
     (let m1 = set_hd_size pb (hd_size m pb + hd_size m b) m;
          m2 = set_hd_next pb (hd_next m1 b) m1;
          nx = hd_next m2 b
      in if nx \<noteq> 0 then set_hd_prev nx pb m2 else m2)"

definition deallocate :: "u64 \<Rightarrow> heap \<Rightarrow> heap outcome" where
  "deallocate ptr h = (case h of (al, m) \<Rightarrow>
     if \<not> heap_initialized al \<or> ptr = 0 then Return h
     else case walk_blocks m (heap_start al + heap_size al) ptr (heap_start al) of
       None \<Rightarrow> Hang
     | Some None \<Rightarrow> Return h
     | Some (Some b) \<Rightarrow>
         let m1 = merge_next b (set_hd_free b True m) in
         (case find_prev_block m1 b (heap_start al) of
            None \<Rightarrow> Hang
          | Some pr \<Rightarrow>
              let (m2, c) = (case pr of None \<Rightarrow> (m1, b) | Some pb \<Rightarrow> (merge_prev pb b m1, pb));
                  m3 = set_hd_prev c 0 (set_hd_next c (free_list al) m2);
                  m4 = (if free_list al \<noteq> 0 then set_hd_prev (free_list al) c m3 else m3)
              in Return (al\<lparr>free_list := c\<rparr>, m4)))"

partial_function (option) usage_from :: "memory \<Rightarrow> u64 \<Rightarrow> u64 \<Rightarrow> u64 \<Rightarrow> u64 option" where
  "usage_from m limit b used =
     (if \<not> b < limit then Some used
      else if \<not> is_valid m b then Some used
      else usage_from m limit (block_end m b) (if hd_free m b then used else used + hd_size m b))"

definition heap_usage :: "heap \<Rightarrow> u64 option" where
  "heap_usage h = (case h of (al, m) \<Rightarrow>
     if \<not> heap_initialized al then Some 0 else usage_from m (heap_start al + heap_size al) (heap_start al) 0)"

partial_function (option) free_from :: "memory \<Rightarrow> u64 \<Rightarrow> u64 \<Rightarrow> u64 \<Rightarrow> (u64 \<times> u64) option" where
  "free_from m current bytes count =
     (if current = 0 then Some (bytes, count)
      else if is_valid m current \<and> hd_free m current
      then free_from m (hd_next m current) (bytes + hd_size m current) (count + 1)
      else free_from m (hd_next m current) bytes count)"

definition heap_available :: "heap \<Rightarrow> u64 option" where
  "heap_available h = (case h of (al, m) \<Rightarrow>
     if \<not> heap_initialized al then Some 0 else map_option fst (free_from m (free_list al) 0 0))"

definition free_block_count :: "heap \<Rightarrow> u64 option" where
  "free_block_count h = (case h of (al, m) \<Rightarrow>
     if \<not> heap_initialized al then Some 0 else map_option snd (free_from m (free_list al) 0 0))"

end
