(* ===== verification/Heap_Laws.thy ===== *)
theory Heap_Laws
  imports Heap_Allocator
begin

text \<open>
  What the kernel heap promises while nothing is freed: every request returns,
  with a block that is aligned, inside the heap and apart from every block
  handed out before.  And what freeing does to it: two neighbouring small blocks
  freed in order close the free list into a cycle.
\<close>

section \<open>Reading and writing headers\<close>

lemma load64_store64_same [simp]: "load64 (store64 m a v) a = v"
proof -
  have "unat v < 256 ^ 8" using unsigned_less [of v, where ?'a = nat] by simp
  then show ?thesis by (simp add: load64_def store64_def mem_read_write_same le_nat_nat_le_small)
qed

lemma load64_frame:
  "(\<And>i. unat a \<le> i \<Longrightarrow> i < unat a + 8 \<Longrightarrow> m i = m' i) \<Longrightarrow> load64 m a = load64 m' a"
  by (auto simp: load64_def mem_read_def intro!: arg_cong [where f = le_nat] arg_cong [where f = of_nat])

lemma store64_frame: "i < unat a \<or> unat a + 8 \<le> i \<Longrightarrow> store64 m a v i = m i"
  by (auto simp: store64_def mem_write_def)

lemma load64_store64_other:
  "unat a + 8 \<le> unat b \<or> unat b + 8 \<le> unat a \<Longrightarrow> load64 (store64 m a v) b = load64 m b"
  by (rule load64_frame) (auto intro!: store64_frame)

definition roomy :: "u64 \<Rightarrow> bool" where "roomy b \<longleftrightarrow> unat b < 0x8000000000000000"

lemma roomy_unat_add: "roomy b \<Longrightarrow> unat k < 0x1000 \<Longrightarrow> unat (b + k) = unat b + unat k"
  by (subst unat_plus_simple [THEN iffD1]) (auto simp: roomy_def word_le_nat_alt unat_word_ariths)

lemma roomy_offsets:
  "roomy b \<Longrightarrow> unat (b + 8) = unat b + 8" "roomy b \<Longrightarrow> unat (b + 16) = unat b + 16"
  "roomy b \<Longrightarrow> unat (b + 24) = unat b + 24" "roomy b \<Longrightarrow> unat (b + 32) = unat b + 32"
  using roomy_unat_add [of b 8] roomy_unat_add [of b 16] roomy_unat_add [of b 24] roomy_unat_add [of b 32] by simp_all

lemmas hd_defs = hd_size_def hd_free_def hd_magic_def hd_prev_def hd_next_def
lemmas set_hd_defs = set_hd_size_def set_hd_free_def set_hd_magic_def set_hd_prev_def set_hd_next_def

lemma set_hd_frame:
  assumes "roomy b" "i < unat b \<or> unat b + 40 \<le> i"
  shows "set_hd_size b v m i = m i" "set_hd_free b w m i = m i" "set_hd_magic b v m i = m i"
    "set_hd_prev b v m i = m i" "set_hd_next b v m i = m i"
  using assms by (auto simp: set_hd_defs mem_write_def roomy_offsets intro!: store64_frame)

lemma hd_frame:
  assumes "roomy b" and eq: "\<And>i. unat b \<le> i \<Longrightarrow> i < unat b + 40 \<Longrightarrow> m i = m' i"
  shows "hd_size m b = hd_size m' b" "hd_free m b = hd_free m' b" "hd_magic m b = hd_magic m' b"
    "hd_prev m b = hd_prev m' b" "hd_next m b = hd_next m' b"
  using assms by (auto simp: hd_defs roomy_offsets intro!: load64_frame eq)

definition apart :: "u64 \<Rightarrow> u64 \<Rightarrow> bool" where
  "apart b c \<longleftrightarrow> roomy b \<and> roomy c \<and> (unat b + 40 \<le> unat c \<or> unat c + 40 \<le> unat b)"

lemma hd_of_set_apart:
  assumes "apart b c"
  shows "hd_size (set_hd_size b v m) c = hd_size m c" "hd_size (set_hd_free b w m) c = hd_size m c"
    "hd_size (set_hd_magic b v m) c = hd_size m c" "hd_size (set_hd_prev b v m) c = hd_size m c"
    "hd_size (set_hd_next b v m) c = hd_size m c"
    "hd_free (set_hd_size b v m) c = hd_free m c" "hd_free (set_hd_free b w m) c = hd_free m c"
    "hd_free (set_hd_magic b v m) c = hd_free m c" "hd_free (set_hd_prev b v m) c = hd_free m c"
    "hd_free (set_hd_next b v m) c = hd_free m c"
    "hd_magic (set_hd_size b v m) c = hd_magic m c" "hd_magic (set_hd_free b w m) c = hd_magic m c"
    "hd_magic (set_hd_magic b v m) c = hd_magic m c" "hd_magic (set_hd_prev b v m) c = hd_magic m c"
    "hd_magic (set_hd_next b v m) c = hd_magic m c"
    "hd_prev (set_hd_size b v m) c = hd_prev m c" "hd_prev (set_hd_free b w m) c = hd_prev m c"
    "hd_prev (set_hd_magic b v m) c = hd_prev m c" "hd_prev (set_hd_prev b v m) c = hd_prev m c"
    "hd_prev (set_hd_next b v m) c = hd_prev m c"
    "hd_next (set_hd_size b v m) c = hd_next m c" "hd_next (set_hd_free b w m) c = hd_next m c"
    "hd_next (set_hd_magic b v m) c = hd_next m c" "hd_next (set_hd_prev b v m) c = hd_next m c"
    "hd_next (set_hd_next b v m) c = hd_next m c"
  using assms by (auto simp: apart_def intro!: hd_frame set_hd_frame)

lemma hd_of_set_same:
  assumes "roomy b"
  shows "hd_size (set_hd_size b v m) b = v" "hd_size (set_hd_free b w m) b = hd_size m b"
    "hd_size (set_hd_magic b v m) b = hd_size m b" "hd_size (set_hd_prev b v m) b = hd_size m b"
    "hd_size (set_hd_next b v m) b = hd_size m b"
    "hd_free (set_hd_size b v m) b = hd_free m b" "hd_free (set_hd_free b w m) b = w"
    "hd_free (set_hd_magic b v m) b = hd_free m b" "hd_free (set_hd_prev b v m) b = hd_free m b"
    "hd_free (set_hd_next b v m) b = hd_free m b"
    "hd_magic (set_hd_size b v m) b = hd_magic m b" "hd_magic (set_hd_free b w m) b = hd_magic m b"
    "hd_magic (set_hd_magic b v m) b = v" "hd_magic (set_hd_prev b v m) b = hd_magic m b"
    "hd_magic (set_hd_next b v m) b = hd_magic m b"
    "hd_prev (set_hd_size b v m) b = hd_prev m b" "hd_prev (set_hd_free b w m) b = hd_prev m b"
    "hd_prev (set_hd_magic b v m) b = hd_prev m b" "hd_prev (set_hd_prev b v m) b = v"
    "hd_prev (set_hd_next b v m) b = hd_prev m b"
    "hd_next (set_hd_size b v m) b = hd_next m b" "hd_next (set_hd_free b w m) b = hd_next m b"
    "hd_next (set_hd_magic b v m) b = hd_next m b" "hd_next (set_hd_prev b v m) b = hd_next m b"
    "hd_next (set_hd_next b v m) b = v"
  using assms
  by (auto simp: hd_defs set_hd_defs load64_store64_other roomy_offsets store64_frame mem_write_def
           intro!: load64_frame)

lemmas hd_reads = hd_of_set_same hd_of_set_apart

lemma BlockHeader_new_frame:
  "roomy b \<Longrightarrow> i < unat b \<or> unat b + 40 \<le> i \<Longrightarrow> BlockHeader_new b sz fr m i = m i"
  by (simp add: BlockHeader_new_def set_hd_frame)

section \<open>Addresses\<close>

lemma unat_and_not: "unat (and x (not b) :: u64) = unat x - unat (and x b)"
proof -
  have "and x (not b) = x - and x b"
    by (subst disjunctive_diff_eq_and_not) (auto simp: bit_simps intro!: bit_eqI)
  moreover have "and x b \<le> x" by (rule word_and_le2)
  ultimately show ?thesis by (simp add: unat_sub)
qed

lemma new_block_at_bounds:
  assumes "roomy e"
  shows "unat e \<le> unat (new_block_at e)" "unat (new_block_at e) \<le> unat e + 39"
proof -
  have "and (e + 39) 39 \<le> 39" by (rule word_and_le1)
  then have "unat (and (e + 39) 39) \<le> 39" by (simp add: word_le_nat_alt)
  moreover have "unat (e + 39) = unat e + 39" using roomy_unat_add [OF assms, of 39] by simp
  moreover have "new_block_at e = and (e + 39) (not 39)" by (simp add: new_block_at_def HEADER_SIZE_def ac_simps)
  ultimately show "unat e \<le> unat (new_block_at e)" "unat (new_block_at e) \<le> unat e + 39"
    by (simp_all only: unat_and_not)
qed

lemma unat_align_down: "unat (and y (not (2 ^ k - 1)) :: u64) = unat y - unat y mod 2 ^ k"
proof -
  have "and y (2 ^ k - 1) = take_bit k y" by (simp only: mask_eq_exp_minus_1 take_bit_eq_mask)
  then have "unat (and y (2 ^ k - 1)) = take_bit k (unat y)" by (simp only: unsigned_take_bit_eq)
  then show ?thesis by (simp only: unat_and_not take_bit_eq_mod)
qed

lemma aligned_start_bounds:
  assumes "roomy f" "k \<le> 12"
  shows "unat f + 40 \<le> unat (aligned_start (2 ^ k) f)" "unat (aligned_start (2 ^ k) f) < unat f + 40 + 2 ^ k"
    "2 ^ k dvd unat (aligned_start (2 ^ k) f)"
proof -
  let ?y = "payload f + 2 ^ k - 1"
  have k: "(2::nat) ^ k \<le> 2 ^ 12" using assms(2) by (intro power_increasing) auto
  have p: "unat (2 ^ k :: u64) = 2 ^ k" 
  proof -
    have "(2 ^ k :: u64) = of_nat (2 ^ k)" by simp
    then show ?thesis using k assms(2) by (simp only: unsigned_of_nat) (simp add: take_bit_nat_eq_self)
  qed
  have e: "?y = f + (39 + 2 ^ k)" by (simp add: payload_def HEADER_SIZE_def)
  have n: "unat (39 + 2 ^ k :: u64) = 39 + 2 ^ k" using k p by (simp add: unat_word_ariths)
  have y: "unat ?y = unat f + (39 + 2 ^ k)" using assms(1) n k unfolding e by (simp add: unat_word_ariths roomy_def)
  have m: "unat ?y mod 2 ^ k < 2 ^ k" by simp
  show "unat f + 40 \<le> unat (aligned_start (2 ^ k) f)" "unat (aligned_start (2 ^ k) f) < unat f + 40 + 2 ^ k"
    using y m by (simp_all only: aligned_start_def unat_align_down)
  show "2 ^ k dvd unat (aligned_start (2 ^ k) f)"
    by (simp only: aligned_start_def unat_align_down) (simp add: minus_mod_eq_mult_div)
qed

lemma max_align: "k \<le> 12 \<Longrightarrow> max (2 ^ k) BLOCK_ALIGN = 2 ^ max k 3"
proof -
  assume "k \<le> 12"
  then have "k = 0 \<or> k = 1 \<or> k = 2 \<or> k = 3 \<or> k = 4 \<or> k = 5 \<or> k = 6 \<or> k = 7 \<or> k = 8 \<or> k = 9 \<or>
    k = 10 \<or> k = 11 \<or> k = 12" by arith
  then show ?thesis by (elim disjE) (simp_all add: BLOCK_ALIGN_def)
qed

lemma fit_numbers:
  assumes "unat f + unat z < 0x1000000000000" "unat sz < 0x1000000000000" "k \<le> 12"
    "p = aligned_start (2 ^ k) f"
  shows "unat (p - f) = unat p - unat f" "unat (p - f + sz) = unat p - unat f + unat sz"
    "unat (p + sz) = unat p + unat sz" "unat (f + z) = unat f + unat z"
    "p - f + sz \<le> z \<longleftrightarrow> unat p + unat sz \<le> unat f + unat z"
    "unat p + unat sz \<le> unat f + unat z \<Longrightarrow> unat (z - (p - f) - sz) = unat f + unat z - (unat p + unat sz)"
proof -
  have r: "roomy f" using assms(1) by (simp add: roomy_def)
  note b = aligned_start_bounds [OF r assms(3), folded assms(4)]
  have k: "(2::nat) ^ k \<le> 2 ^ 12" using assms(3) by (intro power_increasing) auto
  show 1: "unat (p - f) = unat p - unat f" using b by (simp add: unat_sub word_le_nat_alt)
  show 2: "unat (p - f + sz) = unat p - unat f + unat sz"
    using b k assms 1 by (simp add: unat_word_ariths(1))
  show "unat (p + sz) = unat p + unat sz" using b k assms(1,2) by (simp add: unat_word_ariths(1))
  show "unat (f + z) = unat f + unat z" using assms(1) by (simp add: unat_word_ariths(1))
  show 3: "p - f + sz \<le> z \<longleftrightarrow> unat p + unat sz \<le> unat f + unat z"
    using b 2 by (auto simp: word_le_nat_alt)
  assume h: "unat p + unat sz \<le> unat f + unat z"
  have "z - (p - f) - sz = z - (p - f + sz)" by simp
  then show "unat (z - (p - f) - sz) = unat f + unat z - (unat p + unat sz)"
    using 2 3 h b by (simp only: unat_sub)
qed

section \<open>Taking the first free block\<close>

lemma allocate_head:
  assumes "heap_initialized al" "sz \<noteq> 0" "free_list al = f" "f \<noteq> 0"
    "block_fits m (total_size sz) sz (max align BLOCK_ALIGN) f"
  shows "allocate sz align (al, m) =
    (let start = aligned_start (max align BLOCK_ALIGN) f; offset = start - f;
         h1 = unlink_block 0 f (al, m)
     in Return (if hd_size m f - offset - sz \<ge> MIN_BLOCK_SIZE then split_block f offset sz h1 else h1, start))"
  using assms by (simp add: allocate_def find_block.simps Let_def)

lemma allocate_full:
  assumes "free_list al = f" "f = 0 \<or> hd_next m f = 0 \<and> \<not> block_fits m (total_size sz) sz (max align BLOCK_ALIGN) f"
  shows "allocate sz align (al, m) = Return ((al, m), 0)"
proof -
  have "find_block m (total_size sz) sz (max align BLOCK_ALIGN) 0 f = Some None"
    using assms by (subst find_block.simps, subst find_block.simps) auto
  then show ?thesis using assms by (simp add: allocate_def Let_def)
qed

text \<open>The block that was first is taken and its successor is forgotten with it.\<close>

lemma unlink_head:
  "roomy f \<Longrightarrow> unlink_block 0 f (al, m) = (al\<lparr>free_list := 0\<rparr>,
     set_hd_next f 0 (set_hd_prev f 0 (set_hd_prev f 0 (set_hd_next f 0 (set_hd_free f False m)))))"
  by (simp add: unlink_block_def Let_def hd_reads)

definition block_is :: "memory \<Rightarrow> u64 \<Rightarrow> u64 \<Rightarrow> bool \<Rightarrow> u64 \<Rightarrow> bool" where
  "block_is m b sz fr nx \<longleftrightarrow> is_valid m b \<and> hd_size m b = sz \<and> hd_free m b = fr \<and> hd_next m b = nx"

lemma block_is_facts:
  assumes "block_is m b sz fr nx"
  shows "is_valid m b" "hd_size m b = sz" "hd_free m b = fr" "hd_next m b = nx"
  using assms by (auto simp: block_is_def)

lemma block_is_frame:
  assumes "block_is m b sz fr nx" "roomy b" "\<And>i. unat b \<le> i \<Longrightarrow> i < unat b + 40 \<Longrightarrow> m' i = m i"
  shows "block_is m' b sz fr nx"
  using assms(1) hd_frame [of b m' m, OF assms(2,3)] by (simp add: block_is_def is_valid_def)

lemma split_head:
  assumes "roomy f" "apart f n" "n = new_block_at (f + offset + sz)" "is_valid m f"
    "(f + hd_size m f) - n \<ge> MIN_BLOCK_SIZE"
  obtains m' where
    "split_block f offset sz (unlink_block 0 f (al, m)) = (al\<lparr>free_list := n\<rparr>, m')"
    "block_is m' f (offset + sz) False 0" "block_is m' n ((f + hd_size m f) - n) True 0"
    "\<And>i. i < unat f \<or> unat f + 40 \<le> i \<Longrightarrow> i < unat n \<or> unat n + 40 \<le> i \<Longrightarrow> m' i = m i"
proof -
  define m' where "m' = snd (split_block f offset sz (unlink_block 0 f (al, m)))"
  have r: "roomy n" "apart n f" using assms(2) by (auto simp: apart_def)
  have m': "split_block f offset sz (unlink_block 0 f (al, m)) = (al\<lparr>free_list := n\<rparr>, m')"
    using assms r by (simp add: m'_def split_block_def Let_def unlink_head hd_reads push_free_def)
  show ?thesis
    by (rule that [OF m']; use assms r in \<open>simp add: m'_def split_block_def Let_def unlink_head hd_reads
      push_free_def block_is_def is_valid_def BlockHeader_new_def set_hd_frame\<close>)
qed

lemma split_head_none:
  assumes "roomy f" "\<not> (f + hd_size m f) - new_block_at (f + offset + sz) \<ge> MIN_BLOCK_SIZE"
  obtains m' where
    "split_block f offset sz (unlink_block 0 f (al, m)) = (al\<lparr>free_list := 0\<rparr>, m')"
    "\<And>i. i < unat f \<or> unat f + 40 \<le> i \<Longrightarrow> m' i = m i"
proof -
  define m' where "m' = snd (split_block f offset sz (unlink_block 0 f (al, m)))"
  have m': "split_block f offset sz (unlink_block 0 f (al, m)) = (al\<lparr>free_list := 0\<rparr>, m')"
    using assms by (simp add: m'_def split_block_def Let_def unlink_head hd_reads)
  show ?thesis
    by (rule that [OF m']; use assms in \<open>simp add: m'_def split_block_def Let_def unlink_head hd_reads set_hd_frame\<close>)
qed

lemma carve:
  assumes z: "unat f + unat z < 0x1000000000000" "block_is m f z True 0"
    and sz: "unat sz < 0x1000000000000" "k \<le> 12" and p: "p = aligned_start (2 ^ k) f"
    and fits: "unat p + unat sz \<le> unat f + unat z"
  obtains n m' where
    "(if hd_size m f - (p - f) - sz \<ge> MIN_BLOCK_SIZE then split_block f (p - f) sz (unlink_block 0 f (al, m))
      else unlink_block 0 f (al, m)) = (al\<lparr>free_list := n\<rparr>, m')"
    "\<And>i. i < unat f \<Longrightarrow> m' i = m i"
    "n = 0 \<or> unat p + unat sz \<le> unat n \<and>
       (\<exists>z'. block_is m' n z' True 0 \<and> 40 \<le> unat z' \<and> unat n + unat z' = unat f + unat z)"
proof -
  have r: "roomy f" using z by (simp add: roomy_def)
  note num = fit_numbers [OF z(1) sz p] and low = aligned_start_bounds(1) [OF r sz(2), folded p]
  let ?n = "new_block_at (f + (p - f) + sz)"
  have e: "f + (p - f) + sz = p + sz" by simp
  have nb: "unat p + unat sz \<le> unat ?n" "unat ?n \<le> unat p + unat sz + 39"
    using new_block_at_bounds [of "p + sz"] fits z(1) num(3) unfolding e by (simp_all add: roomy_def)
  consider (no) "\<not> hd_size m f - (p - f) - sz \<ge> MIN_BLOCK_SIZE"
    | (small) "hd_size m f - (p - f) - sz \<ge> MIN_BLOCK_SIZE" "\<not> (f + hd_size m f) - ?n \<ge> MIN_BLOCK_SIZE"
    | (split) "hd_size m f - (p - f) - sz \<ge> MIN_BLOCK_SIZE" "(f + hd_size m f) - ?n \<ge> MIN_BLOCK_SIZE" by blast
  then show ?thesis
  proof cases
    case no
    then show ?thesis by (intro that [of 0 "snd (unlink_block 0 f (al, m))"]) (simp_all add: unlink_head r set_hd_frame)
  next
    case small
    obtain m' where "split_block f (p - f) sz (unlink_block 0 f (al, m)) = (al\<lparr>free_list := 0\<rparr>, m')"
      "\<And>i. i < unat f \<or> unat f + 40 \<le> i \<Longrightarrow> m' i = m i" using split_head_none [OF r small(2)] by metis
    with small(1) show ?thesis by (intro that [of 0 m']) simp_all
  next
    case split
    have rem: "1024 \<le> unat f + unat z - (unat p + unat sz)"
      using split(1) num(6) [OF fits] block_is_facts(2) [OF z(2)] by (simp add: MIN_BLOCK_SIZE_def word_le_nat_alt)
    have ap: "apart f ?n" using nb low rem z(1) r fits by (auto simp: apart_def roomy_def)
    obtain m' where m': "split_block f (p - f) sz (unlink_block 0 f (al, m)) = (al\<lparr>free_list := ?n\<rparr>, m')"
      "block_is m' ?n (f + z - ?n) True 0"
      "\<And>i. i < unat f \<or> unat f + 40 \<le> i \<Longrightarrow> i < unat ?n \<or> unat ?n + 40 \<le> i \<Longrightarrow> m' i = m i"
      using split_head [OF r ap refl block_is_facts(1) [OF z(2)] split(2)] block_is_facts(2) [OF z(2)] by metis
    have "unat (f + z - ?n) = unat f + unat z - unat ?n"
      using nb rem num(4) by (subst unat_sub) (simp_all add: word_le_nat_alt)
    with nb rem have size: "40 \<le> unat (f + z - ?n)" "unat ?n + unat (f + z - ?n) = unat f + unat z" by simp_all
    show ?thesis
      using split(1) m' size nb low by (intro that [of ?n m']) auto
  qed
qed

section \<open>Allocation without freeing\<close>

text \<open>
  The blocks handed out, newest first, lie below the frontier: the one free
  block, which reaches to the end of the heap, or the end itself.
\<close>

definition heap_end :: "LinkedListAllocator \<Rightarrow> nat" where
  "heap_end al = unat (heap_start al) + unat (heap_size al)"

definition frontier :: "LinkedListAllocator \<Rightarrow> nat" where
  "frontier al = (if free_list al = 0 then heap_end al else unat (free_list al))"

definition free_tail :: "LinkedListAllocator \<Rightarrow> memory \<Rightarrow> bool" where
  "free_tail al m \<longleftrightarrow> free_list al = 0 \<or>
     (\<exists>z. block_is m (free_list al) z True 0 \<and> unat (heap_start al) \<le> unat (free_list al) \<and>
          40 \<le> unat z \<and> unat (free_list al) + unat z = heap_end al)"

definition blocks_below :: "LinkedListAllocator \<Rightarrow> (u64 \<times> u64) list \<Rightarrow> bool" where
  "blocks_below al live \<longleftrightarrow>
     (\<forall>(p, s) \<in> set live. unat (heap_start al) + 40 \<le> unat p \<and> unat p + unat s \<le> frontier al) \<and>
     sorted_wrt (\<lambda>(p, s) (q, t). unat q + unat t \<le> unat p) live"

definition bump :: "LinkedListAllocator \<Rightarrow> memory \<Rightarrow> (u64 \<times> u64) list \<Rightarrow> bool" where
  "bump al m live \<longleftrightarrow> heap_initialized al \<and> heap_start al \<noteq> 0 \<and> heap_end al < 0x1000000000000 \<and>
     free_tail al m \<and> blocks_below al live \<and> (live = [] \<longrightarrow> free_list al = heap_start al)"

lemma heap_init_bump:
  assumes "start \<noteq> 0" "40 \<le> unat sz" "unat start + unat sz < 0x1000000000000"
  obtains al m' where "heap_init start sz (LinkedListAllocator_new, m) = (al, m')" "bump al m' []"
    "heap_start al = start" "heap_size al = sz"
proof -
  have r: "roomy start" using assms by (simp add: roomy_def)
  show ?thesis
    by (rule that [of "fst (heap_init start sz (LinkedListAllocator_new, m))" "snd (heap_init start sz (LinkedListAllocator_new, m))"])
      (use assms r in \<open>simp_all add: heap_init_def Let_def LinkedListAllocator_new_def bump_def heap_end_def
        free_tail_def blocks_below_def block_is_def is_valid_def BlockHeader_new_def hd_reads\<close>)
qed

lemma bump_write:
  assumes "bump al m live" "(p, s) \<in> set live" "i < unat s"
  shows "bump al (m(unat p + i := b)) live"
proof -
  have below: "unat p + i < frontier al" using assms by (fastforce simp: bump_def blocks_below_def)
  have "free_tail al (m(unat p + i := b))"
  proof (cases "free_list al = 0")
    case False
    then obtain z where z: "block_is m (free_list al) z True 0" "unat (heap_start al) \<le> unat (free_list al)"
      "40 \<le> unat z" "unat (free_list al) + unat z = heap_end al"
      using assms(1) by (auto simp: bump_def free_tail_def)
    then have "roomy (free_list al)" using assms(1) by (simp add: bump_def roomy_def)
    then have "block_is (m(unat p + i := b)) (free_list al) z True 0"
      using False below by (intro block_is_frame [OF z(1)]) (auto simp: frontier_def)
    with z show ?thesis by (auto simp: free_tail_def)
  qed (simp add: free_tail_def)
  then show ?thesis using assms(1) by (simp add: bump_def)
qed

lemma fits_nat:
  assumes "block_is m f z True 0" "unat f + unat z < 0x1000000000000" "unat sz < 0x1000000000000" "k \<le> 12"
  shows "block_fits m (total_size sz) sz (2 ^ k) f \<longleftrightarrow> max (unat sz + 40) 1024 \<le> unat z \<and>
     unat (aligned_start (2 ^ k) f) + unat sz \<le> unat f + unat z"
proof -
  have "unat (sz + 40) = unat sz + 40" using assms(3) by (simp add: unat_word_ariths(1))
  then have "unat (total_size sz) = max (unat sz + 40) 1024"
    by (simp add: total_size_def HEADER_SIZE_def MIN_BLOCK_SIZE_def max_def word_le_nat_alt)
  then show ?thesis
    using fit_numbers(5) [OF assms(2,3,4) refl] block_is_facts [OF assms(1)]
    by (simp add: block_fits_def Let_def word_le_nat_alt)
qed

lemma bump_push:
  assumes inv: "bump al m live" and f: "free_list al \<noteq> 0"
    and p: "unat (free_list al) + 40 \<le> unat p" "unat p + unat sz \<le> heap_end al"
    and n: "n = 0 \<or> unat p + unat sz \<le> unat n \<and>
       (\<exists>z'. block_is m' n z' True 0 \<and> 40 \<le> unat z' \<and> unat n + unat z' = heap_end al)"
  shows "bump (al\<lparr>free_list := n\<rparr>) m' ((p, sz) # live)"
proof -
  have low: "unat (heap_start al) \<le> unat (free_list al)" using inv f by (auto simp: bump_def free_tail_def)
  have old: "unat (heap_start al) + 40 \<le> unat q" "unat q + unat t \<le> unat (free_list al)" if "(q, t) \<in> set live" for q t
    using inv f that by (auto simp: bump_def blocks_below_def frontier_def)
  have e: "heap_end (al\<lparr>free_list := n\<rparr>) = heap_end al" by (simp add: heap_end_def)
  have fr: "unat p + unat sz \<le> frontier (al\<lparr>free_list := n\<rparr>)" using n p e by (auto simp: frontier_def)
  have "free_tail (al\<lparr>free_list := n\<rparr>) m'" using n low p e by (fastforce simp: free_tail_def)
  moreover have "blocks_below (al\<lparr>free_list := n\<rparr>) ((p, sz) # live)"
    using inv fr low p old by (fastforce simp: blocks_below_def bump_def)
  ultimately show ?thesis using inv e by (simp add: bump_def)
qed

lemma bump_alloc:
  assumes inv: "bump al m live" and sz: "sz \<noteq> 0" "unat sz < 0x1000000000000" and k: "k \<le> 12"
  obtains al' m' p where "allocate sz (2 ^ k) (al, m) = Return ((al', m'), p)"
    "heap_start al' = heap_start al" "heap_size al' = heap_size al"
    "p = 0 \<Longrightarrow> al' = al \<and> m' = m"
    "p \<noteq> 0 \<Longrightarrow> bump al' m' ((p, sz) # live) \<and> 2 ^ max k 3 dvd unat p \<and> frontier al \<le> unat p \<and>
       unat p + unat sz \<le> heap_end al \<and> (\<forall>i < frontier al. m' i = m i)"
    "live = [] \<Longrightarrow> max (unat sz + 40) 1024 + 2 ^ max k 3 \<le> unat (heap_size al) \<Longrightarrow> p \<noteq> 0"
proof (cases "free_list al = 0")
  case True
  then have "live \<noteq> []" using inv by (auto simp: bump_def)
  moreover have "allocate sz (2 ^ k) (al, m) = Return ((al, m), 0)" using True by (intro allocate_full) auto
  ultimately show ?thesis by (intro that [of al m 0]) simp_all
next
  case False
  let ?f = "free_list al"
  obtain z where z: "block_is m ?f z True 0" "unat (heap_start al) \<le> unat ?f" "40 \<le> unat z" "unat ?f + unat z = heap_end al"
    using inv False by (auto simp: bump_def free_tail_def)
  have top: "unat ?f + unat z < 0x1000000000000" using z(4) inv by (simp add: bump_def)
  have r: "roomy ?f" using top by (simp add: roomy_def)
  have k3: "max k 3 \<le> 12" using k by simp
  note al = max_align [OF k] and fits = fits_nat [OF z(1) top sz(2) k3]
  note bounds = aligned_start_bounds [OF r k3]
  show ?thesis
  proof (cases "block_fits m (total_size sz) sz (2 ^ max k 3) ?f")
    case nofit: False
    have "allocate sz (2 ^ k) (al, m) = Return ((al, m), 0)"
      using nofit al block_is_facts(4) [OF z(1)] by (intro allocate_full) auto
    moreover have "\<not> max (unat sz + 40) 1024 + 2 ^ max k 3 \<le> unat (heap_size al)" if "live = []"
    proof -
      have "unat z = unat (heap_size al)" using that inv z(4) by (simp add: bump_def heap_end_def)
      then show ?thesis using nofit bounds(2) unfolding fits by linarith
    qed
    ultimately show ?thesis by (intro that [of al m 0]) simp_all
  next
    case fit: True
    define p where "p = aligned_start (2 ^ max k 3) ?f"
    have room: "unat p + unat sz \<le> unat ?f + unat z" using fit by (simp add: fits p_def)
    obtain n m' where c: "(if hd_size m ?f - (p - ?f) - sz \<ge> MIN_BLOCK_SIZE
        then split_block ?f (p - ?f) sz (unlink_block 0 ?f (al, m)) else unlink_block 0 ?f (al, m)) = (al\<lparr>free_list := n\<rparr>, m')"
      "\<And>i. i < unat ?f \<Longrightarrow> m' i = m i"
      "n = 0 \<or> unat p + unat sz \<le> unat n \<and>
         (\<exists>z'. block_is m' n z' True 0 \<and> 40 \<le> unat z' \<and> unat n + unat z' = unat ?f + unat z)"
      using carve [OF top z(1) sz(2) k3 p_def room] by metis
    have "allocate sz (2 ^ k) (al, m) = Return ((al\<lparr>free_list := n\<rparr>, m'), p)"
      using inv sz(1) False fit c(1) al by (subst allocate_head [where f = ?f]) (simp_all add: bump_def Let_def flip: p_def)
    moreover have "p \<noteq> 0" using bounds(1) by (auto simp: p_def)
    moreover have "bump (al\<lparr>free_list := n\<rparr>) m' ((p, sz) # live)"
      using c(3) bounds(1) room z(4) by (intro bump_push [OF inv False]) (simp_all add: p_def)
    ultimately show ?thesis
      using False bounds z(4) room c(2) by (intro that [of "al\<lparr>free_list := n\<rparr>" m' p]) (simp_all add: p_def frontier_def)
  qed
qed

section \<open>Every history of requests and writes\<close>

text \<open>
  The heap after its initialisation, requests, and writes of the clients into
  the blocks they were given.
\<close>

inductive heap_reach :: "LinkedListAllocator \<Rightarrow> memory \<Rightarrow> (u64 \<times> u64) list \<Rightarrow> bool" where
  reach_init: "start \<noteq> 0 \<Longrightarrow> 40 \<le> unat sz \<Longrightarrow> unat start + unat sz < 0x1000000000000 \<Longrightarrow>
    heap_init start sz (LinkedListAllocator_new, m) = (al, m') \<Longrightarrow> heap_reach al m' []"
| reach_alloc: "heap_reach al m live \<Longrightarrow> unat sz < 0x1000000000000 \<Longrightarrow> k \<le> 12 \<Longrightarrow>
    allocate sz (2 ^ k) (al, m) = Return ((al', m'), p) \<Longrightarrow>
    heap_reach al' m' (if p = 0 then live else (p, sz) # live)"
| reach_write: "heap_reach al m live \<Longrightarrow> (p, s) \<in> set live \<Longrightarrow> i < unat s \<Longrightarrow> heap_reach al (m(unat p + i := b)) live"

lemma heap_reach_bump: "heap_reach al m live \<Longrightarrow> bump al m live"
proof (induction rule: heap_reach.induct)
  case (reach_init start sz m al m')
  then show ?case using heap_init_bump [OF reach_init(1-3), of m] by (metis Pair_inject)
next
  case (reach_alloc al m live sz k al' m' p)
  show ?case
  proof (cases "sz = 0")
    case True
    then show ?thesis using reach_alloc by (auto simp: allocate_def)
  next
    case False
    show ?thesis
      by (rule bump_alloc [OF reach_alloc(5) False reach_alloc(2,3)]) (use reach_alloc in auto)
  qed
next
  case (reach_write al m live p s i b)
  then show ?case by (intro bump_write)
qed

text \<open>
  Claim C8 (heap allocation): after any history of requests and of writes into
  the blocks handed out, a request for a nonempty block, at an alignment that is
  a power of two up to a page, returns.  A null result changes nothing, and
  never meets the first request of a heap with room for it.  Any other result
  is aligned as asked and to 8 bytes, lies in the heap behind a header, is
  disjoint from every block handed out before, and no byte of those blocks
  has changed.
\<close>

theorem heap_allocation_safe:
  assumes "heap_reach al m live" "sz \<noteq> 0" "unat sz < 0x1000000000000" "k \<le> 12"
  shows "\<exists>al' m' p. allocate sz (2 ^ k) (al, m) = Return ((al', m'), p) \<and>
    (p = 0 \<longrightarrow> al' = al \<and> m' = m) \<and>
    (live = [] \<longrightarrow> max (unat sz + 40) 1024 + 2 ^ max k 3 \<le> unat (heap_size al) \<longrightarrow> p \<noteq> 0) \<and>
    (p \<noteq> 0 \<longrightarrow> 2 ^ k dvd unat p \<and> 8 dvd unat p \<and> unat (heap_start al) + 40 \<le> unat p \<and>
       unat p + unat sz \<le> unat (heap_start al) + unat (heap_size al) \<and>
       (\<forall>(q, t) \<in> set live. unat q + unat t \<le> unat p \<and> (\<forall>i < unat t. m' (unat q + i) = m (unat q + i))))"
proof -
  have inv: "bump al m live" using assms(1) by (rule heap_reach_bump)
  obtain al' m' p where r: "allocate sz (2 ^ k) (al, m) = Return ((al', m'), p)"
    "p = 0 \<Longrightarrow> al' = al \<and> m' = m"
    "p \<noteq> 0 \<Longrightarrow> bump al' m' ((p, sz) # live) \<and> 2 ^ max k 3 dvd unat p \<and> frontier al \<le> unat p \<and>
       unat p + unat sz \<le> heap_end al \<and> (\<forall>i < frontier al. m' i = m i)"
    "live = [] \<Longrightarrow> max (unat sz + 40) 1024 + 2 ^ max k 3 \<le> unat (heap_size al) \<Longrightarrow> p \<noteq> 0"
    "heap_start al' = heap_start al"
    using bump_alloc [OF inv assms(2-4)] by metis
  have dvd: "2 ^ k dvd (2 :: nat) ^ max k 3" "(8 :: nat) dvd 2 ^ max k 3"
    using le_imp_power_dvd [of k "max k 3" "2::nat"] le_imp_power_dvd [of 3 "max k 3" "2::nat"] by simp_all
  have old: "unat q + unat t \<le> frontier al" if "(q, t) \<in> set live" for q t
    using inv that by (auto simp: bump_def blocks_below_def)
  have "2 ^ k dvd unat p \<and> 8 dvd unat p \<and> unat (heap_start al) + 40 \<le> unat p \<and>
       unat p + unat sz \<le> unat (heap_start al) + unat (heap_size al) \<and>
       (\<forall>(q, t) \<in> set live. unat q + unat t \<le> unat p \<and> (\<forall>i < unat t. m' (unat q + i) = m (unat q + i)))"
    if "p \<noteq> 0"
  proof -
    note r3 = r(3) [OF that]
    have "unat (heap_start al) + 40 \<le> unat p" using r3 r(5) by (auto simp: bump_def blocks_below_def)
    moreover have "2 ^ k dvd unat p" "8 dvd unat p" using r3 dvd dvd_trans by blast+
    moreover have "unat q + unat t \<le> unat p \<and> (\<forall>i < unat t. m' (unat q + i) = m (unat q + i))" if "(q, t) \<in> set live" for q t
      using r3 old [OF that] by simp
    ultimately show ?thesis using r3 by (auto simp: heap_end_def)
  qed
  with r(1,2,4) show ?thesis by (intro exI [of _ al'] exI [of _ m'] exI [of _ p]) simp
qed

lemma heap_reach_init:
  "heap_reach (fst (heap_init 0x100000 0x10000 (LinkedListAllocator_new, m))) (snd (heap_init 0x100000 0x10000 (LinkedListAllocator_new, m))) []"
  by (rule reach_init [where start = "0x100000" and sz = "0x10000" and m = m]) simp_all

theorem heap_allocation_safe_witness:
  "\<exists>al' m' p. allocate 24 (2 ^ 4) (heap_init 0x100000 0x10000 (LinkedListAllocator_new, \<lambda>_. 0)) = Return ((al', m'), p) \<and>
     p \<noteq> 0 \<and> 16 dvd unat p"
  using heap_allocation_safe [OF heap_reach_init [of "\<lambda>_. 0"], of 24 4]
  by (auto simp: heap_init_def Let_def LinkedListAllocator_new_def)

lemma heap_init_stats:
  assumes "start \<noteq> 0" "40 \<le> unat sz" "unat start + unat sz < 0x1000000000000"
  shows "heap_usage (heap_init start sz (LinkedListAllocator_new, m)) = Some 0"
    "heap_available (heap_init start sz (LinkedListAllocator_new, m)) = Some sz"
    "free_block_count (heap_init start sz (LinkedListAllocator_new, m)) = Some 1"
proof -
  have r: "roomy start" using assms by (simp add: roomy_def)
  define m' where "m' = snd (heap_init start sz (LinkedListAllocator_new, m))"
  have i: "heap_init start sz (LinkedListAllocator_new, m) =
      (\<lparr>free_list = start, heap_start = start, heap_size = sz, heap_initialized = True\<rparr>, m')"
    by (simp add: m'_def heap_init_def Let_def LinkedListAllocator_new_def)
  have b: "is_valid m' start" "hd_size m' start = sz" "hd_free m' start" "hd_next m' start = 0"
    using r by (simp_all add: m'_def heap_init_def Let_def LinkedListAllocator_new_def is_valid_def BlockHeader_new_def hd_reads)
  have "usage_from m' (start + sz) (start + sz) 0 = Some 0" by (subst usage_from.simps) simp
  then show "heap_usage (heap_init start sz (LinkedListAllocator_new, m)) = Some 0"
    unfolding i heap_usage_def using b by (simp add: usage_from.simps [of m' "start + sz" start] block_end_def)
  have "free_from m' 0 x y = Some (x, y)" for x y by (subst free_from.simps) simp
  then have "free_from m' start 0 0 = Some (sz, 1)"
    using b assms(1) by (simp add: free_from.simps [of m' start])
  then show "heap_available (heap_init start sz (LinkedListAllocator_new, m)) = Some sz"
    "free_block_count (heap_init start sz (LinkedListAllocator_new, m)) = Some 1"
    unfolding i by (simp_all add: heap_available_def free_block_count_def)
qed

section \<open>Two blocks freed in order\<close>

text \<open>A list that returns to a block too small for the request is searched for ever.\<close>

lemma find_block_returns:
  "find_block m bs sz a prev c = Some r \<Longrightarrow> c = 0 \<or> hd_next m c \<noteq> c \<or> block_fits m bs sz a c"
  by (rule find_block.raw_induct [where P = "\<lambda>m bs sz a prev c r. c = 0 \<or> hd_next m c \<noteq> c \<or> block_fits m bs sz a c"])
    (fastforce split: if_splits)+

lemma find_block_self_loop:
  assumes "c \<noteq> 0" "hd_next m c = c" "\<not> block_fits m bs sz a c"
  shows "find_block m bs sz a prev c = None"
  using assms find_block_returns [of m bs sz a prev c] by (cases "find_block m bs sz a prev c") auto

lemma total_size_min: "MIN_BLOCK_SIZE \<le> total_size sz"
  by (simp add: total_size_def)

lemma allocate_self_loop:
  assumes "heap_initialized al" "free_list al = c" "c \<noteq> 0" "hd_next m c = c" "hd_size m c < MIN_BLOCK_SIZE" "sz \<noteq> 0"
  shows "allocate sz align (al, m) = Hang"
proof -
  have "\<not> block_fits m (total_size sz) sz (max align BLOCK_ALIGN) c"
    using assms(5) total_size_min [of sz] by (auto simp: block_fits_def)
  then show ?thesis using assms find_block_self_loop by (simp add: allocate_def Let_def)
qed

text \<open>
  Two blocks in use at the start of the heap, without a gap between them, and
  the free block behind them.  Together they are smaller than the smallest block.
\<close>

definition two_blocks :: "LinkedListAllocator \<Rightarrow> memory \<Rightarrow> u64 \<Rightarrow> u64 \<Rightarrow> u64 \<Rightarrow> u64 \<Rightarrow> bool" where
  "two_blocks al m a b sb c \<longleftrightarrow> heap_initialized al \<and> heap_start al = a \<and> free_list al = c \<and> a \<noteq> 0 \<and>
     unat a + 40 < unat b \<and> 40 < unat sb \<and> unat b + unat sb \<le> unat c \<and> unat b + unat sb < unat a + 1024 \<and>
     unat c < unat a + unat (heap_size al) \<and> unat a + unat (heap_size al) < 0x1000000000000 \<and>
     block_is m a (b - a) False 0 \<and> block_is m b sb False 0"

lemma two_blocks_facts:
  assumes "two_blocks al m a b sb c"
  shows "roomy a" "roomy b" "roomy c" "apart a b" "apart b a" "apart a c" "apart c a" "apart b c" "apart c b"
    "c \<noteq> 0" "payload a \<noteq> 0" "payload b \<noteq> 0" "unat (payload a) = unat a + 40" "unat (payload b) = unat b + 40"
    "unat (a + heap_size al) = unat a + unat (heap_size al)" "b - a + sb < MIN_BLOCK_SIZE"
proof -
  show r: "roomy a" "roomy b" "roomy c" "apart a b" "apart b a" "apart a c" "apart c a" "apart b c" "apart c b"
    "c \<noteq> 0" using assms by (auto simp: two_blocks_def roomy_def apart_def)
  show p: "unat (payload a) = unat a + 40" "unat (payload b) = unat b + 40"
    using roomy_unat_add [OF r(1), of 40] roomy_unat_add [OF r(2), of 40] by (simp_all add: payload_def HEADER_SIZE_def)
  show "payload a \<noteq> 0" "payload b \<noteq> 0" using p by auto
  show "unat (a + heap_size al) = unat a + unat (heap_size al)"
    using assms by (simp add: two_blocks_def unat_word_ariths)
  have "unat (b - a) = unat b - unat a" using assms by (subst unat_sub) (simp_all add: two_blocks_def word_le_nat_alt)
  moreover have "unat b - unat a + unat sb < 1024" using assms unfolding two_blocks_def by linarith
  ultimately have "unat (b - a + sb) < 1024" by (simp add: unat_word_ariths(1))
  then show "b - a + sb < MIN_BLOCK_SIZE" by (simp add: MIN_BLOCK_SIZE_def word_less_nat_alt)
qed

lemma free_first:
  assumes "two_blocks al m a b sb c"
  shows "deallocate (payload a) (al, m) =
    Return (al\<lparr>free_list := a\<rparr>, set_hd_prev c a (set_hd_prev a 0 (set_hd_next a c (set_hd_free a True m))))"
proof -
  note f = two_blocks_facts [OF assms]
  have "walk_blocks m (a + heap_size al) (payload a) a = Some (Some a)"
    using assms f by (subst walk_blocks.simps) (auto simp: two_blocks_def block_is_def word_less_nat_alt)
  moreover have "find_prev_block m' a a = Some None" for m' by (subst find_prev_block.simps) simp
  ultimately show ?thesis using assms f
    by (auto simp: deallocate_def Let_def two_blocks_def merge_next_def block_is_def hd_reads)
qed

lemma free_second:
  assumes "two_blocks al m a b sb c"
    and m1: "m1 = set_hd_prev c a (set_hd_prev a 0 (set_hd_next a c (set_hd_free a True m)))"
  obtains m2 where "deallocate (payload b) (al\<lparr>free_list := a\<rparr>, m1) = Return (al\<lparr>free_list := a\<rparr>, m2)"
    "hd_next m2 a = a" "hd_size m2 a = b - a + sb"
proof -
  note f = two_blocks_facts [OF assms(1)]
  have h: "is_valid m1 a" "hd_size m1 a = b - a" "hd_free m1 a" "is_valid m1 b" "hd_size m1 b = sb" "hd_next m1 b = 0"
    using assms f by (simp_all add: two_blocks_def block_is_def is_valid_def hd_reads)
  have "walk_blocks m1 (a + heap_size al) (payload b) b = Some (Some b)"
    using assms(1) f h by (subst walk_blocks.simps) (auto simp: two_blocks_def word_less_nat_alt)
  then have w: "walk_blocks m1 (a + heap_size al) (payload b) a = Some (Some b)"
    using assms(1) f h by (subst walk_blocks.simps) (auto simp: two_blocks_def word_less_nat_alt block_end_def)
  let ?m = "set_hd_free b True m1"
  have p: "find_prev_block ?m b a = Some (Some a)"
    using assms(1) f h by (subst find_prev_block.simps) (auto simp: two_blocks_def word_less_nat_alt block_end_def is_valid_def hd_reads)
  have n: "merge_next b ?m = ?m" using f h by (simp add: merge_next_def hd_reads)
  have "a \<noteq> 0" using assms(1) by (simp add: two_blocks_def)
  show ?thesis
    by (rule that [of "set_hd_prev a a (set_hd_prev a 0 (set_hd_next a a (merge_prev a b ?m)))"])
      (use assms(1) f h w p n in \<open>simp_all add: deallocate_def Let_def two_blocks_def merge_prev_def hd_reads\<close>)
qed

lemmas heap_consts = HEADER_SIZE_def MIN_BLOCK_SIZE_def BLOCK_ALIGN_def

lemma aligned_start_eight:
  assumes "roomy f" "8 dvd unat f"
  shows "aligned_start 8 f = f + 40"
proof -
  let ?p = "unat (aligned_start 8 f)"
  have b: "unat f + 40 \<le> ?p" "?p < unat f + 40 + 8" "8 dvd ?p"
    using aligned_start_bounds [OF assms(1), of 3] by simp_all
  have "8 dvd ?p - (unat f + 40)" using assms(2) b(3) by (intro dvd_diff_nat) (simp_all add: dvd_add)
  moreover have "?p - (unat f + 40) < 8" using b(1,2) by simp
  ultimately have "?p - (unat f + 40) = 0" using nat_dvd_not_less by (metis gr0I)
  then have "?p = unat (f + 40)" using b(1) roomy_unat_add [OF assms(1), of 40] by simp
  then show ?thesis by (simp only: word_unat_eq_iff)
qed

text \<open>The addresses that the mask of \<open>new_block_at\<close> does not move, which are multiples of eight.\<close>

lemma new_block_at_fixed:
  assumes "and e 39 = 0"
  shows "new_block_at e = e" "8 dvd unat e"
proof -
  have "\<not> bit e j \<or> \<not> bit (39 :: u64) j" for j
    using arg_cong [OF assms, of "\<lambda>w. bit w j"] by (metis bit_0 bit_and_iff bit_0_eq bot_apply bot_bool_def)
  then have "e + 39 = or e 39" by (rule disjunctive_add)
  moreover have "and (or e 39) (not 39) = and e (not 39)" by (rule bit_eqI) (auto simp: bit_simps)
  moreover have "and e (not 39) = e" using assms unat_and_not [of e 39] by (simp add: word_unat_eq_iff)
  ultimately show "new_block_at e = e" by (simp add: new_block_at_def HEADER_SIZE_def ac_simps)
  have "and e 7 = and (and e 39) 7" by (simp add: and.assoc)
  also have "\<dots> = 0" using assms by simp
  finally have "take_bit 3 e = 0" by (simp add: take_bit_eq_mask mask_eq_exp_minus_1)
  then have "take_bit 3 (unat e) = 0" by (metis unsigned_take_bit_eq unsigned_0)
  then show "8 dvd unat e" by (simp add: take_bit_eq_mod dvd_eq_mod_eq_0)
qed

lemma allocate_small:
  assumes al: "heap_initialized al" "free_list al = f" "f \<noteq> 0" and z: "block_is m f z True 0"
    and n: "unat f + unat z < 0x1000000000000" "unat s + 2048 \<le> unat z" "unat s < 1024" "s \<noteq> 0" "8 dvd unat f"
    and e: "e = new_block_at (f + 40 + s)"
  obtains m' where "allocate s 8 (al, m) = Return ((al\<lparr>free_list := e\<rparr>, m'), f + 40)"
    "unat f + 40 + unat s \<le> unat e" "unat e \<le> unat f + 79 + unat s"
    "block_is m' f (40 + s) False 0" "block_is m' e (f + z - e) True 0" "\<And>i. i < unat f \<Longrightarrow> m' i = m i"
proof -
  have r: "roomy f" using n(1) by (simp add: roomy_def)
  have u: "unat (40 + s) = 40 + unat s" using n(3) by (simp add: unat_word_ariths(1))
  have fe: "f + (40 + s) = f + 40 + s" by (simp add: ac_simps)
  have fs: "unat (f + 40 + s) = unat f + 40 + unat s"
    using roomy_unat_add [OF r, of "40 + s"] u n(3) unfolding fe by simp
  then have "roomy (f + 40 + s)" using n(1,2) by (simp add: roomy_def)
  from new_block_at_bounds [OF this] fs have b: "unat f + 40 + unat s \<le> unat e" "unat e \<le> unat f + 79 + unat s"
    by (simp_all add: e)
  have s0: "0 < unat s" using n(4) by (simp add: unat_gt_0)
  have a: "apart f e" using b r n(1,2) by (simp add: apart_def roomy_def)
  have fz: "unat (f + z) = unat f + unat z" using n(1) by (simp add: unat_word_ariths(1))
  have rest: "unat (f + z - e) = unat f + unat z - unat e"
    using b n(2) fz by (subst unat_sub) (simp_all add: word_le_nat_alt)
  have st: "aligned_start (max 8 BLOCK_ALIGN) f = f + 40" using aligned_start_eight [OF r n(5)] by (simp add: BLOCK_ALIGN_def)
  have hz: "hd_size m f = z" using block_is_facts(2) [OF z] .
  have k: "unat (1024 :: u64) = 1024" by simp
  have "s + 40 \<le> z" "1024 \<le> z"
    unfolding word_le_nat_alt add.commute [of s 40] u k using n(2,3) by linarith+
  then have "total_size s \<le> z" "40 + s \<le> z" by (simp_all add: total_size_def heap_consts add.commute)
  then have fits: "block_fits m (total_size s) s (max 8 BLOCK_ALIGN) f"
    unfolding block_fits_def st Let_def using block_is_facts [OF z] by simp
  have split: "MIN_BLOCK_SIZE \<le> (f + hd_size m f) - e"
    using b n(2) rest unfolding hz MIN_BLOCK_SIZE_def word_le_nat_alt by simp
  have "unat (z - (40 + s)) = unat z - (40 + unat s)"
    using u n(2) by (subst unat_sub) (simp_all add: word_le_nat_alt)
  then have rem: "MIN_BLOCK_SIZE \<le> z - 40 - s" using n(2) by (simp add: MIN_BLOCK_SIZE_def word_le_nat_alt diff_diff_eq)
  obtain m' where m': "split_block f 40 s (unlink_block 0 f (al, m)) = (al\<lparr>free_list := e\<rparr>, m')"
    "block_is m' f (40 + s) False 0" "block_is m' e (f + z - e) True 0"
    "\<And>i. i < unat f \<or> unat f + 40 \<le> i \<Longrightarrow> i < unat e \<or> unat e + 40 \<le> i \<Longrightarrow> m' i = m i"
    using split_head [OF r a e block_is_facts(1) [OF z] split, where al = al] unfolding hz by metis
  have "allocate s 8 (al, m) = Return ((al\<lparr>free_list := e\<rparr>, m'), f + 40)"
    using al fits st m'(1) rem hz n(4) by (subst allocate_head [where f = f]) (simp_all add: Let_def)
  moreover have "m' i = m i" if "i < unat f" for i using that m'(4) b by simp
  ultimately show ?thesis using m'(2,3) b by (intro that [of m']) simp_all
qed

text \<open>
  A fresh heap and two small requests of alignment 8, such that rounding leaves
  no gap behind the first block.
\<close>

definition neighbours :: "u64 \<Rightarrow> u64 \<Rightarrow> u64 \<Rightarrow> u64 \<Rightarrow> bool" where
  "neighbours start n s1 s2 \<longleftrightarrow> start \<noteq> 0 \<and> 8 dvd unat start \<and> unat start + unat n < 0x1000000000000 \<and>
     s1 \<noteq> 0 \<and> s2 \<noteq> 0 \<and> unat s1 + unat s2 + 80 < 1024 \<and> unat s1 + unat s2 + 2200 \<le> unat n \<and>
     and (start + 40 + s1) 39 = 0"

lemma neighbours_two:
  assumes "neighbours start n s1 s2"
  obtains al1 m1 al2 m2 c where
    "allocate s1 8 (heap_init start n (LinkedListAllocator_new, m)) = Return ((al1, m1), start + 40)"
    "allocate s2 8 (al1, m1) = Return ((al2, m2), start + 80 + s1)"
    "two_blocks al2 m2 start (start + 40 + s1) (40 + s2) c"
proof -
  let ?b = "start + 40 + s1"
  note h = assms [unfolded neighbours_def]
  have r: "roomy start" using h by (simp add: roomy_def)
  have u: "unat (40 + s1) = 40 + unat s1" "unat (40 + s2) = 40 + unat s2" using h by (simp_all add: unat_word_ariths(1))
  have be: "start + (40 + s1) = ?b" by (simp add: ac_simps)
  have b: "unat ?b = unat start + 40 + unat s1" using roomy_unat_add [OF r, of "40 + s1"] u h unfolding be by simp
  have b0: "?b \<noteq> 0" using b by (auto simp: word_unat_eq_iff)
  have fixed: "new_block_at ?b = ?b" "8 dvd unat ?b" using new_block_at_fixed h by auto
  define al where "al = \<lparr>free_list = start, heap_start = start, heap_size = n, heap_initialized = True\<rparr>"
  obtain m0 where i: "heap_init start n (LinkedListAllocator_new, m) = (al, m0)" "block_is m0 start n True 0"
    by (rule that [of "snd (heap_init start n (LinkedListAllocator_new, m))"])
      (simp_all add: al_def heap_init_def Let_def LinkedListAllocator_new_def block_is_def is_valid_def
        BlockHeader_new_def hd_reads r)
  obtain m1 where m1: "allocate s1 8 (al, m0) = Return ((al\<lparr>free_list := ?b\<rparr>, m1), start + 40)"
    "block_is m1 start (40 + s1) False 0" "block_is m1 ?b (start + n - ?b) True 0"
    using allocate_small [of al start m0 n s1 ?b] i(2) h fixed by (auto simp: al_def)
  have z: "unat (start + n - ?b) = unat start + unat n - unat ?b"
    using b h by (subst unat_sub) (simp_all add: word_le_nat_alt unat_word_ariths(1))
  define c where "c = new_block_at (?b + 40 + s2)"
  obtain m2 where m2: "allocate s2 8 (al\<lparr>free_list := ?b\<rparr>, m1) = Return ((al\<lparr>free_list := c\<rparr>, m2), ?b + 40)"
    "unat ?b + 40 + unat s2 \<le> unat c" "unat c \<le> unat ?b + 79 + unat s2"
    "block_is m2 ?b (40 + s2) False 0" "\<And>i. i < unat ?b \<Longrightarrow> m2 i = m1 i"
  proof (rule allocate_small [where al = "al\<lparr>free_list := ?b\<rparr>", OF _ _ b0 m1(3) _ _ _ _ fixed(2) c_def])
    show "unat ?b + unat (start + n - ?b) < 0x1000000000000" "unat s2 + 2048 \<le> unat (start + n - ?b)"
      using z b h by auto
  qed (use h in \<open>simp_all add: al_def\<close>)
  have "block_is m2 start (40 + s1) False 0" by (rule block_is_frame [OF m1(2) r]) (use m2(5) b in simp)
  moreover have "?b - start = 40 + s1" by simp
  ultimately have "two_blocks (al\<lparr>free_list := c\<rparr>) m2 start ?b (40 + s2) c"
    using m2(2-4) b u h by (auto simp: two_blocks_def al_def unat_gt_0)
  moreover have "?b + 40 = start + 80 + s1" by simp
  ultimately show ?thesis using i(1) m1(1) m2(1) by (intro that) (simp_all only:)
qed

text \<open>
  Claim C9 (heap freed in order): take any fresh heap, whatever the memory held
  before, and two requests of alignment 8 for less than 944 bytes together,
  the first such that rounding leaves no gap behind its block.  The two blocks
  are allocated next to each other and then freed in the same order.  Every
  step returns, but the second \<open>deallocate\<close> merges its block into the first,
  which is on the free list already, and puts it there again: its successor is
  itself, and every later request for a nonempty block searches the list for
  ever.  Sizes and alignments of $10^{16}$ and more are left out, because the
  source may stop in its debug print of them before it searches.
\<close>

theorem heap_freed_in_order_hangs:
  assumes "neighbours start n s1 s2"
  shows "\<exists>h1 h2 h3 h4.
     allocate s1 8 (heap_init start n (LinkedListAllocator_new, m)) = Return (h1, start + 40) \<and>
     allocate s2 8 h1 = Return (h2, start + 80 + s1) \<and>
     deallocate (start + 40) h2 = Return h3 \<and> deallocate (start + 80 + s1) h3 = Return h4 \<and>
     (\<forall>sz align. sz \<noteq> 0 \<and> unat sz < 10 ^ 16 \<and> unat align < 10 ^ 16 \<longrightarrow> allocate sz align h4 = Hang)"
proof -
  let ?b = "start + 40 + s1"
  obtain al1 m1 al2 m2 c where a:
    "allocate s1 8 (heap_init start n (LinkedListAllocator_new, m)) = Return ((al1, m1), start + 40)"
    "allocate s2 8 (al1, m1) = Return ((al2, m2), start + 80 + s1)" "two_blocks al2 m2 start ?b (40 + s2) c"
    by (rule neighbours_two [OF assms])
  define m3 where "m3 = set_hd_prev c start (set_hd_prev start 0 (set_hd_next start c (set_hd_free start True m2)))"
  note d1 = free_first [OF a(3), folded m3_def]
  obtain m4 where d2: "deallocate (payload ?b) (al2\<lparr>free_list := start\<rparr>, m3) = Return (al2\<lparr>free_list := start\<rparr>, m4)"
    "hd_next m4 start = start" "hd_size m4 start = ?b - start + (40 + s2)"
    by (rule free_second [OF a(3) m3_def])
  have "hd_size m4 start < MIN_BLOCK_SIZE" using d2(3) two_blocks_facts(16) [OF a(3)] by (simp only:)
  then have "allocate sz align (al2\<lparr>free_list := start\<rparr>, m4) = Hang" if "sz \<noteq> 0" for sz align
    using a(3) d2(2) that by (intro allocate_self_loop) (simp_all add: two_blocks_def)
  moreover have "payload ?b = start + 80 + s1" "payload start = start + 40" by (simp_all add: payload_def HEADER_SIZE_def)
  ultimately show ?thesis using a(1,2) d1 d2(1) by auto
qed

theorem heap_freed_in_order_hangs_witness:
  "\<exists>h1 h2 h3 h4.
     allocate 24 8 (heap_init 0x100000 0x10000 (LinkedListAllocator_new, \<lambda>a. 0)) = Return (h1, 0x100028) \<and>
     allocate 100 8 h1 = Return (h2, 0x100068) \<and>
     deallocate 0x100028 h2 = Return h3 \<and> deallocate 0x100068 h3 = Return h4 \<and> allocate 1 1 h4 = Hang"
proof -
  have "neighbours 0x100000 0x10000 24 100" by (simp add: neighbours_def)
  from heap_freed_in_order_hangs [OF this, of "\<lambda>a. 0"] obtain h1 h2 h3 h4 where
    h: "allocate 24 8 (heap_init 0x100000 0x10000 (LinkedListAllocator_new, \<lambda>a. 0)) = Return (h1, 0x100028)"
      "allocate 100 8 h1 = Return (h2, 0x100068)" "deallocate 0x100028 h2 = Return h3" "deallocate 0x100068 h3 = Return h4"
      "\<forall>sz align. sz \<noteq> 0 \<and> unat sz < 10 ^ 16 \<and> unat align < 10 ^ 16 \<longrightarrow> allocate sz align h4 = Hang" by auto
  have "allocate 1 1 h4 = Hang" by (rule h(5) [rule_format]) simp
  with h(1-4) show ?thesis by blast
qed

end
