(* ===== verification/Channels.thy ===== *)
theory Channels
  imports Handles Sync
begin

text \<open>
  Kernel channels (\<open>object/channel.rs\<close>): an endpoint with its queue of
  messages, the events that tell readers and writers of it, and the creation of
  a pair; with the part of the event object (\<open>object/event.rs\<close>) they use.
  Reading and writing clone the handles of a message, which allocates handle
  ids.  The laws show that a run of calls on a pair behaves as two queues.
\<close>

section \<open>Event objects\<close>

text \<open>The counters for identifiers are global variables of the kernel.\<close>

record cworld =
  hw :: hworld
  next_channel_id :: u64
  next_event_id :: u64

record EventObject =
  eo_base :: KernelObjectBase
  eo_id :: u64
  eo_signaled :: bool
  eo_flags :: u32
  eo_waiters :: WaitQueue

definition EventObject_new :: "cworld \<Rightarrow> bool \<Rightarrow> u32 \<Rightarrow> cworld \<times> EventObject" where
  "EventObject_new w signaled flags =
     (w\<lparr>next_event_id := next_event_id w + 1\<rparr>,
      \<lparr>eo_base = KernelObjectBase_new EventT, eo_id = next_event_id w, eo_signaled = signaled,
       eo_flags = flags, eo_waiters = WaitQueue_new\<rparr>)"

definition eo_signal :: "EventObject \<Rightarrow> EventObject outcome" where
  "eo_signal e = outcome_bind (wake_all (eo_waiters e)) (\<lambda>(q, n).
     Return (e\<lparr>eo_signaled := True, eo_waiters := q\<rparr>))"

definition eo_unsignal :: "EventObject \<Rightarrow> EventObject" where
  "eo_unsignal e = e\<lparr>eo_signaled := False\<rparr>"

section \<open>Channels\<close>

record Message =
  msg_data :: "u8 list"
  msg_handles :: "Handle list"

datatype ChannelState = ChActive | ChPeerClosed | ChClosed

record Channel =
  ch_base :: KernelObjectBase
  ch_id :: u64
  ch_peer :: "u64 option"
  ch_queue :: "Message list"
  max_queue_bytes :: u64
  queue_size :: u64
  read_event :: EventObject
  write_event :: EventObject
  ch_state :: ChannelState

definition Channel_new :: "cworld \<Rightarrow> u64 \<Rightarrow> u64 \<Rightarrow> cworld \<times> Channel" where
  "Channel_new w i mx =
     (let (w1, re) = EventObject_new w False 0; (w2, we) = EventObject_new w1 True 0
      in (w2, \<lparr>ch_base = KernelObjectBase_new ChannelT, ch_id = i, ch_peer = None, ch_queue = [],
               max_queue_bytes = mx, queue_size = 0, read_event = re, write_event = we, ch_state = ChActive\<rparr>))"

definition Channel_create :: "cworld \<Rightarrow> cworld \<times> Channel \<times> Channel" where
  "Channel_create w =
     (let id_a = next_channel_id w; id_b = next_channel_id w + 1;
          mx = 256 * 1024;
          (w1, a) = Channel_new (w\<lparr>next_channel_id := next_channel_id w + 2\<rparr>) id_a mx;
          (w2, b) = Channel_new w1 id_b mx
      in (w2, a\<lparr>ch_peer := Some id_b\<rparr>, b\<lparr>ch_peer := Some id_a\<rparr>))"

text \<open>\<open>to_vec\<close> and the copy loop of \<open>read\<close> clone handle by handle.\<close>

fun clone_handles :: "hworld \<Rightarrow> Handle list \<Rightarrow> hworld \<times> Handle list" where
  "clone_handles w [] = (w, [])"
| "clone_handles w (h # hs) =
     (let (w1, h') = Handle_clone w h; (w2, hs') = clone_handles w1 hs in (w2, h' # hs'))"

definition Channel_write :: "cworld \<Rightarrow> Channel \<Rightarrow> u8 list \<Rightarrow> Handle list \<Rightarrow> (cworld \<times> Channel \<times> u64 result) outcome" where
  "Channel_write w ch data handles =
     (if ch_state ch \<noteq> ChActive then Return (w, ch, Inl ''channel not active'')
      else if length data > 64 * 1024 then Return (w, ch, Inl ''message too large'')
      else if length handles > 64 then Return (w, ch, Inl ''too many handles'')
      else let msg_size = of_nat (length data) in
        if queue_size ch + msg_size > max_queue_bytes ch then Return (w, ch, Inl ''channel full'')
        else let (hw', msg_handles) = clone_handles (hw w) handles;
                 ch1 = ch\<lparr>ch_queue := ch_queue ch @ [\<lparr>msg_data = data, msg_handles = msg_handles\<rparr>],
                          queue_size := queue_size ch + msg_size\<rparr>
             in outcome_bind (eo_signal (read_event ch1)) (\<lambda>e.
                  Return (w\<lparr>hw := hw'\<rparr>, ch1\<lparr>read_event := e\<rparr>, Inr msg_size)))"

text \<open>The result of a read: the two buffers, and how many bytes and handles were copied into them.\<close>

definition Channel_read :: "cworld \<Rightarrow> Channel \<Rightarrow> u8 list \<Rightarrow> Handle list \<Rightarrow>
    (cworld \<times> Channel \<times> (u8 list \<times> Handle list \<times> nat \<times> nat) result) outcome" where
  "Channel_read w ch buf handle_buf =
     (case ch_queue ch of
        [] \<Rightarrow> Return (w, ch, Inl (if ch_state ch = ChPeerClosed then ''peer closed'' else ''no messages''))
      | msg # rest \<Rightarrow>
          let ch1 = ch\<lparr>ch_queue := rest, queue_size := queue_size ch - of_nat (length (msg_data msg))\<rparr>;
              bytes_to_copy = min (length buf) (length (msg_data msg));
              handles_to_copy = min (length handle_buf) (length (msg_handles msg));
              (hw', hs) = clone_handles (hw w) (take handles_to_copy (msg_handles msg))
          in outcome_bind (eo_signal (write_event ch1)) (\<lambda>e.
               Return (w\<lparr>hw := hw'\<rparr>, ch1\<lparr>write_event := e\<rparr>,
                 Inr (take bytes_to_copy (msg_data msg) @ drop bytes_to_copy buf,
                      hs @ drop handles_to_copy handle_buf, bytes_to_copy, handles_to_copy))))"

definition Channel_close :: "Channel \<Rightarrow> (Channel \<times> bool) outcome" where
  "Channel_close ch =
     outcome_bind (eo_signal (read_event ch)) (\<lambda>e.
       let (b, last) = base_ref_dec (ch_base ch)
       in Return (ch\<lparr>ch_state := ChClosed, read_event := e, ch_base := b\<rparr>, last))"

section \<open>The calls on a pair, in any order\<close>

datatype side = EndA | EndB

datatype chan_op = Write "u8 list" "Handle list" | Read "u8 list" "Handle list" | Close | Readable

text \<open>A handle is seen by the object it refers to and its rights; its id is new at every clone.\<close>

type_synonym hview = "u64 \<times> rights"

definition handle_view :: "Handle \<Rightarrow> hview" where
  "handle_view h = (h_base h, h_rights h)"

datatype chan_out = Wrote "u64 result" | Got "(u8 list \<times> hview list \<times> nat \<times> nat) result" | ClosedLast bool | IsReadable bool

fun channel_step :: "cworld \<Rightarrow> Channel \<Rightarrow> chan_op \<Rightarrow> (cworld \<times> Channel \<times> chan_out) outcome" where
  "channel_step w ch (Write d hs) =
     outcome_bind (Channel_write w ch d hs) (\<lambda>(w', ch', r). Return (w', ch', Wrote r))"
| "channel_step w ch (Read buf hbuf) =
     outcome_bind (Channel_read w ch buf hbuf) (\<lambda>(w', ch', r).
       Return (w', ch', Got (map_sum id (\<lambda>(b, hs, n, k). (b, map handle_view hs, n, k)) r)))"
| "channel_step w ch Close = outcome_bind (Channel_close ch) (\<lambda>(ch', l). Return (w, ch', ClosedLast l))"
| "channel_step w ch Readable = Return (w, ch, IsReadable (eo_signaled (read_event ch)))"

fun channel_run :: "cworld \<Rightarrow> Channel \<Rightarrow> Channel \<Rightarrow> (side \<times> chan_op) list \<Rightarrow>
    (cworld \<times> Channel \<times> Channel \<times> chan_out list) outcome" where
  "channel_run w a b [] = Return (w, a, b, [])"
| "channel_run w a b ((EndA, x) # ops) =
     outcome_bind (channel_step w a x) (\<lambda>(w', a', r).
     outcome_bind (channel_run w' a' b ops) (\<lambda>(w2, a2, b2, rs). Return (w2, a2, b2, r # rs)))"
| "channel_run w a b ((EndB, x) # ops) =
     outcome_bind (channel_step w b x) (\<lambda>(w', b', r).
     outcome_bind (channel_run w' a b' ops) (\<lambda>(w2, a2, b2, rs). Return (w2, a2, b2, r # rs)))"

text \<open>
  The reference: an endpoint is a queue of its own messages, of at most 256 KB
  of data, which takes no more once it is closed and reads as readable from the
  first message or the close on.
\<close>

record endpoint =
  ep_open :: bool
  ep_msgs :: "(u8 list \<times> hview list) list"
  ep_readable :: bool
  ep_refs :: u64

definition fresh_endpoint :: endpoint where
  "fresh_endpoint = \<lparr>ep_open = True, ep_msgs = [], ep_readable = False, ep_refs = 1\<rparr>"

definition ep_bytes :: "endpoint \<Rightarrow> nat" where
  "ep_bytes e = sum_list (map (length \<circ> fst) (ep_msgs e))"

definition overlay :: "'a list \<Rightarrow> 'a list \<Rightarrow> 'a list" where
  "overlay xs buf = take (length buf) xs @ drop (length xs) buf"

fun endpoint_step :: "endpoint \<Rightarrow> chan_op \<Rightarrow> endpoint \<times> chan_out" where
  "endpoint_step e (Write d hs) =
     (if \<not> ep_open e then (e, Wrote (Inl ''channel not active''))
      else if length d > 65536 then (e, Wrote (Inl ''message too large''))
      else if length hs > 64 then (e, Wrote (Inl ''too many handles''))
      else if ep_bytes e + length d > 262144 then (e, Wrote (Inl ''channel full''))
      else (e\<lparr>ep_msgs := ep_msgs e @ [(d, map handle_view hs)], ep_readable := True\<rparr>, Wrote (Inr (of_nat (length d)))))"
| "endpoint_step e (Read buf hbuf) =
     (case ep_msgs e of [] \<Rightarrow> (e, Got (Inl ''no messages''))
      | (d, hs) # ms \<Rightarrow> (e\<lparr>ep_msgs := ms\<rparr>,
          Got (Inr (overlay d buf, overlay hs (map handle_view hbuf), min (length buf) (length d), min (length hbuf) (length hs)))))"
| "endpoint_step e Close = (e\<lparr>ep_open := False, ep_readable := True, ep_refs := ep_refs e - 1\<rparr>, ClosedLast (ep_refs e = 1))"
| "endpoint_step e Readable = (e, IsReadable (ep_readable e))"

fun endpoints_run :: "endpoint \<Rightarrow> endpoint \<Rightarrow> (side \<times> chan_op) list \<Rightarrow> endpoint \<times> endpoint \<times> chan_out list" where
  "endpoints_run a b [] = (a, b, [])"
| "endpoints_run a b ((EndA, x) # ops) =
     (let (a', r) = endpoint_step a x; (a2, b2, rs) = endpoints_run a' b ops in (a2, b2, r # rs))"
| "endpoints_run a b ((EndB, x) # ops) =
     (let (b', r) = endpoint_step b x; (a2, b2, rs) = endpoints_run a b' ops in (a2, b2, r # rs))"

section \<open>The refinement\<close>

definition message_view :: "Message \<Rightarrow> u8 list \<times> hview list" where
  "message_view g = (msg_data g, map handle_view (msg_handles g))"

definition endpoint_is :: "Channel \<Rightarrow> endpoint \<Rightarrow> bool" where
  "endpoint_is ch e \<longleftrightarrow> ch_state ch = (if ep_open e then ChActive else ChClosed) \<and>
     map message_view (ch_queue ch) = ep_msgs e \<and> max_queue_bytes ch = 262144 \<and>
     queue_size ch = of_nat (ep_bytes e) \<and> ep_bytes e \<le> 262144 \<and>
     eo_waiters (read_event ch) = WaitQueue_new \<and> eo_waiters (write_event ch) = WaitQueue_new \<and>
     eo_signaled (read_event ch) = ep_readable e \<and> ref_count (ch_base ch) = ep_refs e"

lemma wake_all_new: "wake_all WaitQueue_new = Return (WaitQueue_new, 0)"
  by (simp add: wake_all_def wq_validate_def WaitQueue_new_def WaitQueueInner_new_def pop_front_def)

lemma eo_signal_new: "eo_waiters e = WaitQueue_new \<Longrightarrow> eo_signal e = Return (e\<lparr>eo_signaled := True\<rparr>)"
  by (cases e) (simp add: eo_signal_def wake_all_new)

lemma clone_handles_view: "map handle_view (snd (clone_handles w hs)) = map handle_view hs"
  by (induction w hs rule: clone_handles.induct)
    (auto simp: Handle_clone_def handle_view_def alloc_handle_id_def split: prod.splits)

lemma write_refines:
  assumes "endpoint_is ch e"
  shows "\<exists>w' ch'. Channel_write w ch d hs = Return (w', ch', (case snd (endpoint_step e (Write d hs)) of Wrote r \<Rightarrow> r)) \<and>
    endpoint_is ch' (fst (endpoint_step e (Write d hs)))"
proof (cases "ep_open e \<and> length d \<le> 65536 \<and> length hs \<le> 64")
  case ok: True
  have lt: "unat (of_nat (ep_bytes e) + of_nat (length d) :: u64) = ep_bytes e + length d"
  proof -
    have "ep_bytes e + length d < 2 ^ 64" using assms ok by (simp add: endpoint_is_def)
    then have "unat (of_nat (ep_bytes e + length d) :: u64) = ep_bytes e + length d"
      by (simp only: unsigned_of_nat) (simp add: take_bit_nat_eq_self)
    then show ?thesis by simp
  qed
  show ?thesis
    using assms ok lt clone_handles_view [of "hw w" hs]
    by (auto simp: Channel_write_def endpoint_is_def Let_def eo_signal_new word_less_nat_alt
      message_view_def ep_bytes_def split: prod.splits)
qed (use assms in \<open>auto simp: Channel_write_def endpoint_is_def\<close>)

lemma overlay_min:
  "take (min (length buf) (length xs)) xs @ drop (min (length buf) (length xs)) buf = overlay xs buf"
  by (auto simp: overlay_def min_def)

lemma read_refines:
  assumes "endpoint_is ch e"
  shows "\<exists>w' ch'. channel_step w ch (Read buf hbuf) = Return (w', ch', snd (endpoint_step e (Read buf hbuf))) \<and>
    endpoint_is ch' (fst (endpoint_step e (Read buf hbuf)))"
proof (cases "ch_queue ch")
  case Nil
  then show ?thesis using assms by (auto simp: Channel_read_def endpoint_is_def)
next
  case (Cons g gs)
  let ?k = "min (length hbuf) (length (msg_handles g))"
  obtain hw' hs where c: "clone_handles (hw w) (take ?k (msg_handles g)) = (hw', hs)" by fastforce
  have ms: "ep_msgs e = message_view g # map message_view gs" using assms Cons by (auto simp: endpoint_is_def)
  then have bytes: "ep_bytes e = length (msg_data g) + ep_bytes (e\<lparr>ep_msgs := map message_view gs\<rparr>)"
    by (simp add: ep_bytes_def message_view_def)
  have hs: "map handle_view hs @ drop ?k (map handle_view hbuf) = overlay (map handle_view (msg_handles g)) (map handle_view hbuf)"
    using clone_handles_view [of "hw w" "take ?k (msg_handles g)"] c
      overlay_min [of "map handle_view hbuf" "map handle_view (msg_handles g)"] by (simp add: take_map)
  show ?thesis
    using assms Cons c ms bytes hs overlay_min [of buf "msg_data g"]
    by (auto simp: Channel_read_def endpoint_is_def Let_def eo_signal_new message_view_def drop_map)
qed

lemma step_refines:
  assumes "endpoint_is ch e"
  shows "\<exists>w' ch'. channel_step w ch x = Return (w', ch', snd (endpoint_step e x)) \<and> endpoint_is ch' (fst (endpoint_step e x))"
proof (cases x)
  case (Write d hs)
  from write_refines [OF assms, of w d hs] show ?thesis
    unfolding Write by (auto split: if_splits)
next
  case (Read buf hbuf)
  then show ?thesis using read_refines [OF assms] by simp
next
  case Close
  then show ?thesis using assms by (auto simp: Channel_close_def endpoint_is_def eo_signal_new base_ref_dec_def ep_bytes_def Let_def)
next
  case Readable
  then show ?thesis using assms by (auto simp: endpoint_is_def)
qed

lemma run_refines_endpoints:
  "endpoint_is a ea \<Longrightarrow> endpoint_is b eb \<Longrightarrow> endpoints_run ea eb ops = (ea', eb', outs) \<Longrightarrow>
   \<exists>w' a' b'. channel_run w a b ops = Return (w', a', b', outs) \<and> endpoint_is a' ea' \<and> endpoint_is b' eb'"
proof (induction ea eb ops arbitrary: w a b ea' eb' outs rule: endpoints_run.induct)
  case (1 ea eb)
  then show ?case by auto
next
  case (2 ea eb x ops)
  obtain w1 a1 where s: "channel_step w a x = Return (w1, a1, snd (endpoint_step ea x))" "endpoint_is a1 (fst (endpoint_step ea x))"
    using step_refines [OF 2(2)] by blast
  obtain ea2 eb2 rs where r: "endpoints_run (fst (endpoint_step ea x)) eb ops = (ea2, eb2, rs)" by (cases "endpoints_run (fst (endpoint_step ea x)) eb ops")
  from 2(1) [OF refl prod.collapse s(2) 2(3) r, of w1] s(1) r 2(4) show ?case by (auto split: prod.splits)
next
  case (3 ea eb x ops)
  obtain w1 b1 where s: "channel_step w b x = Return (w1, b1, snd (endpoint_step eb x))" "endpoint_is b1 (fst (endpoint_step eb x))"
    using step_refines [OF 3(3)] by blast
  obtain ea2 eb2 rs where r: "endpoints_run ea (fst (endpoint_step eb x)) ops = (ea2, eb2, rs)" by (cases "endpoints_run ea (fst (endpoint_step eb x)) ops")
  from 3(1) [OF refl prod.collapse 3(2) s(2) r, of w1] s(1) r 3(4) show ?case by (auto split: prod.splits)
qed

lemma create_endpoints:
  assumes "Channel_create w = (w1, a, b)"
  shows "endpoint_is a fresh_endpoint" "endpoint_is b fresh_endpoint" "ch_peer a = Some (ch_id b)" "ch_peer b = Some (ch_id a)"
  using assms by (auto simp: Channel_create_def Channel_new_def EventObject_new_def Let_def endpoint_is_def
    fresh_endpoint_def ep_bytes_def KernelObjectBase_new_def)

text \<open>
  Claim C22 (channels as queues): every sequence of writes, reads, closes and
  tests on the two endpoints of a new pair, in any interleaving, returns, and
  its results are those of two separate queues: an endpoint reads back, in
  order, truncated to the buffers of the reader, the data and the handles (the
  object and the rights) that were written to that same endpoint.  A write is
  refused once the endpoint is closed, over the limits on bytes and handles, or
  over 256 KB queued.  What one endpoint writes never reaches its peer, and an
  endpoint that was readable once stays so.  The byte counts stay exact.
\<close>

theorem channel_pair_refines_queues:
  "case Channel_create w of (w1, a, b) \<Rightarrow> case endpoints_run fresh_endpoint fresh_endpoint ops of (ea, eb, outs) \<Rightarrow>
     \<exists>w' a' b'. channel_run w1 a b ops = Return (w', a', b', outs) \<and>
       map message_view (ch_queue a') = ep_msgs ea \<and> map message_view (ch_queue b') = ep_msgs eb \<and>
       unat (queue_size a') = ep_bytes ea \<and> unat (queue_size b') = ep_bytes eb \<and>
       ep_bytes ea \<le> 262144 \<and> ep_bytes eb \<le> 262144"
proof -
  obtain w1 a b where c: "Channel_create w = (w1, a, b)" by (cases "Channel_create w")
  obtain ea eb outs where r: "endpoints_run fresh_endpoint fresh_endpoint ops = (ea, eb, outs)"
    by (cases "endpoints_run fresh_endpoint fresh_endpoint ops")
  obtain w' a' b' where f: "channel_run w1 a b ops = Return (w', a', b', outs)" "endpoint_is a' ea" "endpoint_is b' eb"
    using run_refines_endpoints [OF create_endpoints(1,2) [OF c] r] by blast
  have "unat (of_nat (ep_bytes x) :: u64) = ep_bytes x" if "ep_bytes x \<le> 262144" for x
    using that by (simp only: unsigned_of_nat) (simp add: take_bit_nat_eq_self)
  with f show ?thesis unfolding c r by (auto simp: endpoint_is_def)
qed

end
