(* ===== verification/Spec2Isabelle.thy ===== *)
theory Spec2Isabelle
  imports Handles Run_Queue Sched Sync Process_Table Ps2_Controller Syscall_Spawn Heap_Laws Channels
begin

text \<open>
  \<^bold>\<open>A model of the Rustux kernel.\<close>

  Rustux is a kernel for 64-bit Intel machines.  At boot it divides memory into
  zones of pages, sets up a heap, the display and the keyboard, unpacks a
  ramdisk that the build script has embedded, and loads an executable from it
  as the first process.  Processes call the kernel through one dispatcher,
  which works on the process table, the descriptor tables, the ramdisk, the
  memory objects and the page tables.  Objects are shared through handles that
  carry rights.

  \<^bold>\<open>Conventions.\<close>
  A structure is a record, an enumeration a datatype, a function a definition
  that takes the state it changes and returns it.  Machine integers are words
  of their width (\<open>u8\<close>, \<open>u16\<close>, \<open>u32\<close>, \<open>u64\<close>) and wrap as in a release build;
  indices and lengths that the code keeps in range are natural numbers, and the
  wrap is written out where it can happen.  An error is the left summand of
  \<open>'a result\<close>; a computation that may panic or not return has the type
  \<open>'a outcome\<close> with the values \<open>Return\<close>, \<open>Panic\<close> and \<open>Hang\<close>.  Physical memory is
  a function from addresses to bytes.  Debug output is left out, except where
  it panics on ordinary inputs (\<open>load_elf\<close>) and in the system calls that exist to print.

  \<^bold>\<open>Shared theories.\<close>
  \<^item> \<open>Prelude\<close>: integer and result types, searches in arrays of slots, ring
    indices, rounding of words.
  \<^item> \<open>Interfaces\<close>: the locales \<open>slot_table\<close>, \<open>bounded_fifo\<close> and \<open>page_source\<close>.
    They are interpreted in \<open>Handles\<close> and \<open>Fd_Table\<close>, in \<open>Run_Queue\<close> and
    \<open>Keyboard\<close>, and in \<open>Pmm\<close>; the contract theorems of those components rest
    on the lemmas of the locales.
  \<^item> \<open>Bytes\<close>: little-endian fields, windows of an image, byte memory.

  \<^bold>\<open>Components\<close> (paths below \<open>src/src/\<close>).
  \<^item> \<open>Handles\<close> (\<open>object/handle.rs\<close>): rights, object types, reference counts, the
    handle table.  Rights never grow along any run of table operations; the
    references held by the table are accounted for; the table is a slot table.
  \<^item> \<open>Pmm\<close> (\<open>mm/pmm.rs\<close> and the layout of \<open>init.rs\<close>): arenas and page states.
    Allocation and release refine a map from addresses to states; the kernel
    and user zones are never mixed; contiguous runs; the capacity after boot.
  \<^item> \<open>Heap_Allocator\<close> and \<open>Heap_Laws\<close> (\<open>mm/allocator.rs\<close>): block headers in
    memory and the free list through them.  Without freeing, every request
    returns and blocks are aligned, in the heap and disjoint; the first two
    small blocks of a heap, if no gap is left between them, close the free list
    into a cycle when they are freed in order.
  \<^item> \<open>Vmo\<close> and \<open>Vmo_Fill\<close> (\<open>object/vmo.rs\<close>): memory objects over the pages of
    \<open>Pmm\<close>.  Writes read back and leave other objects alone; a clone is a copy;
    what a fresh page contains.
  \<^item> \<open>Run_Queue\<close> and \<open>Sched\<close> (\<open>sched/state.rs\<close>, \<open>thread.rs\<close>, \<open>scheduler.rs\<close>):
    each priority level is a bounded queue and the highest is served first;
    equal threads take turns; blocking, waking and yielding.
  \<^item> \<open>Process_Table\<close> (\<open>process/table.rs\<close>, \<open>process/switch.rs\<close>,
    \<open>sched/round_robin.rs\<close>): every runnable process is scheduled in bounded
    time, and over any sequence of calls of \<open>schedule\<close>, \<open>timer_tick\<close> and
    \<open>yield_cpu\<close> at most the current one is running.  \<open>switch_to_pid\<close> and
    \<open>remove_process\<close>, which nothing calls, do not keep this.
  \<^item> \<open>Sync\<close> (\<open>sync/\<close>): the spin lock and the event as steps of interleaved
    threads, the wait queue as a circular buffer.
  \<^item> \<open>Channels\<close> (\<open>object/channel.rs\<close>, parts of \<open>object/event.rs\<close>): a pair of
    endpoints refines two bounded queues.
  \<^item> \<open>Fd_Table\<close> (\<open>syscall/fd.rs\<close>), \<open>Ramdisk\<close> (\<open>build.rs\<close>, \<open>fs/ramdisk.rs\<close>) and
    \<open>Vfs\<close> (\<open>fs/vfs.rs\<close>): descriptors are a slot table whose numbers are never
    reused; the file of an image with a single file is found and read back, and
    the second of two is not; an open file is its contents and a position.
  \<^item> \<open>Elf\<close> (\<open>exec/elf.rs\<close>), \<open>Page_Tables\<close> and \<open>Address_Space\<close>
    (\<open>process/address_space.rs\<close>, parts of \<open>arch/amd64/mm/page_tables.rs\<close>) and
    \<open>Loader\<close> (\<open>exec/process_loader.rs\<close>): parsing gives back the fields that
    the loader uses and all program headers of the file, loading puts the segments into memory objects, mapping changes
    exactly one page of the translation, and together a loaded process sees the
    bytes of its executable through its page tables.  The page tables are read
    as tables of 4 KiB pages: neither the code nor the model looks at the bit
    that makes an upper entry a large page.
  \<^item> \<open>Keyboard\<close> and \<open>Ps2_Controller\<close> (\<open>drivers/keyboard/\<close>): typed characters
    are read back in order, Backspace, Tab and Enter twice; the buffer is a
    bounded queue.  The ports of the
    controller are a parameter.
  \<^item> \<open>Framebuffer\<close> and \<open>Console\<close> (\<open>drivers/display/\<close>): the pixels after any
    text are those of a terminal of character cells.
  \<^item> \<open>Tsc\<close> (\<open>arch/amd64/tsc.rs\<close>): conversions of the counter and delays.
  \<^item> \<open>Syscalls\<close> (\<open>syscall/mod.rs\<close>, the entry of \<open>arch/amd64/syscall.rs\<close>): the
    dispatcher and its handlers over one state that holds all of the above.
    \<open>Syscall_Laws\<close>: every call keeps the kernel state well formed, and a file
    call that fails changes nothing.  \<open>Syscall_Files\<close>: the file calls are
    equivalent to the operations of \<open>Vfs\<close>.  \<open>Syscall_Spawn\<close>: spawning composes
    path, ramdisk, loader, address space and process table.

  \<^bold>\<open>Bounds and loops.\<close>
  A counted loop recurses on its counter.  A loop whose end is not evident has
  a bound at which it is \<open>Hang\<close>, and lemmas show that the bound is not reached:
  256 cells for the wait queue (its capacity, with one more step to find it
  empty) and \<open>MAX_PROCESSES\<close> for the search of the process scheduler, which
  passes every number once.  Loops over hardware values (delays, waiting for a
  key) recurse on the list of values the hardware delivers, and are \<open>Hang\<close> when
  it is used up.  The loops of the heap follow pointers in memory and are
  partial functions, \<open>None\<close> when they do not end; that they end, or do not, is
  proved.  Addresses in the heap laws are below $2^{48}$, so
  that sums of addresses do not wrap and the sizes fit the buffers of the debug
  output.

  \<^bold>\<open>Not modelled.\<close>
  Privileged instructions, descriptor tables, interrupt controllers, the
  assembly of context switches and the firmware interface (\<open>arch/amd64/\<close> apart
  from the parts above, \<open>main.rs\<close>, most of \<open>init.rs\<close>, \<open>acpi/\<close>,
  \<open>drivers/uart.rs\<close>) are effects on hardware without a state of the kernel to
  speak about.  \<open>arch/arm64\<close> and \<open>arch/riscv64\<close> are other targets.  Timers, jobs
  (\<open>object/timer.rs\<close>, \<open>object/job.rs\<close>) and the structures of \<open>process/mod.rs\<close>
  are not used by the boot path or by a system call.  Of the event object the
  spinning \<open>wait\<close> is left out; the event of \<open>sync/event.rs\<close> has the same loop
  and is modelled with its interleavings.  Locks other than the spin lock
  itself are taken as atomic sections.  Test programs are not modelled.
\<close>

end
